(* ===== verification/NC_Prelude.thy ===== *)
theory NC_Prelude
  imports Main "HOL-Library.Word" "HOL-Library.Multiset" "HOL-Library.Signed_Division" "HOL-Library.Code_Target_Nat"
begin

text \<open>
  Shared vocabulary of the development: the enumerations of \<^verbatim>\<open>netconf.h\<close>, \<^verbatim>\<open>session.h\<close> and
  \<^verbatim>\<open>session_p.h\<close>, the fixed-width integers, the part of the C library the sources use on
  strings and numbers (\<^verbatim>\<open>strncmp\<close>, \<^verbatim>\<open>strtoul\<close>, \<^verbatim>\<open>isspace\<close>, \<^verbatim>\<open>isalpha\<close>, \<^verbatim>\<open>%zu\<close>), and the
  list operations that every table of the library is built from: a linear search
  (\<open>find_idx\<close>) and the removal that moves the last entry into the hole (\<open>swap_remove\<close>).
\<close>

unbundle bit_operations_syntax

named_theorems nc_defs \<open>definitions that the component proofs unfold\<close>
named_theorems nc_frame \<open>what an operation leaves unchanged\<close>

section \<open>Integers\<close>

type_synonym u8 = "8 word"
type_synonym u16 = "16 word"
type_synonym u32 = "32 word"
type_synonym u64 = "64 word"

text \<open>Conversion of a wider integer to \<^verbatim>\<open>int\<close>/\<^verbatim>\<open>int32_t\<close> (two's complement).\<close>

definition int32 :: "int \<Rightarrow> int" where
  "int32 x = (x + 2 ^ 31) mod 2 ^ 32 - 2 ^ 31"

lemma int32_id [simp]: "- (2 ^ 31) \<le> x \<Longrightarrow> x < 2 ^ 31 \<Longrightarrow> int32 x = x"
  by (simp add: int32_def)

lemma int32_bounds: "- (2 ^ 31) \<le> int32 x \<and> int32 x < 2 ^ 31"
  by (simp add: int32_def pos_mod_bound [of "2 ^ 32" "x + 2 ^ 31", simplified])

lemma int32_of_nat [simp]: "n < 2 ^ 31 \<Longrightarrow> int32 (int n) = int n"
  by simp

text \<open>Arithmetic on \<^verbatim>\<open>size_t\<close> (64 bits) wraps around.\<close>

definition size_t :: "nat \<Rightarrow> nat" where
  "size_t n = n mod 2 ^ 64"

lemma size_t_id [simp]: "n < 2 ^ 64 \<Longrightarrow> size_t n = n"
  by (simp add: size_t_def)

section \<open>Enumerations\<close>

datatype nc_status = NC_STATUS_ERR | NC_STATUS_STARTING | NC_STATUS_CLOSING
  | NC_STATUS_INVALID | NC_STATUS_RUNNING

datatype nc_term_reason = NC_SESSION_TERM_ERR | NC_SESSION_TERM_NONE | NC_SESSION_TERM_CLOSED
  | NC_SESSION_TERM_KILLED | NC_SESSION_TERM_DROPPED | NC_SESSION_TERM_TIMEOUT
  | NC_SESSION_TERM_BADHELLO | NC_SESSION_TERM_OTHER

datatype nc_side = NC_CLIENT | NC_SERVER

datatype nc_version = NC_VERSION_10 | NC_VERSION_11

datatype nc_ti = NC_TI_NONE | NC_TI_FD | NC_TI_UNIX | NC_TI_LIBSSH | NC_TI_OPENSSL

datatype nc_msg_type = NC_MSG_ERROR | NC_MSG_WOULDBLOCK | NC_MSG_NONE | NC_MSG_HELLO
  | NC_MSG_BAD_HELLO | NC_MSG_RPC | NC_MSG_REPLY | NC_MSG_REPLY_ERR_MSGID | NC_MSG_NOTIF

datatype nc_datastore = NC_DATASTORE_ERROR | NC_DATASTORE_CONFIG | NC_DATASTORE_URL
  | NC_DATASTORE_RUNNING | NC_DATASTORE_STARTUP | NC_DATASTORE_CANDIDATE

datatype nc_wd_mode = NC_WD_UNKNOWN | NC_WD_ALL | NC_WD_ALL_TAG | NC_WD_TRIM | NC_WD_EXPLICIT

datatype nc_rpl = NC_RPL_OK | NC_RPL_DATA | NC_RPL_ERROR | NC_RPL_NOTIF

datatype nc_paramtype = NC_PARAMTYPE_CONST | NC_PARAMTYPE_FREE | NC_PARAMTYPE_DUP_AND_FREE

text \<open>The integer values of the enumerations whose code does arithmetic on them.\<close>

fun term_reason_val :: "nc_term_reason \<Rightarrow> int" where
  "term_reason_val NC_SESSION_TERM_ERR = -1"
| "term_reason_val NC_SESSION_TERM_NONE = 0"
| "term_reason_val NC_SESSION_TERM_CLOSED = 1"
| "term_reason_val NC_SESSION_TERM_KILLED = 2"
| "term_reason_val NC_SESSION_TERM_DROPPED = 3"
| "term_reason_val NC_SESSION_TERM_TIMEOUT = 4"
| "term_reason_val NC_SESSION_TERM_BADHELLO = 5"
| "term_reason_val NC_SESSION_TERM_OTHER = 6"

fun wd_mode_val :: "nc_wd_mode \<Rightarrow> u32" where
  "wd_mode_val NC_WD_UNKNOWN = 0"
| "wd_mode_val NC_WD_ALL = 1"
| "wd_mode_val NC_WD_ALL_TAG = 2"
| "wd_mode_val NC_WD_TRIM = 3"
| "wd_mode_val NC_WD_EXPLICIT = 4"

section \<open>Characters and C strings\<close>

text \<open>
  A byte buffer is a \<open>char list\<close>. A C string stored in a buffer ends at its first NUL
  byte; a literal or a string read from an API argument is a NUL-free list.
\<close>

type_synonym bytes = "char list"

abbreviation NUL :: char where "NUL \<equiv> CHR 0x00"
abbreviation LF :: char where "LF \<equiv> CHR 0x0A"

definition cstr :: "bytes \<Rightarrow> string" where
  "cstr b = takeWhile (\<lambda>c. c \<noteq> NUL) b"

lemma cstr_id [simp]: "NUL \<notin> set b \<Longrightarrow> cstr b = b"
  unfolding cstr_def by (rule takeWhile_eq_all_conv [THEN iffD2]) auto

lemma NUL_notin_cstr [simp]: "NUL \<notin> set (cstr b)"
  unfolding cstr_def using set_takeWhileD by fastforce

lemma cstr_append_NUL [simp]: "NUL \<notin> set b \<Longrightarrow> cstr (b @ NUL # z) = b"
  unfolding cstr_def by (subst takeWhile_append2) auto

text \<open>
  \<^verbatim>\<open>!strncmp(a, b, n)\<close>: the lists are followed by their terminating NUL, and the comparison
  stops after the first NUL.
\<close>

fun strncmp_eq :: "bytes \<Rightarrow> bytes \<Rightarrow> nat \<Rightarrow> bool" where
  "strncmp_eq a b 0 = True"
| "strncmp_eq [] [] (Suc n) = True"
| "strncmp_eq [] (y # ys) (Suc n) = (y = NUL)"
| "strncmp_eq (x # xs) [] (Suc n) = (x = NUL)"
| "strncmp_eq (x # xs) (y # ys) (Suc n) = (x = y \<and> (x = NUL \<or> strncmp_eq xs ys n))"

lemma strncmp_eq_code [code]:
  "strncmp_eq a b n =
     (n = 0 \<or> (case a of [] \<Rightarrow> (case b of [] \<Rightarrow> True | y # _ \<Rightarrow> y = NUL)
       | x # xs \<Rightarrow> (case b of [] \<Rightarrow> x = NUL | y # ys \<Rightarrow> x = y \<and> (x = NUL \<or> strncmp_eq xs ys (n - 1)))))"
  by (cases n; cases a; cases b) simp_all

lemma strncmp_eq_take:
  assumes "NUL \<notin> set a" and "n \<le> length a"
  shows "strncmp_eq a b n \<longleftrightarrow> n \<le> length b \<and> take n a = take n b"
  using assms
proof (induction a b n rule: strncmp_eq.induct)
  case (5 x xs y ys n)
  then show ?case by auto
qed auto

lemma strncmp_eq_full:
  assumes "NUL \<notin> set a" and "NUL \<notin> set b"
  shows "strncmp_eq a b n \<longleftrightarrow> take n a = take n b"
  using assms by (induction a b n rule: strncmp_eq.induct) auto

definition isspace :: "char \<Rightarrow> bool" where
  "isspace c \<longleftrightarrow> c \<in> {CHR '' '', CHR 0x09, CHR 0x0A, CHR 0x0B, CHR 0x0C, CHR 0x0D}"

definition isdigit :: "char \<Rightarrow> bool" where
  "isdigit c \<longleftrightarrow> 48 \<le> (of_char c :: nat) \<and> (of_char c :: nat) \<le> 57"

definition isalpha :: "char \<Rightarrow> bool" where
  "isalpha c \<longleftrightarrow> (65 \<le> (of_char c :: nat) \<and> (of_char c :: nat) \<le> 90) \<or>
                 (97 \<le> (of_char c :: nat) \<and> (of_char c :: nat) \<le> 122)"

subsection \<open>Printing and reading decimal numbers\<close>

definition digit_chr :: "nat \<Rightarrow> char" where
  "digit_chr d = char_of (48 + d)"

definition digit_val :: "char \<Rightarrow> nat" where
  "digit_val c = of_char c - 48"

fun dec_str :: "nat \<Rightarrow> string" where
  "dec_str n = (if n < 10 then [digit_chr n] else dec_str (n div 10) @ [digit_chr (n mod 10)])"

declare dec_str.simps [simp del]

definition digits_val :: "string \<Rightarrow> nat" where
  "digits_val ds = foldl (\<lambda>v c. 10 * v + digit_val c) 0 ds"

text \<open>\<^verbatim>\<open>strtoul(s, NULL, 10)\<close> on a 64-bit \<^verbatim>\<open>unsigned long\<close>.\<close>

definition strtoul :: "string \<Rightarrow> nat" where
  "strtoul s =
     (let s1 = dropWhile isspace s;
          neg = (case s1 of c # _ \<Rightarrow> c = CHR ''-'' | [] \<Rightarrow> False);
          s2 = (case s1 of c # r \<Rightarrow> if c = CHR ''-'' \<or> c = CHR ''+'' then r else s1 | [] \<Rightarrow> s1);
          v = digits_val (takeWhile isdigit s2)
      in if 2 ^ 64 \<le> v then 2 ^ 64 - 1
         else if neg then (2 ^ 64 - v) mod 2 ^ 64 else v)"

lemma strtoul_bound: "strtoul s < 2 ^ 64"
  by (auto simp: strtoul_def Let_def)

lemma of_char_digit_chr: "d < 10 \<Longrightarrow> (of_char (digit_chr d) :: nat) = 48 + d"
  by (simp add: digit_chr_def)

lemma isdigit_digit_chr [simp]: "d < 10 \<Longrightarrow> isdigit (digit_chr d)"
  by (simp add: isdigit_def of_char_digit_chr)

lemma digit_val_digit_chr [simp]: "d < 10 \<Longrightarrow> digit_val (digit_chr d) = d"
  by (simp add: digit_val_def of_char_digit_chr)

lemma isdigit_not [simp]:
  "\<not> isdigit LF" "\<not> isdigit NUL" "\<not> isdigit CHR ''-''" "\<not> isdigit CHR ''+''" "\<not> isdigit CHR ''#''"
  by (simp_all add: isdigit_def)

lemma isdigit_not_space: "isdigit c \<Longrightarrow> \<not> isspace c"
  by (auto simp: isdigit_def isspace_def)

lemma dec_str_digits: "\<forall>c \<in> set (dec_str n). isdigit c"
proof (induction n rule: dec_str.induct)
  case (1 n)
  then show ?case by (subst dec_str.simps) auto
qed

lemma dec_str_nonempty [simp]: "dec_str n \<noteq> []"
  by (subst dec_str.simps) simp

lemma digits_val_dec_str [simp]: "digits_val (dec_str n) = n"
proof (induction n rule: dec_str.induct)
  case (1 n)
  show ?case
  proof (cases "n < 10")
    case True
    then show ?thesis by (subst dec_str.simps) (simp add: digits_val_def)
  next
    case False
    with 1 have "digits_val (dec_str (n div 10)) = n div 10" by simp
    then show ?thesis
      using False by (subst dec_str.simps) (simp add: digits_val_def)
  qed
qed

text \<open>Reading back a printed number, up to the first character that is not a digit.\<close>

lemma strtoul_dec_str:
  assumes "n < 2 ^ 64" and "\<not> isdigit c"
  shows "strtoul (dec_str n @ c # z) = n"
proof -
  obtain d ds where ds: "dec_str n = d # ds"
    by (cases "dec_str n") auto
  then have d: "isdigit d" using dec_str_digits [of n] by simp
  have tw: "takeWhile isdigit (dec_str n @ c # z) = dec_str n"
    using dec_str_digits [of n] assms(2) by (subst takeWhile_append2) auto
  have dw: "dropWhile isspace (dec_str n @ c # z) = dec_str n @ c # z"
    using d by (simp add: ds isdigit_not_space)
  have "d \<noteq> CHR ''-''" "d \<noteq> CHR ''+''" using d by (auto simp: isdigit_def)
  then show ?thesis
    using assms(1) tw unfolding strtoul_def Let_def dw by (simp add: ds digits_val_dec_str [of n, unfolded ds])
qed

section \<open>Tables kept in arrays\<close>

text \<open>
  \<open>find_idx P xs\<close> is the loop \<^verbatim>\<open>for (i = 0; i < n; ++i) if (P(xs[i])) break;\<close>, \<open>None\<close> when it
  runs to the end. \<open>swap_remove\<close> is the removal all tables use: the last entry is copied
  over the removed one and the count drops by one.
\<close>

fun find_idx :: "('a \<Rightarrow> bool) \<Rightarrow> 'a list \<Rightarrow> nat option" where
  "find_idx P [] = None"
| "find_idx P (x # xs) = (if P x then Some 0 else map_option Suc (find_idx P xs))"

definition swap_remove :: "nat \<Rightarrow> 'a list \<Rightarrow> 'a list" where
  "swap_remove i xs =
     (let n = length xs - 1 in take n (if i < n then xs[i := xs ! n] else xs))"

lemma find_idx_None: "find_idx P xs = None \<longleftrightarrow> (\<forall>x \<in> set xs. \<not> P x)"
  by (induction xs) auto

lemma find_idx_Some:
  "find_idx P xs = Some i \<longleftrightarrow> i < length xs \<and> P (xs ! i) \<and> (\<forall>j < i. \<not> P (xs ! j))"
proof (induction xs arbitrary: i)
  case (Cons x xs)
  then show ?case
    by (cases i) (auto simp: All_less_Suc2)
qed simp

lemma find_idx_Some_bound: "find_idx P xs = Some i \<Longrightarrow> i < length xs \<and> P (xs ! i)"
  by (simp add: find_idx_Some)

lemma find_idx_ex: "x \<in> set xs \<Longrightarrow> P x \<Longrightarrow> \<exists>i. find_idx P xs = Some i"
  using find_idx_None [of P xs] by (cases "find_idx P xs") auto

lemma length_swap_remove [simp]: "length (swap_remove i xs) = length xs - 1"
  by (simp add: swap_remove_def Let_def)

lemma swap_remove_perm:
  assumes "i < length xs"
  shows "mset (swap_remove i xs) = mset xs - {#xs ! i#}"
proof -
  obtain ys y where xs: "xs = ys @ [y]"
    using assms by (cases xs rule: rev_cases) auto
  show ?thesis
  proof (cases "i < length ys")
    case True
    then show ?thesis
      by (simp add: xs swap_remove_def nth_append list_update_append mset_update)
  next
    case False
    then have "i = length ys" using assms xs by simp
    then show ?thesis by (simp add: xs swap_remove_def)
  qed
qed

lemma swap_remove_map:
  "i < length xs \<Longrightarrow> map f (swap_remove i xs) = swap_remove i (map f xs)"
  by (auto simp: swap_remove_def Let_def map_update simp flip: take_map)

lemma distinct_swap_remove:
  assumes "i < length xs" and "distinct xs"
  shows "distinct (swap_remove i xs) \<and> set (swap_remove i xs) = set xs - {xs ! i}"
proof -
  have m: "mset (swap_remove i xs) = mset_set (set xs) - {#xs ! i#}"
    using assms by (simp add: swap_remove_perm mset_set_set)
  have "mset_set (set xs) - {#xs ! i#} = mset_set (set xs - {xs ! i})"
    using assms(1) by (simp add: mset_set_Diff)
  with m have "mset (swap_remove i xs) = mset_set (set xs - {xs ! i})" by simp
  then show ?thesis
    by (metis distinct_count_atmost_1 finite_Diff finite_set finite_set_mset_mset_set
        set_mset_mset count_mset_set(1) count_mset_set(3))
qed

lemma swap_remove_last: "swap_remove (length xs) (xs @ [x]) = xs"
  by (simp add: swap_remove_def)

end
