(* ===== verification/NC_Time.thy ===== *)
theory NC_Time
  imports NC_Prelude
begin

text \<open>
  The clock arithmetic of \<^verbatim>\<open>session.c\<close>: a deadline is a clock reading plus a number of
  milliseconds (\<^verbatim>\<open>nc_gettimespec_real_add\<close>, \<^verbatim>\<open>nc_gettimespec_mono_add\<close>), and waiting code asks
  for the milliseconds that remain (\<^verbatim>\<open>nc_difftimespec_real_cur\<close>, \<^verbatim>\<open>nc_difftimespec_mono_cur\<close>).
  A clock reading is an argument; \<open>None\<close> is a failed \<^verbatim>\<open>clock_gettime\<close>.
\<close>

datatype timespec = Timespec (tv_sec: int) (tv_nsec: int)

abbreviation nsec_per_sec :: int where "nsec_per_sec \<equiv> 1000000000"

text \<open>Points in time are ordered by seconds, then nanoseconds.\<close>

instantiation timespec :: linorder
begin

definition less_eq_timespec :: "timespec \<Rightarrow> timespec \<Rightarrow> bool" where
  "less_eq_timespec a b \<longleftrightarrow> tv_sec a < tv_sec b \<or> (tv_sec a = tv_sec b \<and> tv_nsec a \<le> tv_nsec b)"

definition less_timespec :: "timespec \<Rightarrow> timespec \<Rightarrow> bool" where
  "less_timespec a b \<longleftrightarrow> tv_sec a < tv_sec b \<or> (tv_sec a = tv_sec b \<and> tv_nsec a < tv_nsec b)"

instance
  by standard (auto simp: less_eq_timespec_def less_timespec_def timespec.expand)

end

definition ts_norm :: "timespec \<Rightarrow> bool" where
  "ts_norm ts \<longleftrightarrow> 0 \<le> tv_nsec ts \<and> tv_nsec ts < nsec_per_sec"

definition ts_nsecs :: "timespec \<Rightarrow> int" where
  "ts_nsecs ts = tv_sec ts * nsec_per_sec + tv_nsec ts"

text \<open>On normalised values the order is the order of the nanosecond counts.\<close>

lemma ts_nsecs_mono:
  assumes "ts_norm a" and "ts_norm b"
  shows "a \<le> b \<longleftrightarrow> ts_nsecs a \<le> ts_nsecs b"
  using assms by (auto simp: less_eq_timespec_def ts_norm_def ts_nsecs_def)

section \<open>Deadlines\<close>

definition timespec_add_msec :: "timespec \<Rightarrow> u32 \<Rightarrow> timespec" where
  "timespec_add_msec ts msec =
     (if msec = 0 then ts
      else let m = int (unat msec);
               sec = tv_sec ts + m div 1000;
               nsec = tv_nsec ts + (m mod 1000) * 1000000
           in if nsec \<ge> nsec_per_sec then Timespec (sec + 1) (nsec - nsec_per_sec)
              else if nsec < 0 then Timespec (sec - 1) (nsec + nsec_per_sec)
              else Timespec sec nsec)"

definition nc_gettimespec_real_add :: "timespec option \<Rightarrow> u32 \<Rightarrow> timespec option" where
  "nc_gettimespec_real_add clock_realtime msec =
     (case clock_realtime of None \<Rightarrow> None | Some ts \<Rightarrow> Some (timespec_add_msec ts msec))"

definition nc_gettimespec_mono_add :: "timespec option \<Rightarrow> u32 \<Rightarrow> timespec option" where
  "nc_gettimespec_mono_add clock_monotonic msec =
     (case clock_monotonic of None \<Rightarrow> None | Some ts \<Rightarrow> Some (timespec_add_msec ts msec))"

definition nc_difftimespec_cur :: "timespec \<Rightarrow> timespec \<Rightarrow> int" where
  "nc_difftimespec_cur ts cur =
     int32 (((tv_sec ts - tv_sec cur) * nsec_per_sec + (tv_nsec ts - tv_nsec cur)) sdiv 1000000)"

definition nc_difftimespec_real_cur :: "timespec \<Rightarrow> timespec \<Rightarrow> int" where
  "nc_difftimespec_real_cur ts cur = nc_difftimespec_cur ts cur"

definition nc_difftimespec_mono_cur :: "timespec \<Rightarrow> timespec \<Rightarrow> int" where
  "nc_difftimespec_mono_cur ts cur = nc_difftimespec_cur ts cur"

lemmas difftimespec_defs = nc_difftimespec_real_cur_def nc_difftimespec_mono_cur_def
  nc_difftimespec_cur_def

lemma timespec_add_norm: "ts_norm ts \<Longrightarrow> ts_norm (timespec_add_msec ts msec)"
  by (auto simp: timespec_add_msec_def ts_norm_def Let_def)

lemma timespec_add_nsecs:
  "ts_nsecs (timespec_add_msec ts msec) = ts_nsecs ts + int (unat msec) * 1000000"
proof -
  have split: "m mod 1000 * 1000000 + m div 1000 * nsec_per_sec = m * 1000000" for m :: int
    by presburger
  show ?thesis
    using split [of "uint msec"]
    by (auto simp: timespec_add_msec_def ts_nsecs_def Let_def algebra_simps)
qed

lemma difftimespec_nsecs:
  "nc_difftimespec_cur ts cur = int32 ((ts_nsecs ts - ts_nsecs cur) sdiv 1000000)"
  by (simp add: nc_difftimespec_cur_def ts_nsecs_def algebra_simps)

lemma sdiv_pos: "0 \<le> a \<Longrightarrow> 0 < (b :: int) \<Longrightarrow> a sdiv b = a div b"
  by (cases "a = 0") (auto simp: signed_divide_int_def)

lemma sdiv_neg: "a < 0 \<Longrightarrow> 0 < (b :: int) \<Longrightarrow> a sdiv b = - ((- a) div b)"
  by (auto simp: signed_divide_int_def)

text \<open>
  A wait loop stops when fewer than one millisecond remains. Within the range of
  \<^verbatim>\<open>int32_t\<close> this is exactly that the deadline is less than a millisecond away or past.
\<close>

definition in_clock_range :: "timespec \<Rightarrow> timespec \<Rightarrow> bool" where
  "in_clock_range ts cur \<longleftrightarrow> \<bar>ts_nsecs ts - ts_nsecs cur\<bar> < 2 ^ 31 * 1000000"

lemma difftimespec_in_range:
  "in_clock_range ts cur \<Longrightarrow>
     nc_difftimespec_cur ts cur = (ts_nsecs ts - ts_nsecs cur) sdiv 1000000"
  unfolding difftimespec_nsecs in_clock_range_def
  by (rule int32_id) (auto simp: signed_divide_int_def sgn_if abs_if split: if_splits)

lemma difftimespec_elapsed_iff:
  assumes "in_clock_range ts cur"
  shows "nc_difftimespec_cur ts cur < 1 \<longleftrightarrow> ts_nsecs ts - ts_nsecs cur < 1000000"
proof -
  let ?d = "ts_nsecs ts - ts_nsecs cur"
  have "?d sdiv 1000000 < 1 \<longleftrightarrow> ?d < 1000000"
  proof (cases "0 \<le> ?d")
    case True
    then show ?thesis unfolding sdiv_pos [OF True, of 1000000, simplified] by linarith
  next
    case False
    then show ?thesis by (simp add: sdiv_neg)
  qed
  with difftimespec_in_range [OF assms] show ?thesis by simp
qed

text \<open>
  C30: a deadline computed \<open>msec\<close> milliseconds ahead of a clock reading is normalised, lies
  exactly that far ahead, and the remaining time the wait loops compute at the moment of the
  reading is \<open>msec\<close> again, for every timeout an \<^verbatim>\<open>int\<close> can hold.
\<close>

theorem deadline_roundtrip:
  assumes "ts_norm now" and "unat msec < 2 ^ 31"
  shows "\<exists>d. nc_gettimespec_mono_add (Some now) msec = Some d \<and> ts_norm d \<and> now \<le> d \<and>
             ts_nsecs d = ts_nsecs now + int (unat msec) * 1000000 \<and>
             nc_difftimespec_mono_cur d now = int (unat msec)"
proof -
  let ?d = "timespec_add_msec now msec"
  have ns: "ts_nsecs ?d = ts_nsecs now + int (unat msec) * 1000000"
    by (rule timespec_add_nsecs)
  have le: "now \<le> ?d"
    using ns ts_nsecs_mono [OF assms(1) timespec_add_norm [OF assms(1)]] by simp
  have "(ts_nsecs ?d - ts_nsecs now) sdiv 1000000 = int (unat msec)"
    unfolding ns by (subst sdiv_pos) auto
  then have "nc_difftimespec_mono_cur ?d now = int (unat msec)"
    using int32_of_nat [OF assms(2)] by (simp add: nc_difftimespec_mono_cur_def difftimespec_nsecs)
  then show ?thesis
    using ns le assms(1) timespec_add_norm
    by (auto simp: nc_gettimespec_mono_add_def)
qed

theorem deadline_roundtrip_witness:
  "ts_norm (Timespec 10 999999999) \<and> unat (1500 :: u32) < 2 ^ 31 \<and>
   (\<exists>d. nc_gettimespec_mono_add (Some (Timespec 10 999999999)) 1500 = Some d \<and>
        nc_difftimespec_mono_cur d (Timespec 10 999999999) = 1500)"
proof -
  have h: "ts_norm (Timespec 10 999999999)" "unat (1500 :: u32) < 2 ^ 31"
    by (simp_all add: ts_norm_def)
  show ?thesis using h deadline_roundtrip [OF h] by auto
qed

end
