(* ===== verification/NC_Session.thy ===== *)
theory NC_Session
  imports NC_Time
begin

text \<open>
  The session object of \<^verbatim>\<open>session_p.h\<close> (\<^verbatim>\<open>struct nc_session\<close>), its accessors and setters, and
  the three locks that guard it (\<^verbatim>\<open>session.c\<close>): the RPC lock, the IO lock and the client
  message lock. The results of the pthread calls are arguments (\<open>lock_res\<close>); what other
  threads did to the shared flag while a call waited on a condition variable arrives with
  each wake-up.
\<close>

section \<open>The session object\<close>

record nc_session =
  status :: nc_status
  term_reason :: nc_term_reason
  killed_by :: u32
  side :: nc_side
  sess_id :: u32
  version :: nc_version
  ti_type :: nc_ti
  username :: "string option"
  host :: "string option"
  port :: u16
  path :: "string option"
  ctx :: nat
  user_data :: "nat option"
  flags :: u8
  msgid :: u64
  cpblts :: "string list option"
  msgs :: "(nc_msg_type \<times> bytes) list"
  ntf_thread_running :: bool
  session_start :: int
  last_rpc :: int
  ntf_status :: u32
  rpc_inuse :: bool
  rpc_mutex :: bool

definition NC_SESSION_SHAREDCTX :: u8 where "NC_SESSION_SHAREDCTX = 0x01"
definition NC_SESSION_CALLHOME :: u8 where "NC_SESSION_CALLHOME = 0x02"
definition NC_SESSION_CH_THREAD :: u8 where "NC_SESSION_CH_THREAD = 0x04"
definition NC_SESSION_SSH_SUBSYS_NETCONF :: u8 where "NC_SESSION_SSH_SUBSYS_NETCONF = 0x20"
definition NC_SESSION_SSH_NEW_MSG :: u8 where "NC_SESSION_SSH_NEW_MSG = 0x40"

definition flag_set :: "nc_session \<Rightarrow> u8 \<Rightarrow> bool" where
  "flag_set s f \<longleftrightarrow> flags s AND f \<noteq> 0"

text \<open>A new session is zeroed memory (\<^verbatim>\<open>calloc\<close>) with its side set; \<open>None\<close> is a failed
  allocation of the session or of its IO lock.\<close>

definition nc_new_session :: "bool \<Rightarrow> bool \<Rightarrow> nc_side \<Rightarrow> bool \<Rightarrow> nc_session option" where
  "nc_new_session alloc_session alloc_io_lock sd shared_ti =
     (if \<not> alloc_session then None
      else if \<not> shared_ti \<and> \<not> alloc_io_lock then None
      else Some \<lparr>status = NC_STATUS_STARTING, term_reason = NC_SESSION_TERM_NONE, killed_by = 0,
             side = sd, sess_id = 0, version = NC_VERSION_10, ti_type = NC_TI_NONE,
             username = None, host = None, port = 0, path = None, ctx = 0, user_data = None,
             flags = 0, msgid = 0, cpblts = None, msgs = [], ntf_thread_running = False,
             session_start = 0, last_rpc = 0, ntf_status = 0, rpc_inuse = False,
             rpc_mutex = False\<rparr>)"

text \<open>Sessions that may be read from or written to.\<close>

definition live :: "nc_session \<Rightarrow> bool" where
  "live s \<longleftrightarrow> status s = NC_STATUS_RUNNING \<or> status s = NC_STATUS_STARTING"

text \<open>The assignment pair every fatal transport error makes.\<close>

definition invalidate :: "nc_term_reason \<Rightarrow> nc_session \<Rightarrow> nc_session" where
  "invalidate r s = s\<lparr>status := NC_STATUS_INVALID, term_reason := r\<rparr>"

lemma invalidate_simps [simp]:
  "status (invalidate r s) = NC_STATUS_INVALID" "term_reason (invalidate r s) = r"
  "version (invalidate r s) = version s" "ti_type (invalidate r s) = ti_type s"
  "side (invalidate r s) = side s" "msgid (invalidate r s) = msgid s"
  "sess_id (invalidate r s) = sess_id s" "flags (invalidate r s) = flags s"
  "rpc_inuse (invalidate r s) = rpc_inuse s"
  by (simp_all add: invalidate_def)

lemma not_live_invalidate [simp]: "\<not> live (invalidate r s)"
  by (simp add: live_def)

section \<open>Accessors\<close>

definition nc_session_get_status :: "nc_session option \<Rightarrow> nc_status" where
  "nc_session_get_status so = (case so of None \<Rightarrow> NC_STATUS_ERR | Some s \<Rightarrow> status s)"

definition nc_session_get_term_reason :: "nc_session option \<Rightarrow> nc_term_reason" where
  "nc_session_get_term_reason so =
     (case so of None \<Rightarrow> NC_SESSION_TERM_ERR | Some s \<Rightarrow> term_reason s)"

definition nc_session_get_killed_by :: "nc_session option \<Rightarrow> u32" where
  "nc_session_get_killed_by so = (case so of None \<Rightarrow> 0 | Some s \<Rightarrow> killed_by s)"

definition nc_session_get_id :: "nc_session option \<Rightarrow> u32" where
  "nc_session_get_id so = (case so of None \<Rightarrow> 0 | Some s \<Rightarrow> sess_id s)"

definition nc_session_get_version :: "nc_session option \<Rightarrow> int" where
  "nc_session_get_version so =
     (case so of None \<Rightarrow> -1 | Some s \<Rightarrow> if version s = NC_VERSION_10 then 0 else 1)"

definition nc_session_get_ti :: "nc_session option \<Rightarrow> nc_ti" where
  "nc_session_get_ti so = (case so of None \<Rightarrow> NC_TI_NONE | Some s \<Rightarrow> ti_type s)"

definition nc_session_get_username :: "nc_session option \<Rightarrow> string option" where
  "nc_session_get_username so = (case so of None \<Rightarrow> None | Some s \<Rightarrow> username s)"

definition nc_session_get_host :: "nc_session option \<Rightarrow> string option" where
  "nc_session_get_host so = (case so of None \<Rightarrow> None | Some s \<Rightarrow> host s)"

definition nc_session_get_path :: "nc_session option \<Rightarrow> string option" where
  "nc_session_get_path so =
     (case so of None \<Rightarrow> None | Some s \<Rightarrow> if ti_type s \<noteq> NC_TI_UNIX then None else path s)"

definition nc_session_get_port :: "nc_session option \<Rightarrow> u16" where
  "nc_session_get_port so = (case so of None \<Rightarrow> 0 | Some s \<Rightarrow> port s)"

definition nc_session_get_ctx :: "nc_session option \<Rightarrow> nat option" where
  "nc_session_get_ctx so = (case so of None \<Rightarrow> None | Some s \<Rightarrow> Some (ctx s))"

definition nc_session_set_data :: "nc_session option \<Rightarrow> nat option \<Rightarrow> nc_session option" where
  "nc_session_set_data so d = map_option (\<lambda>s. s\<lparr>user_data := d\<rparr>) so"

definition nc_session_get_data :: "nc_session option \<Rightarrow> nat option" where
  "nc_session_get_data so = (case so of None \<Rightarrow> None | Some s \<Rightarrow> user_data s)"

section \<open>Setters of the server\<close>

definition nc_session_set_term_reason :: "nc_session option \<Rightarrow> nc_term_reason \<Rightarrow> nc_session option" where
  "nc_session_set_term_reason so reason =
     (case so of None \<Rightarrow> None
      | Some s \<Rightarrow>
          if reason = NC_SESSION_TERM_NONE then Some s
          else Some ((if reason \<noteq> NC_SESSION_TERM_KILLED \<and> term_reason s = NC_SESSION_TERM_KILLED
                      then s\<lparr>killed_by := 0\<rparr> else s)\<lparr>term_reason := reason\<rparr>))"

definition nc_session_set_killed_by :: "nc_session option \<Rightarrow> u32 \<Rightarrow> nc_session option" where
  "nc_session_set_killed_by so k =
     (case so of None \<Rightarrow> None
      | Some s \<Rightarrow> if term_reason s \<noteq> NC_SESSION_TERM_KILLED then Some s
                  else if k = 0 then Some s else Some (s\<lparr>killed_by := k\<rparr>))"

definition nc_session_set_status :: "nc_session option \<Rightarrow> nc_status \<Rightarrow> nc_session option" where
  "nc_session_set_status so st =
     (case so of None \<Rightarrow> None
      | Some s \<Rightarrow> if st = NC_STATUS_STARTING then Some s else Some (s\<lparr>status := st\<rparr>))"

definition nc_session_get_start_time :: "nc_session option \<Rightarrow> int" where
  "nc_session_get_start_time so =
     (case so of None \<Rightarrow> 0 | Some s \<Rightarrow> if side s \<noteq> NC_SERVER then 0 else session_start s)"

definition nc_session_inc_notif_status :: "nc_session option \<Rightarrow> nc_session option" where
  "nc_session_inc_notif_status so =
     (case so of None \<Rightarrow> None
      | Some s \<Rightarrow> if side s \<noteq> NC_SERVER then Some s
                  else Some (s\<lparr>ntf_status := ntf_status s + 1\<rparr>))"

definition nc_session_dec_notif_status :: "nc_session option \<Rightarrow> nc_session option" where
  "nc_session_dec_notif_status so =
     (case so of None \<Rightarrow> None
      | Some s \<Rightarrow> if side s \<noteq> NC_SERVER then Some s
                  else if ntf_status s \<noteq> 0 then Some (s\<lparr>ntf_status := ntf_status s - 1\<rparr>) else Some s)"

definition nc_session_get_notif_status :: "nc_session option \<Rightarrow> u32" where
  "nc_session_get_notif_status so =
     (case so of None \<Rightarrow> 0 | Some s \<Rightarrow> if side s \<noteq> NC_SERVER then 0 else ntf_status s)"

definition nc_session_is_callhome :: "nc_session option \<Rightarrow> bool" where
  "nc_session_is_callhome so =
     (case so of None \<Rightarrow> False
      | Some s \<Rightarrow> if side s \<noteq> NC_SERVER then False else flag_set s NC_SESSION_CALLHOME)"

section \<open>Locks\<close>

datatype lock_res = LK_OK | LK_EBUSY | LK_ETIMEDOUT | LK_ERROR

text \<open>
  The wait loop \<^verbatim>\<open>while (rpc_inuse) { ret = pthread_cond_timedwait(...); ... }\<close>. Each wake-up
  gives the result of the wait and the value of \<^verbatim>\<open>rpc_inuse\<close> other threads left behind;
  \<open>None\<close>: the thread still waits after these wake-ups. The third component says whether the
  mutex is still held (it is released when a wait fails).
\<close>

fun rpc_cond_wait :: "bool \<Rightarrow> (lock_res \<times> bool) list \<Rightarrow> (lock_res \<times> bool \<times> bool) option" where
  "rpc_cond_wait inuse [] = (if inuse then None else Some (LK_OK, False, True))"
| "rpc_cond_wait inuse ((r, u) # ws) =
     (if \<not> inuse then Some (LK_OK, False, True)
      else if r \<noteq> LK_OK then Some (r, u, False)
      else rpc_cond_wait u ws)"

definition nc_session_rpc_lock ::
  "nc_session \<Rightarrow> int \<Rightarrow> lock_res \<Rightarrow> (lock_res \<times> bool) list \<Rightarrow> lock_res \<Rightarrow> (int \<times> nc_session) option"
where
  "nc_session_rpc_lock s timeout lk ws ul =
     (if side s \<noteq> NC_SERVER then Some (-1, s)
      else
        let r = (if timeout = 0 then
                   (if lk = LK_OK then
                      if rpc_inuse s then Some (LK_EBUSY, rpc_inuse s, False)
                      else Some (LK_OK, rpc_inuse s, True)
                    else Some (lk, rpc_inuse s, False))
                 else \<comment> \<open>timed lock or, for a negative timeout, an unlimited one\<close>
                   (if lk = LK_OK then rpc_cond_wait (rpc_inuse s) ws
                    else Some (lk, rpc_inuse s, False)))
        in case r of None \<Rightarrow> None
           | Some (ret, inuse, held) \<Rightarrow>
               let s1 = s\<lparr>rpc_inuse := inuse, rpc_mutex := held\<rparr> in
               if ret = LK_EBUSY \<or> ret = LK_ETIMEDOUT then Some (0, s1)
               else if ret = LK_ERROR then Some (-1, s1)
               else let s2 = s1\<lparr>rpc_inuse := True, rpc_mutex := (ul \<noteq> LK_OK)\<rparr> in
                    if ul \<noteq> LK_OK then Some (-1, s2) else Some (1, s2))"

definition nc_session_rpc_unlock :: "nc_session \<Rightarrow> int \<Rightarrow> lock_res \<Rightarrow> lock_res \<Rightarrow> int \<times> nc_session" where
  "nc_session_rpc_unlock s timeout lk ul =
     (if side s \<noteq> NC_SERVER then (-1, s)
      else if lk = LK_ERROR then (-1, s)
      else let s1 = s\<lparr>rpc_inuse := False\<rparr> in
           if lk = LK_OK then
             (if ul \<noteq> LK_OK then (-1, s1\<lparr>rpc_mutex := True\<rparr>) else (1, s1))
           else (1, s1))"

definition nc_session_io_lock :: "lock_res \<Rightarrow> int" where
  "nc_session_io_lock lk = (case lk of LK_OK \<Rightarrow> 1 | LK_EBUSY \<Rightarrow> 0 | LK_ETIMEDOUT \<Rightarrow> 0 | LK_ERROR \<Rightarrow> -1)"

definition nc_session_io_unlock :: "lock_res \<Rightarrow> int" where
  "nc_session_io_unlock ul = (if ul \<noteq> LK_OK then -1 else 1)"

text \<open>
  The message lock also updates the caller's timeout: the real-time clock is read before
  (\<open>ts_start\<close>) and after (\<open>cur\<close>) a successful timed lock.
\<close>

definition nc_session_client_msgs_lock :: "int \<Rightarrow> lock_res \<Rightarrow> timespec \<Rightarrow> timespec \<Rightarrow> int \<times> int" where
  "nc_session_client_msgs_lock timeout lk ts_start cur =
     (let timeout' = (if timeout > 0 \<and> lk = LK_OK
                      then timeout - nc_difftimespec_real_cur ts_start cur else timeout)
      in if lk = LK_EBUSY \<or> lk = LK_ETIMEDOUT then (0, timeout')
         else if lk = LK_ERROR then (-1, timeout')
         else (1, timeout'))"

definition nc_session_client_msgs_unlock :: "lock_res \<Rightarrow> int" where
  "nc_session_client_msgs_unlock ul = (if ul \<noteq> LK_OK then -1 else 1)"

section \<open>Properties of the locks and setters\<close>

lemma rpc_cond_wait_spec:
  assumes "rpc_cond_wait inuse ws = Some (r, u, held)"
  shows "(r = LK_OK \<longrightarrow> \<not> u \<and> held) \<and> (r \<noteq> LK_OK \<longrightarrow> \<not> held) \<and>
         (r = LK_OK \<longrightarrow> \<not> inuse \<or> (\<exists>w \<in> set ws. w = (LK_OK, False)))"
  using assms by (induction inuse ws rule: rpc_cond_wait.induct) (auto split: if_splits)

lemma lock_res_other: "lk \<noteq> LK_OK \<Longrightarrow> lk \<noteq> LK_ERROR \<Longrightarrow> lk \<noteq> LK_EBUSY \<Longrightarrow> lk \<noteq> LK_ETIMEDOUT \<Longrightarrow> False"
  by (cases lk) auto

lemma rpc_cond_wait_free [simp]: "rpc_cond_wait False ws = Some (LK_OK, False, True)"
  by (cases ws) auto

text \<open>
  C28: \<^verbatim>\<open>nc_session_rpc_lock\<close> returns 1, 0 or -1. When it returns 1, the session is a server session,
  the RPC flag was seen free at the moment it was taken (at the call, or at one of the wake-ups),
  it is set now and the mutex is released. When it returns 0 the mutex is not held and the
  thread did not set the flag itself: with no wake-ups the flag is the one it found. A free
  lock is granted at once, whatever the timeout.
\<close>

theorem rpc_lock_correct:
  "(\<forall>r s'. nc_session_rpc_lock s timeout lk ws ul = Some (r, s') \<longrightarrow>
      r \<in> {1, 0, -1} \<and>
      (r = 1 \<longrightarrow> side s = NC_SERVER \<and> rpc_inuse s' \<and> \<not> rpc_mutex s' \<and>
                 (\<not> rpc_inuse s \<or> (timeout \<noteq> 0 \<and> (LK_OK, False) \<in> set ws))) \<and>
      (r = 0 \<longrightarrow> \<not> rpc_mutex s' \<and> (ws = [] \<longrightarrow> rpc_inuse s' = rpc_inuse s))) \<and>
   (side s = NC_SERVER \<and> \<not> rpc_inuse s \<longrightarrow>
      nc_session_rpc_lock s timeout LK_OK ws LK_OK = Some (1, s\<lparr>rpc_inuse := True, rpc_mutex := False\<rparr>))"
proof (intro conjI allI impI)
  fix r s' assume h: "nc_session_rpc_lock s timeout lk ws ul = Some (r, s')"
  then have sp: "rpc_cond_wait (rpc_inuse s) ws = Some (a, b, c) \<Longrightarrow>
      (a = LK_OK \<longrightarrow> \<not> b \<and> c \<and> (\<not> rpc_inuse s \<or> (LK_OK, False) \<in> set ws)) \<and> (a \<noteq> LK_OK \<longrightarrow> \<not> c)" for a b c
    using rpc_cond_wait_spec by blast
  show "r \<in> {1, 0, -1}"
    using h by (auto simp: nc_session_rpc_lock_def Let_def split: if_splits option.splits)
  show "side s = NC_SERVER" "rpc_inuse s'" "\<not> rpc_mutex s'"
    "\<not> rpc_inuse s \<or> (timeout \<noteq> 0 \<and> (LK_OK, False) \<in> set ws)" if "r = 1"
    using h that sp
    by (auto simp: nc_session_rpc_lock_def Let_def split: if_splits option.splits dest: lock_res_other)
  show "\<not> rpc_mutex s'" if "r = 0"
    using h that sp by (auto simp: nc_session_rpc_lock_def Let_def split: if_splits option.splits)
  show "rpc_inuse s' = rpc_inuse s" if "r = 0" "ws = []"
    using h that by (auto simp: nc_session_rpc_lock_def Let_def split: if_splits option.splits)
next
  assume "side s = NC_SERVER \<and> \<not> rpc_inuse s"
  then show "nc_session_rpc_lock s timeout LK_OK ws LK_OK = Some (1, s\<lparr>rpc_inuse := True, rpc_mutex := False\<rparr>)"
    by (simp add: nc_session_rpc_lock_def)
qed

definition sample_session :: nc_session where
  "sample_session = the (nc_new_session True True NC_SERVER False)"

theorem rpc_lock_correct_witness:
  "nc_session_rpc_lock sample_session 5 LK_OK [] LK_OK
     = Some (1, sample_session\<lparr>rpc_inuse := True, rpc_mutex := False\<rparr>)"
proof -
  have "side sample_session = NC_SERVER \<and> \<not> rpc_inuse sample_session"
    by (simp add: sample_session_def nc_new_session_def)
  then show ?thesis using rpc_lock_correct [of sample_session 5 LK_OK "[]" LK_OK] by blast
qed

lemma int32_neg_of_nat: "n < 2 ^ 31 \<Longrightarrow> int32 (- int n) = - int n"
  by (rule int32_id) simp_all



text \<open>The killer of a session is only recorded while the reason is \<open>NC_SESSION_TERM_KILLED\<close>.\<close>

definition killed_by_ok :: "nc_session \<Rightarrow> bool" where
  "killed_by_ok s \<longleftrightarrow> (killed_by s \<noteq> 0 \<longrightarrow> term_reason s = NC_SESSION_TERM_KILLED)"

datatype sess_set = Set_term_reason nc_term_reason | Set_killed_by u32 | Set_status nc_status
  | Set_data "nat option" | Inc_notif | Dec_notif

primrec sess_set_run :: "sess_set \<Rightarrow> nc_session option \<Rightarrow> nc_session option" where
  "sess_set_run (Set_term_reason r) so = nc_session_set_term_reason so r"
| "sess_set_run (Set_killed_by k) so = nc_session_set_killed_by so k"
| "sess_set_run (Set_status st) so = nc_session_set_status so st"
| "sess_set_run (Set_data d) so = nc_session_set_data so d"
| "sess_set_run Inc_notif so = nc_session_inc_notif_status so"
| "sess_set_run Dec_notif so = nc_session_dec_notif_status so"

lemma sess_set_run_ok:
  assumes "killed_by_ok s"
  shows "\<exists>s'. sess_set_run c (Some s) = Some s' \<and> killed_by_ok s' \<and> sess_id s' = sess_id s \<and> side s' = side s \<and>
              ti_type s' = ti_type s \<and> (status s' = NC_STATUS_STARTING \<longrightarrow> status s = NC_STATUS_STARTING) \<and>
              (term_reason s' = NC_SESSION_TERM_NONE \<longrightarrow> term_reason s = NC_SESSION_TERM_NONE)"
  using assms
  by (cases c) (auto simp: killed_by_ok_def nc_session_set_term_reason_def nc_session_set_killed_by_def
      nc_session_set_status_def nc_session_set_data_def nc_session_inc_notif_status_def
      nc_session_dec_notif_status_def)

text \<open>
  C29: starting from a new session, any sequence of calls of the setters keeps the session
  consistent: the session-id of a killer is recorded only while the termination reason is
  \<open>NC_SESSION_TERM_KILLED\<close>, the identity of the session does not change, and the reason never
  returns to "none" nor the status to "starting" once it has been set.
\<close>

theorem setters_keep_session:
  assumes "killed_by_ok s"
  shows "\<exists>s'. fold sess_set_run cs (Some s) = Some s' \<and> killed_by_ok s' \<and> sess_id s' = sess_id s \<and>
              side s' = side s \<and> ti_type s' = ti_type s \<and>
              (status s' = NC_STATUS_STARTING \<longrightarrow> status s = NC_STATUS_STARTING) \<and>
              (term_reason s' = NC_SESSION_TERM_NONE \<longrightarrow> term_reason s = NC_SESSION_TERM_NONE)"
  using assms
proof (induction cs arbitrary: s)
  case (Cons c cs)
  obtain s1 where "sess_set_run c (Some s) = Some s1" "killed_by_ok s1" "sess_id s1 = sess_id s" "side s1 = side s"
    "ti_type s1 = ti_type s" "status s1 = NC_STATUS_STARTING \<longrightarrow> status s = NC_STATUS_STARTING"
    "term_reason s1 = NC_SESSION_TERM_NONE \<longrightarrow> term_reason s = NC_SESSION_TERM_NONE"
    using sess_set_run_ok [OF Cons.prems, of c] by blast
  with Cons.IH [of s1] show ?case by fastforce
qed simp

theorem setters_keep_session_witness:
  "\<exists>s'. fold sess_set_run [Set_term_reason NC_SESSION_TERM_KILLED, Set_killed_by 9,
          Set_term_reason NC_SESSION_TERM_CLOSED, Set_killed_by 9] (Some sample_session) = Some s' \<and> killed_by_ok s'"
proof -
  have "killed_by_ok sample_session" by (simp add: sample_session_def nc_new_session_def killed_by_ok_def)
  from setters_keep_session [OF this, of "[Set_term_reason NC_SESSION_TERM_KILLED, Set_killed_by 9,
          Set_term_reason NC_SESSION_TERM_CLOSED, Set_killed_by 9]"] show ?thesis by blast
qed

end
