(* ===== verification/NC_PollQueue.thy ===== *)
theory NC_PollQueue
  imports NC_Session
begin

text \<open>
  The lock of a pollsession (\<^verbatim>\<open>session_server.c\<close>, \<^verbatim>\<open>nc_ps_queue_add_id\<close>, \<^verbatim>\<open>nc_ps_queue_remove_id\<close>,
  \<^verbatim>\<open>nc_ps_lock\<close>, \<^verbatim>\<open>nc_ps_unlock\<close>): threads line up in a ring of six one-byte tickets and hold the
  lock while their ticket is at the head. The ring refines a list of tickets (locale
  \<open>id_queue\<close>); the threads are a step relation; mutual exclusion is an invariant as long as
  the tickets in the ring span less than 255 values, and fails without that bound.
\<close>

section \<open>The ring of tickets\<close>

definition NC_PS_QUEUE_SIZE :: nat where "NC_PS_QUEUE_SIZE = 6"

record ps_queue =
  queue :: "u8 list"
  queue_begin :: nat
  queue_len :: nat

definition ps_queue_new :: ps_queue where
  "ps_queue_new = \<lparr>queue = replicate NC_PS_QUEUE_SIZE 0, queue_begin = 0, queue_len = 0\<rparr>"

definition q_at :: "ps_queue \<Rightarrow> nat \<Rightarrow> nat" where
  "q_at q i = (queue_begin q + i) mod NC_PS_QUEUE_SIZE"

text \<open>\<^verbatim>\<open>nc_ps_queue_add_id\<close>: the new ticket (unchanged \<open>qid\<close> when the ring is full) and the ring.\<close>

definition nc_ps_queue_add_id :: "ps_queue \<Rightarrow> u8 \<Rightarrow> u8 \<times> ps_queue" where
  "nc_ps_queue_add_id q qid =
     (if queue_len q = NC_PS_QUEUE_SIZE then (qid, q)
      else let qid' = (if queue_len q \<noteq> 0 then queue q ! q_at q (queue_len q - 1) + 1 else 0)
           in (qid', q\<lparr>queue_len := queue_len q + 1, queue := (queue q)[q_at q (queue_len q) := qid']\<rparr>))"

text \<open>The loop of \<^verbatim>\<open>nc_ps_queue_remove_id\<close> from index \<open>i\<close>; \<open>found\<close> is 0, 1 (the head) or 2.\<close>

function ps_remove_loop :: "u8 \<Rightarrow> nat \<Rightarrow> nat \<Rightarrow> ps_queue \<Rightarrow> nat \<times> ps_queue" where
  "ps_remove_loop qid i found q =
     (if queue_len q \<le> i then (found, q)
      else let q_idx = q_at q i in
        if found \<noteq> 0 then
          ps_remove_loop qid (i + 1) found
            (if found = 2
             then q\<lparr>queue := (queue q)[(if q_idx \<noteq> 0 then q_idx - 1 else NC_PS_QUEUE_SIZE - 1) := queue q ! q_idx]\<rparr>
             else q)
        else if queue q ! q_idx = qid then ps_remove_loop qid (i + 1) (if i = 0 then 1 else 2) q
        else ps_remove_loop qid (i + 1) 0 q)"
  by pat_completeness auto

termination
  by (relation "measure (\<lambda>(qid, i, found, q). queue_len q - i)") auto

declare ps_remove_loop.simps [simp del]

definition nc_ps_queue_remove_id :: "ps_queue \<Rightarrow> u8 \<Rightarrow> ps_queue" where
  "nc_ps_queue_remove_id q qid =
     (let (found, q1) = ps_remove_loop qid 0 0 q in
      if found = 0 then q1
      else let q2 = q1\<lparr>queue_len := queue_len q1 - 1\<rparr> in
        if found = 1 then q2\<lparr>queue_begin := (queue_begin q2 + 1) mod NC_PS_QUEUE_SIZE\<rparr> else q2)"

definition ps_head :: "ps_queue \<Rightarrow> u8" where
  "ps_head q = queue q ! queue_begin q"

section \<open>The ring as a list\<close>

definition q_wf :: "ps_queue \<Rightarrow> bool" where
  "q_wf q \<longleftrightarrow> length (queue q) = NC_PS_QUEUE_SIZE \<and> queue_begin q < NC_PS_QUEUE_SIZE \<and>
     queue_len q \<le> NC_PS_QUEUE_SIZE"

definition q_list :: "ps_queue \<Rightarrow> u8 list" where
  "q_list q = map (\<lambda>i. queue q ! q_at q i) [0..<queue_len q]"

lemma length_q_list [simp]: "length (q_list q) = queue_len q"
  by (simp add: q_list_def)

lemma q_list_nth: "i < queue_len q \<Longrightarrow> q_list q ! i = queue q ! q_at q i"
  by (simp add: q_list_def)

lemma q_at_less [simp]: "q_at q i < NC_PS_QUEUE_SIZE"
  by (simp add: q_at_def NC_PS_QUEUE_SIZE_def)

lemma q_at_upd [simp]:
  "q_at (q\<lparr>queue_len := n\<rparr>) i = q_at q i" "q_at (q\<lparr>queue := x\<rparr>) i = q_at q i"
  "q_at (q\<lparr>queue_len := n, queue := x\<rparr>) i = q_at q i"
  by (simp_all add: q_at_def)

lemma mod6_inj: "(b + i) mod 6 = (b + j) mod 6 \<Longrightarrow> i < 6 \<Longrightarrow> j < 6 \<Longrightarrow> i = (j::nat)"
proof (induction i j rule: linorder_wlog)
  case (le i j)
  then have "6 dvd (b + j) - (b + i)" by (intro mod_eq_dvd_iff_nat [THEN iffD1]) simp_all
  then have "6 dvd j - i" by simp
  then show ?case using le by (auto dest: dvd_imp_le)
qed auto

lemma q_at_inj: "q_at q i = q_at q j \<Longrightarrow> i < NC_PS_QUEUE_SIZE \<Longrightarrow> j < NC_PS_QUEUE_SIZE \<Longrightarrow> i = j"
  unfolding q_at_def NC_PS_QUEUE_SIZE_def by (rule mod6_inj)

lemma q_at_pred: "q_at q (Suc i) = k \<Longrightarrow> (if k \<noteq> 0 then k - 1 else NC_PS_QUEUE_SIZE - 1) = q_at q i"
  unfolding q_at_def NC_PS_QUEUE_SIZE_def by (auto simp: mod_Suc split: if_splits)

lemma q_wf_new [simp]: "q_wf ps_queue_new" "q_list ps_queue_new = []"
  by (simp_all add: q_wf_def ps_queue_new_def q_list_def NC_PS_QUEUE_SIZE_def)

lemma ps_head_hd: "q_wf q \<Longrightarrow> q_list q \<noteq> [] \<Longrightarrow> ps_head q = hd (q_list q)"
  by (auto simp: ps_head_def q_list_def hd_map q_at_def q_wf_def)

definition next_id :: "u8 list \<Rightarrow> u8" where
  "next_id ids = (if ids = [] then 0 else last ids + 1)"

lemma add_id_list:
  assumes "q_wf q" and "length (q_list q) < NC_PS_QUEUE_SIZE"
  shows "fst (nc_ps_queue_add_id q qid) = next_id (q_list q)"
    and "q_list (snd (nc_ps_queue_add_id q qid)) = q_list q @ [next_id (q_list q)]"
    and "q_wf (snd (nc_ps_queue_add_id q qid))"
proof -
  let ?n = "queue_len q"
  let ?qid = "if ?n \<noteq> 0 then queue q ! q_at q (?n - 1) + 1 else 0"
  have n: "?n < NC_PS_QUEUE_SIZE" using assms(2) by simp
  have qid: "?qid = next_id (q_list q)"
    by (cases ?n) (auto simp: next_id_def q_list_def last_map)
  show "fst (nc_ps_queue_add_id q qid) = next_id (q_list q)"
    using n qid by (simp add: nc_ps_queue_add_id_def Let_def)
  let ?q' = "q\<lparr>queue_len := ?n + 1, queue := (queue q)[q_at q ?n := ?qid]\<rparr>"
  have eq: "snd (nc_ps_queue_add_id q qid) = ?q'" using n by (simp add: nc_ps_queue_add_id_def Let_def)
  have "(queue q)[q_at q ?n := ?qid] ! q_at q i = queue q ! q_at q i" if "i < ?n" for i
    using q_at_inj [of q i ?n] that n by (cases "q_at q ?n = q_at q i") auto
  then have "q_list ?q' = q_list q @ [?qid]"
    using assms(1) by (auto simp: q_list_def q_wf_def)
  then show "q_list (snd (nc_ps_queue_add_id q qid)) = q_list q @ [next_id (q_list q)]" unfolding eq qid .
  show "q_wf (snd (nc_ps_queue_add_id q qid))" unfolding eq using assms n by (simp add: q_wf_def)
qed

lemma remove_loop_head: "ps_remove_loop qid i 1 q = (1, q)"
proof (induction "queue_len q - i" arbitrary: i)
  case 0
  then show ?case by (subst ps_remove_loop.simps) simp
next
  case (Suc n)
  then have "n = queue_len q - (i + 1)" by simp
  from Suc.hyps(1) [OF this] Suc.hyps(2) show ?case by (subst ps_remove_loop.simps) (simp add: Let_def)
qed

lemma remove_loop_absent:
  assumes "qid \<notin> set (q_list q)"
  shows "ps_remove_loop qid i 0 q = (0, q)"
proof (induction "queue_len q - i" arbitrary: i)
  case 0
  then show ?case by (subst ps_remove_loop.simps) simp
next
  case (Suc n)
  then have i: "i < queue_len q" "n = queue_len q - (i + 1)" by simp_all
  have "queue q ! q_at q i \<noteq> qid" using assms i(1) q_list_nth [of i q] by (metis length_q_list nth_mem)
  then show ?case using Suc.hyps(1) [OF i(2)] i(1) by (subst ps_remove_loop.simps) (simp add: Let_def)
qed

lemma remove_loop_found:
  assumes "q_list q = A @ qid # B" and "qid \<notin> set A" and "i \<le> length A"
  shows "ps_remove_loop qid i 0 q = ps_remove_loop qid (Suc (length A)) (if A = [] then 1 else 2) q"
  using assms(3)
proof (induction "length A - i" arbitrary: i)
  case 0
  have "length A < queue_len q" using arg_cong [OF assms(1), of length] by simp
  moreover have "queue q ! q_at q (length A) = qid"
    using calculation q_list_nth [of "length A" q] assms(1) by simp
  moreover have "i = length A" using 0 by simp
  ultimately show ?case by (subst ps_remove_loop.simps) (simp add: Let_def)
next
  case (Suc n)
  then have i: "n = length A - Suc i" "Suc i \<le> length A" "i < length A" by simp_all
  have "i < queue_len q" using arg_cong [OF assms(1), of length] i(3) by simp
  moreover have "queue q ! q_at q i \<noteq> qid"
    using q_list_nth [OF calculation] assms(1,2) i(3) by (metis nth_append nth_mem)
  ultimately show ?case
    using Suc.hyps(1) [OF i(1,2)] by (subst ps_remove_loop.simps) (simp add: Let_def)
qed

lemma q_list_update:
  assumes "q_wf q" and "j < queue_len q"
  shows "q_list (q\<lparr>queue := (queue q)[q_at q j := x]\<rparr>) = (q_list q)[j := x]"
proof (rule nth_equalityI)
  fix i
  assume "i < length (q_list (q\<lparr>queue := (queue q)[q_at q j := x]\<rparr>))"
  then have i: "i < queue_len q" by simp
  have len: "queue_len q \<le> NC_PS_QUEUE_SIZE" "q_at q j < length (queue q)"
    using assms(1) by (auto simp: q_wf_def)
  have "q_at q i = q_at q j \<longleftrightarrow> i = j" using q_at_inj [of q i j] i assms(2) len by auto
  then show "q_list (q\<lparr>queue := (queue q)[q_at q j := x]\<rparr>) ! i = (q_list q)[j := x] ! i"
    using i len by (auto simp: q_list_def q_at_def nth_list_update)
qed simp

lemma remove_loop_shift:
  assumes "q_wf q" and "0 < i" and "i \<le> queue_len q"
  shows "\<exists>q'. ps_remove_loop qid i 2 q = (2, q') \<and> q_wf q' \<and> queue_begin q' = queue_begin q \<and>
           queue_len q' = queue_len q \<and>
           q_list q' = take (i - 1) (q_list q) @ drop i (q_list q) @ [last (q_list q)]"
  using assms
proof (induction "queue_len q - i" arbitrary: i q)
  case 0
  then have i: "i = queue_len q" by simp
  have "q_list q = take (i - 1) (q_list q) @ [last (q_list q)]"
    using 0 i by (metis append_butlast_last_id butlast_conv_take length_q_list length_greater_0_conv)
  then show ?case using i 0 by (subst ps_remove_loop.simps) simp
next
  case (Suc n)
  obtain k where k: "i = Suc k" using Suc.prems(2) by (cases i) auto
  have i: "i < queue_len q" "k < queue_len q" using Suc.hyps(2) k by simp_all
  have ne: "q_list q \<noteq> []" using i(1) length_q_list [of q] by fastforce
  let ?q1 = "q\<lparr>queue := (queue q)[q_at q k := queue q ! q_at q i]\<rparr>"
  have step: "ps_remove_loop qid i 2 q = ps_remove_loop qid (Suc i) 2 ?q1"
    using i(1) q_at_pred [OF refl, of q k] k by (subst ps_remove_loop.simps) (simp add: Let_def)
  have L1: "q_list ?q1 = (q_list q)[k := q_list q ! i]"
    using q_list_update [OF Suc.prems(1) i(2)] q_list_nth [OF i(1)] by simp
  have wf1: "q_wf ?q1" "queue_len ?q1 = queue_len q" "queue_begin ?q1 = queue_begin q"
    using Suc.prems(1) by (simp_all add: q_wf_def)
  have "n = queue_len ?q1 - Suc i" "Suc i \<le> queue_len ?q1" using Suc.hyps(2) i by simp_all
  from Suc.hyps(1) [OF this(1) wf1(1) _ this(2)]
  obtain q' where q': "ps_remove_loop qid (Suc i) 2 ?q1 = (2, q')" "q_wf q'"
    "queue_begin q' = queue_begin q" "queue_len q' = queue_len q"
    "q_list q' = take i (q_list ?q1) @ drop (Suc i) (q_list ?q1) @ [last (q_list ?q1)]"
    using wf1(2,3) by auto
  have "take i (q_list ?q1) = take k (q_list q) @ [q_list q ! i]"
    using i k unfolding L1 by (simp add: take_Suc_conv_app_nth)
  moreover have "drop (Suc i) (q_list ?q1) = drop (Suc i) (q_list q)"
    using k unfolding L1 by simp
  moreover have "last (q_list ?q1) = last (q_list q)"
    using i k ne unfolding L1 by (auto simp: last_list_update)
  moreover have "drop i (q_list q) = q_list q ! i # drop (Suc i) (q_list q)"
    using i by (simp add: Cons_nth_drop_Suc)
  ultimately have "q_list q' = take (i - 1) (q_list q) @ drop i (q_list q) @ [last (q_list q)]"
    using q'(5) k by simp
  then show ?case using step q' by auto
qed

lemma q_list_shorter:
  assumes "queue_len q = Suc n"
  shows "q_list (q\<lparr>queue_len := n\<rparr>) = butlast (q_list q)"
    and "q_list (q\<lparr>queue_len := n, queue_begin := (queue_begin q + 1) mod NC_PS_QUEUE_SIZE\<rparr>) = tl (q_list q)"
proof -
  show "q_list (q\<lparr>queue_len := n\<rparr>) = butlast (q_list q)"
    using assms by (simp add: q_list_def q_at_def)
  have "((queue_begin q + 1) mod NC_PS_QUEUE_SIZE + i) mod NC_PS_QUEUE_SIZE = (queue_begin q + Suc i) mod NC_PS_QUEUE_SIZE" for i
    by (simp add: mod_add_left_eq)
  then show "q_list (q\<lparr>queue_len := n, queue_begin := (queue_begin q + 1) mod NC_PS_QUEUE_SIZE\<rparr>) = tl (q_list q)"
    using assms by (simp add: q_list_def q_at_def upt_conv_Cons map_Suc_upt [symmetric] del: upt_Suc)
qed

lemma remove_id_list:
  assumes "q_wf q"
  shows "q_list (nc_ps_queue_remove_id q qid) = remove1 qid (q_list q) \<and> q_wf (nc_ps_queue_remove_id q qid)"
proof (cases "qid \<in> set (q_list q)")
  case False
  then show ?thesis
    using remove_loop_absent [OF False, of 0] assms by (simp add: nc_ps_queue_remove_id_def remove1_idem)
next
  case True
  then obtain A B where L: "q_list q = A @ qid # B" "qid \<notin> set A" using split_list_first by fastforce
  have n: "queue_len q = Suc (length A + length B)"
    using length_q_list [of q] unfolding L(1) by simp
  note loop = remove_loop_found [OF L, of 0]
  show ?thesis
  proof (cases "A = []")
    case nil: True
    then have "nc_ps_queue_remove_id q qid =
        q\<lparr>queue_len := length B, queue_begin := (queue_begin q + 1) mod NC_PS_QUEUE_SIZE\<rparr>"
      using loop n remove_loop_head [of qid "Suc 0" q] by (simp add: nc_ps_queue_remove_id_def)
    then show ?thesis
      using q_list_shorter(2) [of q "length B"] n nil L assms by (auto simp: q_wf_def NC_PS_QUEUE_SIZE_def)
  next
    case False
    obtain q' where q': "ps_remove_loop qid (Suc (length A)) 2 q = (2, q')" "q_wf q'"
      "queue_len q' = queue_len q" "q_list q' = take (length A) (q_list q) @ drop (Suc (length A)) (q_list q) @ [last (q_list q)]"
      using remove_loop_shift [OF assms, of "Suc (length A)" qid] n by auto
    have "nc_ps_queue_remove_id q qid = q'\<lparr>queue_len := length A + length B\<rparr>"
      using loop False q'(1,3) n by (simp add: nc_ps_queue_remove_id_def)
    then show ?thesis
      using q_list_shorter(1) [of q' "length A + length B"] q'(2,3,4) n L
      by (auto simp: q_wf_def butlast_append remove1_append)
  qed
qed

section \<open>Tickets that cannot be confused\<close>

text \<open>Counted from the head of the line, the tickets increase; the line may grow while the last
  one is fewer than 255 ahead of the first.\<close>

definition tickets_ok :: "u8 list \<Rightarrow> bool" where
  "tickets_ok ids \<longleftrightarrow> sorted_wrt (\<lambda>a b. a - hd ids < b - hd ids) ids"

definition span_ok :: "u8 list \<Rightarrow> bool" where
  "span_ok ids \<longleftrightarrow> ids = [] \<or> unat (last ids - hd ids) < 255"

lemma sorted_wrt_distinct: "sorted_wrt P xs \<Longrightarrow> (\<And>x. \<not> P x x) \<Longrightarrow> distinct xs"
  by (induction xs) auto

lemma tickets_distinct: "tickets_ok ids \<Longrightarrow> distinct ids"
  unfolding tickets_ok_def by (rule sorted_wrt_distinct) auto

lemma sorted_wrt_remove1: "sorted_wrt P xs \<Longrightarrow> sorted_wrt P (remove1 x xs)"
  by (induction xs) (auto dest: in_set_remove1 [THEN iffD1, rotated] notin_set_remove1)

lemma sub_less_sub: "h' - h \<le> a - h \<Longrightarrow> a - h < b - h \<Longrightarrow> a - h' < b - (h' :: u8)"
proof -
  assume le: "h' - h \<le> a - h" and less: "a - h < b - h"
  have "unat (a - h') = unat (a - h) - unat (h' - h)"
    using unat_sub [OF le] by (simp add: algebra_simps)
  moreover have "unat (b - h') = unat (b - h) - unat (h' - h)"
    using unat_sub [of "h' - h" "b - h"] le less by (simp add: algebra_simps)
  moreover have "unat (h' - h) \<le> unat (a - h)" "unat (a - h) < unat (b - h)"
    using le less by (simp_all add: word_le_nat_alt word_less_nat_alt)
  ultimately show ?thesis by (simp add: word_less_nat_alt)
qed

lemma tickets_remove1:
  assumes "tickets_ok ids"
  shows "tickets_ok (remove1 x ids)"
proof (cases "ids \<noteq> [] \<and> hd ids = x \<and> tl ids \<noteq> []")
  case False
  then have "remove1 x ids = [] \<or> hd (remove1 x ids) = hd ids" by (cases ids) auto
  then show ?thesis using sorted_wrt_remove1 [OF assms [unfolded tickets_ok_def], of x] by (auto simp: tickets_ok_def)
next
  case True
  then obtain h h' r where ids: "ids = h # h' # r" "x = h" by (cases ids; cases "tl ids") auto
  have "sorted_wrt (\<lambda>a b. a - h < b - h) (h' # r)" using assms ids by (simp add: tickets_ok_def)
  then have "sorted_wrt (\<lambda>a b. a - h' < b - h') (h' # r)"
  proof (rule sorted_wrt_mono_rel [rotated])
    fix a b
    assume a: "a \<in> set (h' # r)" "b \<in> set (h' # r)" "a - h < b - h"
    have "h' - h \<le> a - h" using a(1) assms ids by (auto simp: tickets_ok_def)
    then show "a - h' < b - h'" using a(3) by (rule sub_less_sub)
  qed
  then show ?thesis using ids by (simp add: tickets_ok_def)
qed

lemma tickets_next:
  assumes "tickets_ok ids" and "span_ok ids"
  shows "tickets_ok (ids @ [next_id ids])"
proof (cases "ids = []")
  case False
  let ?h = "hd ids"
  have lt: "unat (last ids - ?h) < 255" using assms(2) False by (simp add: span_ok_def)
  have "unat (last ids - ?h + 1) = unat (last ids - ?h) + 1" using lt by (simp add: unat_word_ariths)
  then have nx: "last ids - ?h < next_id ids - ?h"
    using False by (simp add: next_id_def word_less_nat_alt algebra_simps)
  have "x - ?h \<le> last ids - ?h" if "x \<in> set ids" for x
  proof -
    have "ids = butlast ids @ [last ids]" using False by simp
    then have "sorted_wrt (\<lambda>a b. a - ?h < b - ?h) (butlast ids @ [last ids])"
      using assms(1) unfolding tickets_ok_def by metis
    moreover have "x \<in> set (butlast ids @ [last ids])" using that False by simp
    then have "x \<in> set (butlast ids) \<or> x = last ids" by auto
    ultimately show ?thesis by (auto simp: sorted_wrt_append)
  qed
  then have "x - ?h < next_id ids - ?h" if "x \<in> set ids" for x using nx that by fastforce
  then show ?thesis using assms(1) False by (simp add: tickets_ok_def sorted_wrt_append)
qed (simp add: tickets_ok_def)

section \<open>The interface the threads rely on\<close>

locale id_queue =
  fixes wf :: "'q \<Rightarrow> bool" and ids :: "'q \<Rightarrow> u8 list" and cap :: nat
    and add :: "'q \<Rightarrow> u8 \<times> 'q" and del :: "'q \<Rightarrow> u8 \<Rightarrow> 'q"
  assumes add_fst: "wf q \<Longrightarrow> length (ids q) < cap \<Longrightarrow> fst (add q) = next_id (ids q)"
    and add_ids: "wf q \<Longrightarrow> length (ids q) < cap \<Longrightarrow> ids (snd (add q)) = ids q @ [next_id (ids q)]"
    and add_wf: "wf q \<Longrightarrow> length (ids q) < cap \<Longrightarrow> wf (snd (add q))"
    and del_ids: "wf q \<Longrightarrow> ids (del q i) = remove1 i (ids q)"
    and del_wf: "wf q \<Longrightarrow> wf (del q i)"
begin

lemma add_tickets:
  assumes "wf q" and "length (ids q) < cap" and "tickets_ok (ids q)" and "span_ok (ids q)"
  shows "tickets_ok (ids (snd (add q)))" and "fst (add q) \<notin> set (ids q)"
proof -
  show t: "tickets_ok (ids (snd (add q)))" using assms tickets_next by (simp add: add_ids)
  show "fst (add q) \<notin> set (ids q)"
    using tickets_distinct [OF t] assms by (simp add: add_ids add_fst)
qed

lemma del_tickets: "wf q \<Longrightarrow> tickets_ok (ids q) \<Longrightarrow> tickets_ok (ids (del q i))"
  by (simp add: del_ids tickets_remove1)

lemma del_set: "wf q \<Longrightarrow> tickets_ok (ids q) \<Longrightarrow> set (ids (del q i)) = set (ids q) - {i}"
  using tickets_distinct by (simp add: del_ids)

lemma del_head_kept: "wf q \<Longrightarrow> ids q \<noteq> [] \<Longrightarrow> hd (ids q) \<noteq> i \<Longrightarrow> hd (ids (del q i)) = hd (ids q)"
  by (cases "ids q") (auto simp: del_ids)

end

interpretation psq: id_queue q_wf q_list NC_PS_QUEUE_SIZE "\<lambda>q. nc_ps_queue_add_id q 0" nc_ps_queue_remove_id
  by unfold_locales (simp_all add: add_id_list remove_id_list)

section \<open>Locking and unlocking\<close>

text \<open>
  What a thread does while it holds the mutex of the pollsession: it takes a ticket, it wakes
  up from \<^verbatim>\<open>pthread_cond_timedwait\<close> with a result, or it leaves. \<open>PS_error\<close> is the return with -1.
\<close>

datatype cond_res = Cond_ok | Cond_timedout | Cond_error

datatype ps_pc = PS_idle | PS_error | PS_wait u8 | PS_hold u8

definition ps_lock_enter :: "ps_queue \<Rightarrow> ps_pc \<times> ps_queue" where
  "ps_lock_enter q =
     (if queue_len q = NC_PS_QUEUE_SIZE then (PS_error, q)
      else let (i, q') = nc_ps_queue_add_id q 0
           in (if ps_head q' \<noteq> i then PS_wait i else PS_hold i, q'))"

definition ps_lock_wake :: "u8 \<Rightarrow> cond_res \<Rightarrow> ps_queue \<Rightarrow> ps_pc \<times> ps_queue" where
  "ps_lock_wake i res q =
     (if res \<noteq> Cond_ok then
        (if res = Cond_timedout \<and> ps_head q = i then (PS_hold i, q)
         else (PS_error, nc_ps_queue_remove_id q i))
      else (if ps_head q \<noteq> i then PS_wait i else PS_hold i, q))"

text \<open>\<^verbatim>\<open>nc_ps_unlock\<close>; it goes on without the mutex when that cannot be locked in time.\<close>

definition nc_ps_unlock :: "ps_queue \<Rightarrow> u8 \<Rightarrow> lock_res \<Rightarrow> int \<times> ps_queue" where
  "nc_ps_unlock q i lk =
     (let ret = (if lk = LK_OK then 0 else -1) in
      if ps_head q \<noteq> i then (-1, q) else (ret, nc_ps_queue_remove_id q i))"

section \<open>Many threads\<close>

record 't ps_sys =
  sq :: ps_queue
  pc :: "'t \<Rightarrow> ps_pc"

inductive ps_step :: "'t ps_sys \<Rightarrow> 't ps_sys \<Rightarrow> bool" where
  enter: "\<lbrakk>pc y t \<in> {PS_idle, PS_error}; ps_lock_enter (sq y) = (c, q')\<rbrakk> \<Longrightarrow>
          ps_step y (y\<lparr>sq := q', pc := (pc y)(t := c)\<rparr>)"
| wake: "\<lbrakk>pc y t = PS_wait i; ps_lock_wake i res (sq y) = (c, q')\<rbrakk> \<Longrightarrow>
         ps_step y (y\<lparr>sq := q', pc := (pc y)(t := c)\<rparr>)"
| leave: "\<lbrakk>pc y t = PS_hold i; nc_ps_unlock (sq y) i lk = (r, q')\<rbrakk> \<Longrightarrow>
          ps_step y (y\<lparr>sq := q', pc := (pc y)(t := PS_idle)\<rparr>)"

definition ps_init :: "'t ps_sys" where
  "ps_init = \<lparr>sq = ps_queue_new, pc = (\<lambda>_. PS_idle)\<rparr>"

text \<open>States reached while the tickets in the ring never span 255 values or more.\<close>

inductive ps_reach :: "'t ps_sys \<Rightarrow> bool" where
  init: "ps_reach ps_init"
| step: "\<lbrakk>ps_reach y; span_ok (q_list (sq y)); ps_step y y'\<rbrakk> \<Longrightarrow> ps_reach y'"

fun pc_ticket :: "ps_pc \<Rightarrow> u8 option" where
  "pc_ticket (PS_wait i) = Some i"
| "pc_ticket (PS_hold i) = Some i"
| "pc_ticket _ = None"

text \<open>The invariant: the tickets of the threads inside are pairwise different and are exactly
  those in the ring; the ticket of a holder is at the head.\<close>

definition ps_inv :: "'t ps_sys \<Rightarrow> bool" where
  "ps_inv y \<longleftrightarrow>
     q_wf (sq y) \<and> tickets_ok (q_list (sq y)) \<and>
     (\<forall>i. i \<in> set (q_list (sq y)) \<longleftrightarrow> (\<exists>t. pc_ticket (pc y t) = Some i)) \<and>
     (\<forall>t t' i. pc_ticket (pc y t) = Some i \<longrightarrow> pc_ticket (pc y t') = Some i \<longrightarrow> t = t') \<and>
     (\<forall>t i. pc y t = PS_hold i \<longrightarrow> hd (q_list (sq y)) = i)"

lemma ps_inv_init: "ps_inv ps_init"
  by (simp add: ps_inv_def ps_init_def tickets_ok_def)

lemma ps_invI:
  assumes "q_wf (sq y)" and "tickets_ok (q_list (sq y))"
    and "\<And>t i. pc_ticket (pc y t) = Some i \<Longrightarrow> i \<in> set (q_list (sq y))"
    and "\<And>i. i \<in> set (q_list (sq y)) \<Longrightarrow> \<exists>t. pc_ticket (pc y t) = Some i"
    and "\<And>t t' i. pc_ticket (pc y t) = Some i \<Longrightarrow> pc_ticket (pc y t') = Some i \<Longrightarrow> t = t'"
    and "\<And>t i. pc y t = PS_hold i \<Longrightarrow> hd (q_list (sq y)) = i"
  shows "ps_inv y"
  using assms unfolding ps_inv_def by blast

lemma ps_invD:
  assumes "ps_inv y"
  shows "q_wf (sq y)" and "tickets_ok (q_list (sq y))"
    and "pc_ticket (pc y t) = Some i \<Longrightarrow> i \<in> set (q_list (sq y))"
    and "i \<in> set (q_list (sq y)) \<Longrightarrow> \<exists>t. pc_ticket (pc y t) = Some i"
    and "pc_ticket (pc y t) = Some i \<Longrightarrow> pc_ticket (pc y t') = Some i \<Longrightarrow> t = t'"
    and "pc y t = PS_hold i \<Longrightarrow> hd (q_list (sq y)) = i"
  using assms unfolding ps_inv_def by blast+

lemma ps_inv_remove:
  assumes "ps_inv y" and "pc_ticket (pc y t) = Some i" and "pc_ticket c = None"
  shows "ps_inv (y\<lparr>sq := nc_ps_queue_remove_id (sq y) i, pc := (pc y)(t := c)\<rparr>)"
proof -
  note inv = ps_invD [OF assms(1)]
  have uniq: "t' = t" if "pc_ticket (pc y t') = Some i" for t' using inv(5) that assms(2) by blast
  have set: "set (q_list (nc_ps_queue_remove_id (sq y) i)) = set (q_list (sq y)) - {i}"
    using psq.del_set [OF inv(1,2)] .
  have in': "j \<in> set (q_list (sq y)) \<and> j \<noteq> i" if "pc_ticket (pc y t') = Some j" "t' \<noteq> t" for t' j
    using inv(3) [OF that(1)] uniq [of t'] that by auto
  have hold: "hd (q_list (nc_ps_queue_remove_id (sq y) i)) = j" if "pc y t' = PS_hold j" "t' \<noteq> t" for t' j
    using psq.del_head_kept [OF inv(1), of i] inv(6) [OF that(1)] in' [of t' j] that
    by (cases "q_list (sq y)") auto
  show ?thesis
  proof (rule ps_invI)
    fix j
    assume "j \<in> set (q_list (sq (y\<lparr>sq := nc_ps_queue_remove_id (sq y) i, pc := (pc y)(t := c)\<rparr>)))"
    then have j: "j \<in> set (q_list (sq y))" "j \<noteq> i" using set by auto
    obtain t' where t': "pc_ticket (pc y t') = Some j" using inv(4) [OF j(1)] by blast
    then have "t' \<noteq> t" using j(2) assms(2) by auto
    then show "\<exists>t'. pc_ticket (pc (y\<lparr>sq := nc_ps_queue_remove_id (sq y) i, pc := (pc y)(t := c)\<rparr>) t') = Some j"
      using t' by auto
  qed (use assms(3) inv psq.del_wf psq.del_tickets set in' hold in \<open>auto split: if_splits\<close>)
qed

lemma ps_head_ids: "ps_inv y \<Longrightarrow> q_list (sq y) \<noteq> [] \<Longrightarrow> ps_head (sq y) = hd (q_list (sq y))"
  by (simp add: ps_inv_def ps_head_hd)

lemma ps_inv_pc:
  assumes "ps_inv y" and "pc_ticket c = pc_ticket (pc y t)" and "\<And>i. c = PS_hold i \<Longrightarrow> hd (q_list (sq y)) = i"
  shows "ps_inv (y\<lparr>pc := (pc y)(t := c)\<rparr>)"
proof -
  note inv = ps_invD [OF assms(1)]
  have eq: "pc_ticket (((pc y)(t := c)) t') = pc_ticket (pc y t')" for t' using assms(2) by simp
  show ?thesis
  proof (rule ps_invI)
    fix t' i
    assume "pc (y\<lparr>pc := (pc y)(t := c)\<rparr>) t' = PS_hold i"
    then show "hd (q_list (sq (y\<lparr>pc := (pc y)(t := c)\<rparr>))) = i"
      using inv(6) assms(3) by (cases "t' = t") auto
  qed (use inv in \<open>auto simp: eq simp del: fun_upd_apply\<close>)
qed

lemma ps_inv_enter:
  assumes "ps_inv y" and "pc_ticket (pc y t) = None" and "span_ok (q_list (sq y))"
    and "ps_lock_enter (sq y) = (c, q')"
  shows "ps_inv (y\<lparr>sq := q', pc := (pc y)(t := c)\<rparr>)"
proof (cases "queue_len (sq y) = NC_PS_QUEUE_SIZE")
  case True
  then have "c = PS_error" "y\<lparr>sq := q'\<rparr> = y" using assms(4) by (simp_all add: ps_lock_enter_def)
  then show ?thesis using ps_inv_pc [OF assms(1), of c t] assms(2) by simp
next
  case False
  let ?L = "q_list (sq y)"
  note inv = ps_invD [OF assms(1)]
  have len: "length ?L < NC_PS_QUEUE_SIZE" using False inv(1) by (simp add: q_wf_def)
  obtain i where add: "nc_ps_queue_add_id (sq y) 0 = (i, q')"
    and c: "c = (if ps_head q' \<noteq> i then PS_wait i else PS_hold i)"
    using assms(4) False by (auto simp: ps_lock_enter_def split: prod.splits)
  have i: "q_list q' = ?L @ [i]" "q_wf q'" "tickets_ok (q_list q')" "i \<notin> set ?L"
    using psq.add_fst [OF inv(1) len] psq.add_ids [OF inv(1) len] psq.add_wf [OF inv(1) len]
      psq.add_tickets [OF inv(1) len inv(2) assms(3)] add by simp_all
  have ph: "ps_head q' = hd (?L @ [i])" using ps_head_hd [OF i(2)] i(1) by simp
  have tick: "pc_ticket c = Some i" using c by simp
  have fresh: "pc_ticket (pc y t') \<noteq> Some i" for t' using inv(3) i(4) by blast
  have hold: "hd (?L @ [i]) = j" if "pc y t' = PS_hold j" for t' j
    using inv(3) [of t' j] inv(6) [OF that] that by (cases ?L) auto
  show ?thesis
  proof (rule ps_invI)
    fix j
    assume "j \<in> set (q_list (sq (y\<lparr>sq := q', pc := (pc y)(t := c)\<rparr>)))"
    then consider "j = i" | "j \<in> set ?L" using i(1) by auto
    then show "\<exists>t'. pc_ticket (pc (y\<lparr>sq := q', pc := (pc y)(t := c)\<rparr>) t') = Some j"
    proof cases
      case 1
      then show ?thesis using tick by (intro exI [of _ t]) simp
    next
      case 2
      then obtain t' where "pc_ticket (pc y t') = Some j" using inv(4) by blast
      then show ?thesis using assms(2) by (intro exI [of _ t']) auto
    qed
  next
    fix t' j
    assume "pc (y\<lparr>sq := q', pc := (pc y)(t := c)\<rparr>) t' = PS_hold j"
    then show "hd (q_list (sq (y\<lparr>sq := q', pc := (pc y)(t := c)\<rparr>))) = j"
      using c ph i(1) hold by (cases "t' = t") (auto split: if_splits)
  qed (use i tick fresh inv in \<open>auto split: if_splits\<close>)
qed

lemma ps_inv_wake:
  assumes "ps_inv y" and "pc y t = PS_wait i" and "ps_lock_wake i res (sq y) = (c, q')"
  shows "ps_inv (y\<lparr>sq := q', pc := (pc y)(t := c)\<rparr>)"
proof -
  have tick: "pc_ticket (pc y t) = Some i" using assms(2) by simp
  then have ne: "q_list (sq y) \<noteq> []" using ps_invD(3) [OF assms(1)] by fastforce
  consider (wait) "c = PS_wait i" "q' = sq y" | (hold) "c = PS_hold i" "q' = sq y" "ps_head (sq y) = i"
    | (err) "c = PS_error" "q' = nc_ps_queue_remove_id (sq y) i"
    using assms(3) by (auto simp: ps_lock_wake_def split: if_splits)
  then show ?thesis
  proof cases
    case wait
    then have "(pc y)(t := c) = pc y" "y\<lparr>sq := q', pc := pc y\<rparr> = y" using assms(2) by auto
    then show ?thesis using assms(1) by simp
  next
    case hold
    have "hd (q_list (sq y)) = i" using hold(3) ps_head_ids [OF assms(1) ne] by simp
    moreover have "y\<lparr>sq := q'\<rparr> = y" using hold(2) by simp
    ultimately show ?thesis using ps_inv_pc [OF assms(1), of c t] hold(1) tick by simp
  next
    case err
    then show ?thesis using ps_inv_remove [OF assms(1) tick, of PS_error] by simp
  qed
qed

lemma ps_inv_step:
  assumes "ps_inv y" and "span_ok (q_list (sq y))" and "ps_step y y'"
  shows "ps_inv y'"
  using assms(3)
proof cases
  case (enter t c q')
  then show ?thesis using ps_inv_enter [OF assms(1) _ assms(2)] by auto
next
  case (wake t i res c q')
  then show ?thesis using ps_inv_wake [OF assms(1)] by auto
next
  case (leave t i lk r q')
  have tick: "pc_ticket (pc y t) = Some i" using leave by simp
  then have ne: "q_list (sq y) \<noteq> []" using ps_invD(3) [OF assms(1)] by fastforce
  have "hd (q_list (sq y)) = i" using leave(2) assms(1) unfolding ps_inv_def by metis
  then have "q' = nc_ps_queue_remove_id (sq y) i"
    using leave(3) ps_head_ids [OF assms(1) ne] by (auto simp: nc_ps_unlock_def Let_def)
  then show ?thesis using leave(1) ps_inv_remove [OF assms(1) tick, of PS_idle] by simp
qed

lemma ps_reach_inv: "ps_reach y \<Longrightarrow> ps_inv y"
  by (induction rule: ps_reach.induct) (auto intro: ps_inv_init ps_inv_step)

section \<open>Properties of the pollsession lock\<close>

text \<open>C4: the ring buffer of tickets refines a list. On a well-formed ring, taking a ticket
  appends one to the line and returns it, removing one deletes its first occurrence wherever
  it stands, the head of the ring is the head of the line, and the ring stays well-formed.\<close>

theorem ps_ring_refines_list:
  assumes "q_wf q"
  shows "(queue_len q < NC_PS_QUEUE_SIZE \<longrightarrow>
           fst (nc_ps_queue_add_id q x) = next_id (q_list q) \<and>
           q_list (snd (nc_ps_queue_add_id q x)) = q_list q @ [next_id (q_list q)] \<and>
           q_wf (snd (nc_ps_queue_add_id q x))) \<and>
         q_list (nc_ps_queue_remove_id q i) = remove1 i (q_list q) \<and> q_wf (nc_ps_queue_remove_id q i) \<and>
         (q_list q \<noteq> [] \<longrightarrow> ps_head q = hd (q_list q))"
  using assms by (simp add: add_id_list remove_id_list ps_head_hd)

theorem ps_ring_refines_list_witness:
  "q_list (nc_ps_queue_remove_id \<lparr>queue = [7, 8, 0, 0, 5, 6], queue_begin = 4, queue_len = 4\<rparr> 6) = [5, 7, 8]"
proof -
  let ?q = "\<lparr>queue = [7, 8, 0, 0, 5, 6], queue_begin = 4, queue_len = 4\<rparr> :: ps_queue"
  have wf: "q_wf ?q" by (simp add: q_wf_def NC_PS_QUEUE_SIZE_def)
  have "q_list ?q = [5, 6, 7, 8]" by code_simp
  then show ?thesis using ps_ring_refines_list [OF wf, of 0 6] by simp
qed

text \<open>C3: mutual exclusion. In every state that threads calling \<^verbatim>\<open>nc_ps_lock\<close> and \<^verbatim>\<open>nc_ps_unlock\<close> in any
  order can reach while the tickets in the ring span less than 255 values, at most one thread
  holds the pollsession, whatever the waits return.\<close>

theorem ps_mutual_exclusion:
  assumes "ps_reach y" and "pc y t = PS_hold i" and "pc y t' = PS_hold j"
  shows "t = t' \<and> i = j"
proof -
  note inv = ps_invD [OF ps_reach_inv [OF assms(1)]]
  have "i = j" using inv(6) [OF assms(2)] inv(6) [OF assms(3)] by simp
  then show ?thesis using inv(5) [of t i t'] assms(2,3) by simp
qed

definition demo_held :: "nat ps_sys" where
  "demo_held = \<lparr>sq = snd (ps_lock_enter ps_queue_new), pc = (\<lambda>_. PS_idle)(0 := PS_hold 0)\<rparr>"

lemma demo_held_step: "ps_step ps_init demo_held"
proof -
  have "ps_lock_enter ps_queue_new = (PS_hold 0, snd (ps_lock_enter ps_queue_new))" by code_simp
  then show ?thesis
    using ps_step.enter [of "ps_init :: nat ps_sys" 0] by (simp add: ps_init_def demo_held_def)
qed

lemma demo_held_reach: "ps_reach demo_held"
  by (rule ps_reach.step [OF ps_reach.init _ demo_held_step]) (simp add: span_ok_def ps_init_def)

theorem ps_mutual_exclusion_witness: "pc demo_held 0 = PS_hold 0 \<and> (0::nat) = 0 \<and> (0::u8) = 0"
  using ps_mutual_exclusion [OF demo_held_reach, of 0 0 0 0] by (simp add: demo_held_def)



text \<open>
  Without the bound the tickets wrap around: while one thread keeps the lock, two others that
  take turns in giving up push the last ticket on until it is 255, and the next thread gets
  the ticket of the holder.
\<close>

definition wrap_state :: "u8 \<Rightarrow> nat ps_sys \<Rightarrow> bool" where
  "wrap_state k y \<longleftrightarrow>
     q_wf (sq y) \<and> q_list (sq y) = [0, k] \<and> pc y 0 = PS_hold 0 \<and>
     (\<exists>a b. {a, b} = {1, 2} \<and> pc y a = PS_wait k \<and> pc y b \<in> {PS_idle, PS_error})"

lemma wrap_stateI:
  assumes "q_wf (sq y)" and "q_list (sq y) = [0, k]" and "pc y 0 = PS_hold 0" and "{a, b} = {1, 2}"
    and "pc y a = PS_wait k" and "pc y b \<in> {PS_idle, PS_error}"
  shows "wrap_state k y"
  unfolding wrap_state_def using assms by blast

lemma wrap_enter:
  assumes "q_wf q" and "q_list q = [0, k]"
  shows "\<exists>q'. ps_lock_enter q = (if k + 1 = 0 then PS_hold 0 else PS_wait (k + 1), q') \<and> q_wf q' \<and> q_list q' = [0, k, k + 1]"
proof -
  have len: "length (q_list q) < NC_PS_QUEUE_SIZE" "queue_len q \<noteq> NC_PS_QUEUE_SIZE"
    using assms(2) length_q_list [of q] by (auto simp: NC_PS_QUEUE_SIZE_def)
  obtain i q' where add: "nc_ps_queue_add_id q 0 = (i, q')" by fastforce
  then have a: "i = k + 1" "q_list q' = [0, k, k + 1]" "q_wf q'"
    using add_id_list [OF assms(1) len(1), of 0] assms(2) by (simp_all add: next_id_def)
  then have "ps_head q' = 0" using ps_head_hd [of q'] by simp
  then show ?thesis using add a len(2) by (auto simp: ps_lock_enter_def)
qed

lemma wrap_step:
  assumes "wrap_state k y" and "k \<noteq> 0" and "k + 1 \<noteq> 0"
  shows "\<exists>y'. ps_step\<^sup>*\<^sup>* y y' \<and> wrap_state (k + 1) y'"
proof -
  obtain a b where ab: "{a, b} = {1, 2 :: nat}" "pc y a = PS_wait k" "pc y b \<in> {PS_idle, PS_error}"
    and w: "q_wf (sq y)" "q_list (sq y) = [0, k]" "pc y 0 = PS_hold 0"
    using assms(1) unfolding wrap_state_def by blast
  have ne: "a \<noteq> b" "a \<noteq> 0" "b \<noteq> 0" using ab(1) by (auto simp: doubleton_eq_iff)
  obtain q1 where q1: "ps_lock_enter (sq y) = (PS_wait (k + 1), q1)" "q_wf q1" "q_list q1 = [0, k, k + 1]"
    using wrap_enter [OF w(1,2)] assms(3) by auto
  let ?y1 = "y\<lparr>sq := q1, pc := (pc y)(b := PS_wait (k + 1))\<rparr>"
  have s1: "ps_step y ?y1" by (rule ps_step.enter [OF ab(3) q1(1)])
  let ?q2 = "nc_ps_queue_remove_id q1 k"
  have q2: "q_list ?q2 = [0, k + 1]" "q_wf ?q2"
    using remove_id_list [OF q1(2), of k] q1(3) assms(2) by simp_all
  have "ps_head q1 = 0" using ps_head_hd [OF q1(2)] q1(3) by simp
  then have "ps_lock_wake k Cond_timedout (sq ?y1) = (PS_error, ?q2)"
    using assms(2) by (simp add: ps_lock_wake_def)
  from ps_step.wake [OF _ this, of a] have s2: "ps_step ?y1 (?y1\<lparr>sq := ?q2, pc := (pc ?y1)(a := PS_error)\<rparr>)"
    using ab(2) ne by simp
  have "wrap_state (k + 1) (?y1\<lparr>sq := ?q2, pc := (pc ?y1)(a := PS_error)\<rparr>)"
    by (rule wrap_stateI [where a = b and b = a]) (use q2 w(3) ne ab(1) in auto)
  then show ?thesis using s1 s2 by (meson r_into_rtranclp rtranclp_trans)
qed

lemma wrap_start: "\<exists>y. ps_step\<^sup>*\<^sup>* ps_init y \<and> wrap_state 1 y"
proof -
  let ?q = "snd (ps_lock_enter (sq demo_held))"
  let ?y = "demo_held\<lparr>sq := ?q, pc := (pc demo_held)(1 := PS_wait 1)\<rparr>"
  have "ps_lock_enter (sq demo_held) = (PS_wait 1, ?q)" by code_simp
  then have "ps_step demo_held ?y"
    using ps_step.enter [of demo_held 1] by (simp add: demo_held_def)
  moreover have "q_list ?q = [0, 1]" "q_wf ?q" by code_simp+
  then have "wrap_state 1 ?y"
    by (intro wrap_stateI [where a = 1 and b = 2]) (auto simp: demo_held_def)
  ultimately show ?thesis using demo_held_step by (meson r_into_rtranclp rtranclp_trans)
qed

lemma u8_of_nat_nonzero: "0 < n \<Longrightarrow> n < 256 \<Longrightarrow> (of_nat n :: u8) \<noteq> 0"
  by (auto simp: word_of_nat_eq_0_iff dest: nat_dvd_not_less)

lemma wrap_reach:
  assumes "1 \<le> n" and "n \<le> 255"
  shows "\<exists>y. ps_step\<^sup>*\<^sup>* ps_init y \<and> wrap_state (of_nat n) y"
  using assms
proof (induction n rule: nat_induct_at_least)
  case base
  show ?case using wrap_start by simp
next
  case (Suc n)
  then obtain y where y: "ps_step\<^sup>*\<^sup>* ps_init y" "wrap_state (of_nat n) y" by auto
  have w: "(of_nat n :: u8) \<noteq> 0" "(of_nat n :: u8) + 1 \<noteq> 0"
    using u8_of_nat_nonzero [of n] u8_of_nat_nonzero [of "Suc n"] Suc by (auto simp: add.commute)
  from wrap_step [OF y(2) w] y(1) show ?case
    by (auto simp: add.commute intro: rtranclp_trans)
qed

text \<open>C33: mutual exclusion can be lost. There is a run of the lock, with one thread that keeps the
  pollsession while two others time out and come back, after which a fourth thread is given
  the ticket of the holder and two threads hold the pollsession.\<close>

theorem ps_ticket_wraparound:
  "\<exists>y :: nat ps_sys. ps_step\<^sup>*\<^sup>* ps_init y \<and> (\<exists>t t' i. t \<noteq> t' \<and> pc y t = PS_hold i \<and> pc y t' = PS_hold i)"
proof -
  obtain y :: "nat ps_sys" where y: "ps_step\<^sup>*\<^sup>* ps_init y" "wrap_state (of_nat 255) y" using wrap_reach [of 255] by auto
  then obtain a b where w: "q_wf (sq y)" "q_list (sq y) = [0, 255]" "pc y 0 = PS_hold 0"
    and b: "{a, b} = {1, 2}" "pc y b \<in> {PS_idle, PS_error}"
    unfolding wrap_state_def by auto
  have "b \<noteq> 0" using b(1) by (auto simp: doubleton_eq_iff)
  obtain q' where "ps_lock_enter (sq y) = (PS_hold 0, q')" using wrap_enter [OF w(1,2)] by auto
  from ps_step.enter [OF b(2) this] have "ps_step y (y\<lparr>sq := q', pc := (pc y)(b := PS_hold 0)\<rparr>)" .
  then have "ps_step\<^sup>*\<^sup>* ps_init (y\<lparr>sq := q', pc := (pc y)(b := PS_hold 0)\<rparr>)" using y(1) by simp
  then show ?thesis using w(3) \<open>b \<noteq> 0\<close>
    by (intro exI [of _ "y\<lparr>sq := q', pc := (pc y)(b := PS_hold 0)\<rparr>"]) auto
qed

end
