(* ===== verification/NC_PollSession.thy ===== *)
theory NC_PollSession
  imports NC_PollQueue
begin

text \<open>
  The pollsession structure of \<^verbatim>\<open>session_server.c\<close>: a table of sessions with a count kept next to
  it, the index of the session that had the last event, and the ticket lock. Sessions are
  referred to by address (\<open>sref\<close>). The operations refine a multiset of sessions.
\<close>

section \<open>The structure\<close>

type_synonym sref = nat

datatype nc_ps_session_state = NC_PS_STATE_NONE | NC_PS_STATE_BUSY | NC_PS_STATE_INVALID

record nc_ps_session =
  ps_sess :: sref
  ps_state :: nc_ps_session_state

text \<open>\<^verbatim>\<open>session_count\<close> and \<^verbatim>\<open>last_event_session\<close> are \<^verbatim>\<open>uint16_t\<close>; \<open>sessions\<close> are the entries that exist
  (none when the array is the null pointer).\<close>

record nc_pollsession =
  sessions :: "nc_ps_session list"
  session_count :: u16
  last_event_session :: u16
  ps_q :: ps_queue

definition nc_ps_new :: "bool \<Rightarrow> nc_pollsession option" where
  "nc_ps_new alloc =
     (if \<not> alloc then None
      else Some \<lparr>sessions = [], session_count = 0, last_event_session = 0, ps_q = ps_queue_new\<rparr>)"

text \<open>
  \<^verbatim>\<open>nc_ps_lock\<close> as the calling thread sees it: the result of locking the mutex, then its wake-ups,
  each with the pollsession other threads have left behind. The ticket is returned on success.
\<close>

fun ps_lock_wait :: "u8 \<Rightarrow> (cond_res \<times> nc_pollsession) list \<Rightarrow> (u8 option \<times> nc_pollsession) option" where
  "ps_lock_wait i [] = None"
| "ps_lock_wait i ((res, ps) # ws) =
     (case ps_lock_wake i res (ps_q ps) of
        (PS_hold j, q) \<Rightarrow> Some (Some j, ps\<lparr>ps_q := q\<rparr>)
      | (PS_wait j, q) \<Rightarrow> ps_lock_wait i ws
      | (_, q) \<Rightarrow> Some (None, ps\<lparr>ps_q := q\<rparr>))"

definition nc_ps_lock ::
  "nc_pollsession \<Rightarrow> lock_res \<Rightarrow> (cond_res \<times> nc_pollsession) list \<Rightarrow> (u8 option \<times> nc_pollsession) option"
where
  "nc_ps_lock ps lk ws =
     (if lk \<noteq> LK_OK then Some (None, ps)
      else case ps_lock_enter (ps_q ps) of
        (PS_hold i, q) \<Rightarrow> Some (Some i, ps\<lparr>ps_q := q\<rparr>)
      | (PS_wait i, q) \<Rightarrow> ps_lock_wait i ws
      | (_, q) \<Rightarrow> Some (None, ps\<lparr>ps_q := q\<rparr>))"

definition ps_unlock :: "nc_pollsession \<Rightarrow> u8 \<Rightarrow> lock_res \<Rightarrow> int \<times> nc_pollsession" where
  "ps_unlock ps i lk = (case nc_ps_unlock (ps_q ps) i lk of (r, q) \<Rightarrow> (r, ps\<lparr>ps_q := q\<rparr>))"

text \<open>What the environment decides about one locked call.\<close>

record ps_env =
  pe_lock :: lock_res
  pe_waits :: "(cond_res \<times> nc_pollsession) list"
  pe_unlock :: lock_res

text \<open>The shape of every call on a pollsession: lock, work, unlock. \<open>fail\<close> is what is returned when
  the lock is not obtained; \<open>fin\<close> combines the result of the work with that of the unlock.\<close>

definition ps_locked ::
  "nc_pollsession \<Rightarrow> ps_env \<Rightarrow> 'r \<Rightarrow> (nc_pollsession \<Rightarrow> 'a \<times> nc_pollsession) \<Rightarrow> ('a \<Rightarrow> int \<Rightarrow> 'r) \<Rightarrow>
   ('r \<times> nc_pollsession) option"
where
  "ps_locked ps e fail work fin =
     (case nc_ps_lock ps (pe_lock e) (pe_waits e) of None \<Rightarrow> None
      | Some (None, ps1) \<Rightarrow> Some (fail, ps1)
      | Some (Some i, ps1) \<Rightarrow>
          (case work ps1 of (a, ps2) \<Rightarrow>
            (case ps_unlock ps2 i (pe_unlock e) of (r, ps3) \<Rightarrow> Some (fin a r, ps3))))"

section \<open>The operations\<close>

text \<open>Adding under the lock; \<open>al1\<close> and \<open>al2\<close> are the outcomes of \<^verbatim>\<open>nc_realloc\<close> and \<^verbatim>\<open>calloc\<close>. The first
  failure leaves the count increased and the array freed.\<close>

definition ps_add :: "sref \<Rightarrow> bool \<Rightarrow> bool \<Rightarrow> nc_pollsession \<Rightarrow> int \<times> nc_pollsession" where
  "ps_add ses al1 al2 ps =
     (let ps1 = ps\<lparr>session_count := session_count ps + 1\<rparr> in
      if \<not> al1 then (-1, ps1\<lparr>sessions := []\<rparr>)
      else if \<not> al2 then (-1, ps1\<lparr>session_count := session_count ps1 - 1\<rparr>)
      else (0, ps1\<lparr>sessions := sessions ps @ [\<lparr>ps_sess = ses, ps_state = NC_PS_STATE_NONE\<rparr>]\<rparr>))"

definition nc_ps_add_session ::
  "nc_pollsession option \<Rightarrow> sref option \<Rightarrow> bool \<Rightarrow> bool \<Rightarrow> ps_env \<Rightarrow> (int \<times> nc_pollsession option) option"
where
  "nc_ps_add_session pso so al1 al2 e =
     (case (pso, so) of
        (Some ps, Some ses) \<Rightarrow>
          map_option (map_prod (\<lambda>r. r) Some)
            (ps_locked ps e (-1) (ps_add ses al1 al2) (\<lambda>a r. if a = -1 then -1 else r))
      | _ \<Rightarrow> Some (-1, pso))"

text \<open>\<^verbatim>\<open>_nc_ps_del_session\<close>: by index, or the first entry of a session when the index is negative.\<close>

definition ps_remove_at :: "nat \<Rightarrow> nc_pollsession \<Rightarrow> nc_pollsession" where
  "ps_remove_at i ps =
     (let n = session_count ps - 1 in
      ps\<lparr>session_count := n, last_event_session := 0,
         sessions := (if i \<le> unat n then swap_remove i (sessions ps) else sessions ps)\<rparr>)"

definition nc_ps_del_session_int :: "sref \<Rightarrow> int \<Rightarrow> nc_pollsession \<Rightarrow> int \<times> nc_pollsession" where
  "nc_ps_del_session_int ses index ps =
     (if 0 \<le> index then (0, ps_remove_at (nat index mod 2 ^ 16) ps)
      else case find_idx (\<lambda>e. ps_sess e = ses) (take (unat (session_count ps)) (sessions ps)) of
             None \<Rightarrow> (-1, ps)
           | Some i \<Rightarrow> (0, ps_remove_at i ps))"

definition nc_ps_del_session ::
  "nc_pollsession option \<Rightarrow> sref option \<Rightarrow> ps_env \<Rightarrow> (int \<times> nc_pollsession option) option"
where
  "nc_ps_del_session pso so e =
     (case (pso, so) of
        (Some ps, Some ses) \<Rightarrow>
          map_option (map_prod (\<lambda>r. r) Some)
            (ps_locked ps e (-1) (nc_ps_del_session_int ses (-1)) (\<lambda>a r. if a \<noteq> 0 \<or> r \<noteq> 0 then -1 else 0))
      | _ \<Rightarrow> Some (-1, pso))"

definition nc_ps_get_session :: "nc_pollsession \<Rightarrow> u16 \<Rightarrow> ps_env \<Rightarrow> (sref option \<times> nc_pollsession) option" where
  "nc_ps_get_session ps idx e =
     ps_locked ps e None
       (\<lambda>p. (if idx < session_count p then Some (ps_sess (sessions p ! unat idx)) else None, p)) (\<lambda>a _. a)"

definition nc_ps_find_session ::
  "nc_pollsession \<Rightarrow> (sref \<Rightarrow> bool) \<Rightarrow> ps_env \<Rightarrow> (sref option \<times> nc_pollsession) option"
where
  "nc_ps_find_session ps match e =
     ps_locked ps e None
       (\<lambda>p. (map_option (\<lambda>i. ps_sess (sessions p ! i))
              (find_idx (\<lambda>x. match (ps_sess x)) (take (unat (session_count p)) (sessions p))), p)) (\<lambda>a _. a)"

definition nc_ps_session_count :: "nc_pollsession option \<Rightarrow> ps_env \<Rightarrow> (u16 \<times> nc_pollsession option) option" where
  "nc_ps_session_count pso e =
     (case pso of None \<Rightarrow> Some (0, None)
      | Some ps \<Rightarrow> map_option (map_prod (\<lambda>r. r) Some) (ps_locked ps e 0 (\<lambda>p. (session_count p, p)) (\<lambda>a _. a)))"

text \<open>\<^verbatim>\<open>nc_ps_clear\<close>: the sessions passed to \<^verbatim>\<open>nc_session_free\<close>, in order, and the structure. \<open>running\<close>
  tells whether the status of a session is running.\<close>

function ps_clear_loop :: "(sref \<Rightarrow> bool) \<Rightarrow> nat \<Rightarrow> nc_pollsession \<Rightarrow> sref list \<times> nc_pollsession" where
  "ps_clear_loop running i ps =
     (if unat (session_count ps) \<le> i then ([], ps)
      else let ses = ps_sess (sessions ps ! i) in
        if \<not> running ses then
          (case nc_ps_del_session_int 0 (int i) ps of (_, ps1) \<Rightarrow>
             case ps_clear_loop running i ps1 of (fr, ps2) \<Rightarrow> (ses # fr, ps2))
        else ps_clear_loop running (i + 1) ps)"
  by pat_completeness auto

termination
proof (relation "measure (\<lambda>(running, i, ps). unat (session_count ps) - i)", goal_cases)
  case (2 running i ps ses r ps1)
  have "session_count ps1 = session_count ps - 1"
    using 2 by (auto simp: nc_ps_del_session_int_def ps_remove_at_def Let_def)
  moreover have "session_count ps \<noteq> 0" using 2 by auto
  then have "unat (session_count ps - 1) = unat (session_count ps) - 1" by (simp add: unat_minus_one)
  ultimately show ?case using 2 by auto
qed auto

declare ps_clear_loop.simps [simp del]

definition nc_ps_clear ::
  "nc_pollsession \<Rightarrow> bool \<Rightarrow> (sref \<Rightarrow> bool) \<Rightarrow> ps_env \<Rightarrow> (sref list \<times> nc_pollsession) option"
where
  "nc_ps_clear ps everything running e =
     ps_locked ps e []
       (\<lambda>p. if everything
            then (map ps_sess (take (unat (session_count p)) (sessions p)),
                  p\<lparr>sessions := [], session_count := 0, last_event_session := 0\<rparr>)
            else ps_clear_loop running 0 p)
       (\<lambda>a _. a)"

definition nc_ps_free :: "nc_pollsession \<Rightarrow> nc_ps_session list" where
  "nc_ps_free ps = take (unat (session_count ps)) (sessions ps)"

section \<open>The table as a multiset\<close>

definition ps_ok :: "nc_pollsession \<Rightarrow> bool" where
  "ps_ok ps \<longleftrightarrow> length (sessions ps) = unat (session_count ps) \<and>
     (last_event_session ps = 0 \<or> last_event_session ps < session_count ps) \<and> q_wf (ps_q ps)"

definition ps_bag :: "nc_pollsession \<Rightarrow> sref multiset" where
  "ps_bag ps = mset (map ps_sess (sessions ps))"

definition ps_free_lock :: "nc_pollsession \<Rightarrow> bool" where
  "ps_free_lock ps \<longleftrightarrow> q_list (ps_q ps) = []"

text \<open>A call on a pollsession nobody else uses gets the lock at once and gives it back.\<close>

lemma ps_locked_free:
  assumes "q_wf (ps_q ps)" and "ps_free_lock ps" and "pe_lock e = LK_OK" and "pe_unlock e = LK_OK"
    and "\<And>q. work (ps\<lparr>ps_q := q\<rparr>) = (a, ps2\<lparr>ps_q := q\<rparr>)"
  shows "\<exists>q'. ps_locked ps e fail work fin = Some (fin a 0, ps2\<lparr>ps_q := q'\<rparr>) \<and> q_wf q' \<and> q_list q' = []"
proof -
  have len: "length (q_list (ps_q ps)) < NC_PS_QUEUE_SIZE" "queue_len (ps_q ps) = 0"
    using assms(2) length_q_list [of "ps_q ps"] by (auto simp: ps_free_lock_def NC_PS_QUEUE_SIZE_def)
  obtain i q1 where add: "nc_ps_queue_add_id (ps_q ps) 0 = (i, q1)" by fastforce
  have q1: "i = 0" "q_list q1 = [0]" "q_wf q1"
    using add_id_list [OF assms(1) len(1), of 0] add assms(2) by (simp_all add: ps_free_lock_def next_id_def)
  then have h: "ps_head q1 = 0" using ps_head_hd [of q1] by simp
  have "nc_ps_lock ps (pe_lock e) (pe_waits e) = Some (Some 0, ps\<lparr>ps_q := q1\<rparr>)"
    using add q1(1) h len(2) assms(3) by (simp add: nc_ps_lock_def ps_lock_enter_def NC_PS_QUEUE_SIZE_def)
  moreover have "ps_unlock (ps2\<lparr>ps_q := q1\<rparr>) 0 (pe_unlock e) = (0, ps2\<lparr>ps_q := nc_ps_queue_remove_id q1 0\<rparr>)"
    using h assms(4) by (simp add: ps_unlock_def nc_ps_unlock_def)
  moreover have "q_list (nc_ps_queue_remove_id q1 0) = []" "q_wf (nc_ps_queue_remove_id q1 0)"
    using remove_id_list [OF q1(3), of 0] q1(2) by simp_all
  ultimately show ?thesis using assms(5) by (auto simp: ps_locked_def)
qed

lemma u16_unat_plus1: "unat (n :: u16) < 65535 \<Longrightarrow> unat (n + 1) = unat n + 1"
  by (simp add: unat_word_ariths)

lemma u16_unat_minus1: "(n :: u16) \<noteq> 0 \<Longrightarrow> unat (n - 1) = unat n - 1"
  by (simp add: unat_minus_one)

lemma ps_remove_at_ok:
  assumes "length (sessions ps) = unat (session_count ps)" and "i < length (sessions ps)"
  shows "sessions (ps_remove_at i ps) = swap_remove i (sessions ps)"
    and "length (sessions (ps_remove_at i ps)) = unat (session_count (ps_remove_at i ps))"
    and "ps_bag (ps_remove_at i ps) = ps_bag ps - {#ps_sess (sessions ps ! i)#}"
    and "unat (session_count (ps_remove_at i ps)) = unat (session_count ps) - 1"
    and "last_event_session (ps_remove_at i ps) = 0"
proof -
  have nz: "session_count ps \<noteq> 0" using assms by auto
  note m = u16_unat_minus1 [OF nz]
  have "i \<le> unat (session_count ps - 1)" using assms m by linarith
  then show s: "sessions (ps_remove_at i ps) = swap_remove i (sessions ps)"
    by (simp add: ps_remove_at_def Let_def)
  show "length (sessions (ps_remove_at i ps)) = unat (session_count (ps_remove_at i ps))"
    "unat (session_count (ps_remove_at i ps)) = unat (session_count ps) - 1"
    "last_event_session (ps_remove_at i ps) = 0"
    using assms m s by (simp_all add: ps_remove_at_def Let_def)
  show "ps_bag (ps_remove_at i ps) = ps_bag ps - {#ps_sess (sessions ps ! i)#}"
    unfolding ps_bag_def s using assms(2)
    by (simp add: swap_remove_map swap_remove_perm)
qed

lemma nc_ps_del_session_int_spec:
  assumes "length (sessions ps) = unat (session_count ps)"
  shows "fst (nc_ps_del_session_int ses (-1) ps) = (if ses \<in># ps_bag ps then 0 else -1)"
    and "ps_bag (snd (nc_ps_del_session_int ses (-1) ps)) = ps_bag ps - {#ses#}"
    and "length (sessions (snd (nc_ps_del_session_int ses (-1) ps)))
           = unat (session_count (snd (nc_ps_del_session_int ses (-1) ps)))"
    and "last_event_session (snd (nc_ps_del_session_int ses (-1) ps))
           = (if ses \<in># ps_bag ps then 0 else last_event_session ps)"
    and "ses \<notin># ps_bag ps \<Longrightarrow> snd (nc_ps_del_session_int ses (-1) ps) = ps"
proof -
  let ?f = "find_idx (\<lambda>e. ps_sess e = ses) (sessions ps)"
  have eq: "nc_ps_del_session_int ses (-1) ps = (case ?f of None \<Rightarrow> (-1, ps) | Some i \<Rightarrow> (0, ps_remove_at i ps))"
    using assms by (simp add: nc_ps_del_session_int_def)
  have bag: "ses \<in># ps_bag ps \<longleftrightarrow> (\<exists>e \<in> set (sessions ps). ps_sess e = ses)" by (auto simp: ps_bag_def)
  note all = eq bag assms
  show "fst (nc_ps_del_session_int ses (-1) ps) = (if ses \<in># ps_bag ps then 0 else -1)"
    "ps_bag (snd (nc_ps_del_session_int ses (-1) ps)) = ps_bag ps - {#ses#}"
    "length (sessions (snd (nc_ps_del_session_int ses (-1) ps)))
           = unat (session_count (snd (nc_ps_del_session_int ses (-1) ps)))"
    "last_event_session (snd (nc_ps_del_session_int ses (-1) ps))
           = (if ses \<in># ps_bag ps then 0 else last_event_session ps)"
    "ses \<notin># ps_bag ps \<Longrightarrow> snd (nc_ps_del_session_int ses (-1) ps) = ps"
    using all find_idx_None [of "\<lambda>e. ps_sess e = ses" "sessions ps"]
      find_idx_Some_bound [of "\<lambda>e. ps_sess e = ses" "sessions ps"]
    by (cases ?f; force simp: ps_remove_at_ok diff_single_trivial)+
qed

lemma take_swap_remove: "i < length xs \<Longrightarrow> take i (swap_remove i xs) = take i xs"
  by (auto simp: swap_remove_def Let_def)

lemma ps_clear_loop_spec:
  assumes "length (sessions ps) = unat (session_count ps)" and "i \<le> length (sessions ps)"
    and "\<forall>x \<in> set (take i (sessions ps)). running (ps_sess x)" and "ps_clear_loop running i ps = (fr, ps')"
  shows "length (sessions ps') = unat (session_count ps') \<and> ps_bag ps = ps_bag ps' + mset fr \<and>
         (\<forall>x \<in> set (sessions ps'). running (ps_sess x)) \<and> (\<forall>x \<in> set fr. \<not> running x) \<and>
         ps_q ps' = ps_q ps \<and> (last_event_session ps' = 0 \<or> ps' = ps)"
  using assms
proof (induction running i ps arbitrary: fr ps' rule: ps_clear_loop.induct)
  case (1 running i ps)
  note eq = ps_clear_loop.simps [of running i ps]
  show ?case
  proof (cases "unat (session_count ps) \<le> i")
    case True
    then have "fr = []" "ps' = ps" using "1.prems"(4) by (simp_all add: eq)
    then show ?thesis using "1.prems"(1-3) True by simp
  next
    case False
    let ?s = "ps_sess (sessions ps ! i)"
    have i: "i < length (sessions ps)" using False "1.prems"(1) by simp
    show ?thesis
    proof (cases "running ?s")
      case True
      have "\<forall>x \<in> set (take (i + 1) (sessions ps)). running (ps_sess x)"
        using i True "1.prems"(3) by (auto simp: take_Suc_conv_app_nth)
      moreover have "ps_clear_loop running (i + 1) ps = (fr, ps')"
        using "1.prems"(4) True False by (simp add: eq Let_def)
      moreover have "i + 1 \<le> length (sessions ps)" "\<not> \<not> running ?s" using i True by simp_all
      ultimately show ?thesis using "1.IH"(2) [OF False refl _ "1.prems"(1)] by blast
    next
      case nr: False
      have "i < 2 ^ 16" using i "1.prems"(1) unsigned_less [of "session_count ps", where 'a = nat] by simp
      then have d: "nc_ps_del_session_int 0 (int i) ps = (0, ps_remove_at i ps)"
        by (simp add: nc_ps_del_session_int_def)
      note ra = ps_remove_at_ok [OF "1.prems"(1) i]
      obtain fr1 where fr: "ps_clear_loop running i (ps_remove_at i ps) = (fr1, ps')" "fr = ?s # fr1"
        using "1.prems"(4) False nr d by (auto simp: eq Let_def split: prod.splits)
      have "i \<le> length (sessions (ps_remove_at i ps))" using ra(1) i by simp
      moreover have "\<forall>x \<in> set (take i (sessions (ps_remove_at i ps))). running (ps_sess x)"
        using ra(1) i "1.prems"(3) by (simp add: take_swap_remove)
      ultimately have rec: "length (sessions ps') = unat (session_count ps') \<and>
         ps_bag (ps_remove_at i ps) = ps_bag ps' + mset fr1 \<and>
         (\<forall>x \<in> set (sessions ps'). running (ps_sess x)) \<and> (\<forall>x \<in> set fr1. \<not> running x) \<and>
         ps_q ps' = ps_q (ps_remove_at i ps) \<and> (last_event_session ps' = 0 \<or> ps' = ps_remove_at i ps)"
        using "1.IH"(1) [OF False refl nr d [symmetric]] ra(2) fr(1) by blast
      have "?s \<in># ps_bag ps" using i by (simp add: ps_bag_def)
      then have "ps_bag ps = ps_bag (ps_remove_at i ps) + {#?s#}" using ra(3) by simp
      moreover have "ps_q (ps_remove_at i ps) = ps_q ps" by (simp add: ps_remove_at_def Let_def)
      ultimately show ?thesis using rec fr(2) nr ra(5) by auto
    qed
  qed
qed

text \<open>The work under the lock does not look at the queue.\<close>

lemma nc_ps_del_session_int_frame:
  assumes "nc_ps_del_session_int ses k ps = (r, d)"
  shows "nc_ps_del_session_int ses k (ps\<lparr>ps_q := q\<rparr>) = (r, d\<lparr>ps_q := q\<rparr>)"
proof -
  have "ps_remove_at i (ps\<lparr>ps_q := q\<rparr>) = (ps_remove_at i ps)\<lparr>ps_q := q\<rparr>" for i
    by (simp add: ps_remove_at_def Let_def)
  then have "nc_ps_del_session_int ses k (ps\<lparr>ps_q := q\<rparr>)
      = map_prod (\<lambda>r. r) (\<lambda>p. p\<lparr>ps_q := q\<rparr>) (nc_ps_del_session_int ses k ps)"
    by (simp add: nc_ps_del_session_int_def split: option.split)
  then show ?thesis by (simp add: assms)
qed

lemma ps_clear_loop_frame:
  "ps_clear_loop running i ps = (fr, p) \<Longrightarrow> ps_clear_loop running i (ps\<lparr>ps_q := q\<rparr>) = (fr, p\<lparr>ps_q := q\<rparr>)"
proof (induction running i ps arbitrary: fr p rule: ps_clear_loop.induct)
  case (1 running i ps)
  note eq = ps_clear_loop.simps [of running i ps] ps_clear_loop.simps [of running i "ps\<lparr>ps_q := q\<rparr>"]
  consider (stop) "unat (session_count ps) \<le> i"
    | (keep) "\<not> unat (session_count ps) \<le> i" "running (ps_sess (sessions ps ! i))"
    | (rm) "\<not> unat (session_count ps) \<le> i" "\<not> running (ps_sess (sessions ps ! i))" by blast
  then show ?case
  proof cases
    case stop
    then have "fr = []" "p = ps" using "1.prems" by (simp_all add: eq)
    then show ?thesis using stop by (simp add: eq)
  next
    case keep
    then show ?thesis using "1.prems" "1.IH"(2) [OF keep(1) refl] by (simp add: eq Let_def)
  next
    case rm
    obtain r d where d: "nc_ps_del_session_int 0 (int i) ps = (r, d)" by fastforce
    obtain fr1 p1 where "ps_clear_loop running i d = (fr1, p1)" by fastforce
    then show ?thesis using "1.prems" "1.IH"(1) [OF rm(1) refl rm(2) d [symmetric]] d rm
      by (simp add: eq Let_def nc_ps_del_session_int_frame [OF d])
  qed
qed

lemma filter_mset_split:
  assumes "\<forall>x \<in># A. P x" and "\<forall>x \<in># B. \<not> P x"
  shows "filter_mset P (A + B) = A" and "filter_mset (\<lambda>x. \<not> P x) (A + B) = B"
proof -
  have "filter_mset P A = A" "filter_mset P B = {#}" "filter_mset (\<lambda>x. \<not> P x) B = B" "filter_mset (\<lambda>x. \<not> P x) A = {#}"
    using assms by (auto simp: filter_mset_eq_conv filter_mset_eq_mempty_iff)
  then show "filter_mset P (A + B) = A" "filter_mset (\<lambda>x. \<not> P x) (A + B) = B" by simp_all
qed

section \<open>Properties of the pollsession\<close>

text \<open>C26: the session table of a pollsession is a multiset of sessions. On a pollsession in a
  consistent state that no other thread uses, adding succeeds and adds one occurrence (below
  the limit of the 16-bit count), deleting succeeds exactly when the session is there and
  removes one occurrence, and both leave a consistent state with the lock free.\<close>

theorem ps_add_del_refine_bag:
  assumes "ps_ok ps" and "ps_free_lock ps" and "pe_lock e = LK_OK" and "pe_unlock e = LK_OK"
    and "unat (session_count ps) < 65535"
  shows "(\<exists>ps'. nc_ps_add_session (Some ps) (Some ses) True True e = Some (0, Some ps') \<and>
            ps_ok ps' \<and> ps_free_lock ps' \<and> ps_bag ps' = ps_bag ps + {#ses#}) \<and>
         (\<exists>ps'. nc_ps_del_session (Some ps) (Some ses) e = Some (if ses \<in># ps_bag ps then 0 else -1, Some ps') \<and>
            ps_ok ps' \<and> ps_free_lock ps' \<and> ps_bag ps' = ps_bag ps - {#ses#})"
proof (intro conjI)
  have wf: "q_wf (ps_q ps)" and len: "length (sessions ps) = unat (session_count ps)" using assms(1) by (simp_all add: ps_ok_def)
  note free = ps_locked_free [OF wf assms(2-4)]
  let ?p = "snd (ps_add ses True True ps)"
  have w: "ps_add ses True True (ps\<lparr>ps_q := q\<rparr>) = (0, ?p\<lparr>ps_q := q\<rparr>)" for q by (simp add: ps_add_def Let_def)
  obtain q' where a: "nc_ps_add_session (Some ps) (Some ses) True True e = Some (0, Some (?p\<lparr>ps_q := q'\<rparr>))"
    "q_wf q'" "q_list q' = []"
    using free [OF w, of "-1" "\<lambda>a r. if a = -1 then -1 else r"] by (auto simp: nc_ps_add_session_def)
  have "session_count ps < session_count ps + 1" "unat (session_count ps + 1) = unat (session_count ps) + 1"
    using u16_unat_plus1 [OF assms(5)] by (simp_all add: word_less_nat_alt)
  moreover have "last_event_session ps = 0 \<or> last_event_session ps < session_count ps"
    using assms(1) by (simp add: ps_ok_def)
  ultimately have "ps_ok (?p\<lparr>ps_q := q'\<rparr>)"
    using len a(2) by (simp add: ps_ok_def ps_add_def Let_def) (metis order.strict_trans)
  moreover have "ps_free_lock (?p\<lparr>ps_q := q'\<rparr>)" "ps_bag (?p\<lparr>ps_q := q'\<rparr>) = ps_bag ps + {#ses#}"
    using a(3) by (simp_all add: ps_free_lock_def ps_bag_def ps_add_def Let_def)
  ultimately show "\<exists>ps'. nc_ps_add_session (Some ps) (Some ses) True True e = Some (0, Some ps') \<and>
            ps_ok ps' \<and> ps_free_lock ps' \<and> ps_bag ps' = ps_bag ps + {#ses#}"
    using a(1) by blast
  note sp = nc_ps_del_session_int_spec [OF len, of ses]
  obtain r d where rd: "nc_ps_del_session_int ses (-1) ps = (r, d)" by fastforce
  obtain q2 where b: "nc_ps_del_session (Some ps) (Some ses) e = Some (if r \<noteq> 0 then -1 else 0, Some (d\<lparr>ps_q := q2\<rparr>))"
    "q_wf q2" "q_list q2 = []"
    using free [OF nc_ps_del_session_int_frame [OF rd], of "-1" "\<lambda>a r. if a \<noteq> 0 \<or> r \<noteq> 0 then -1 else 0"]
    by (auto simp: nc_ps_del_session_def)
  have "ps_ok (d\<lparr>ps_q := q2\<rparr>)"
    using sp(3,4,5) rd b(2) assms(1) by (cases "ses \<in># ps_bag ps") (simp_all add: ps_ok_def)
  then show "\<exists>ps'. nc_ps_del_session (Some ps) (Some ses) e = Some (if ses \<in># ps_bag ps then 0 else -1, Some ps') \<and>
            ps_ok ps' \<and> ps_free_lock ps' \<and> ps_bag ps' = ps_bag ps - {#ses#}"
    using b sp(1,2) rd by (intro exI [of _ "d\<lparr>ps_q := q2\<rparr>"]) (simp add: ps_free_lock_def ps_bag_def)
qed

definition demo_ps :: nc_pollsession where
  "demo_ps = \<lparr>sessions = map (\<lambda>i. \<lparr>ps_sess = i, ps_state = NC_PS_STATE_NONE\<rparr>) [10, 11, 12],
     session_count = 3, last_event_session = 1, ps_q = ps_queue_new\<rparr>"

definition demo_env :: ps_env where
  "demo_env = \<lparr>pe_lock = LK_OK, pe_waits = [], pe_unlock = LK_OK\<rparr>"

lemma demo_ps_ok: "ps_ok demo_ps" "ps_free_lock demo_ps" "pe_lock demo_env = LK_OK" "pe_unlock demo_env = LK_OK"
  "unat (session_count demo_ps) < 65535"
  by (simp_all add: ps_ok_def ps_free_lock_def demo_ps_def demo_env_def)

theorem ps_add_del_refine_bag_witness:
  "\<exists>ps'. nc_ps_del_session (Some demo_ps) (Some 10) demo_env = Some (0, Some ps') \<and> ps_bag ps' = {#11, 12#}"
  using ps_add_del_refine_bag [OF demo_ps_ok, of 10] by (auto simp: ps_bag_def demo_ps_def)



text \<open>C35: when growing the session table fails, \<^verbatim>\<open>nc_ps_add_session\<close> returns -1 with the table freed and the
  count still increased: the pollsession is no longer consistent, and the next
  \<^verbatim>\<open>nc_ps_get_session\<close> of index 0 reads a table that is not there.\<close>

theorem ps_add_realloc_failure_inconsistent:
  assumes "ps_ok ps" and "ps_free_lock ps" and "pe_lock e = LK_OK" and "pe_unlock e = LK_OK"
    and "unat (session_count ps) < 65535"
  shows "\<exists>ps'. nc_ps_add_session (Some ps) (Some ses) False al2 e = Some (-1, Some ps') \<and>
           sessions ps' = [] \<and> unat (session_count ps') = unat (session_count ps) + 1 \<and> \<not> ps_ok ps'"
proof -
  have wf: "q_wf (ps_q ps)" using assms(1) by (simp add: ps_ok_def)
  let ?p = "snd (ps_add ses False al2 ps)"
  have w: "ps_add ses False al2 (ps\<lparr>ps_q := q\<rparr>) = (-1, ?p\<lparr>ps_q := q\<rparr>)" for q by (simp add: ps_add_def Let_def)
  obtain q' where "nc_ps_add_session (Some ps) (Some ses) False al2 e = Some (-1, Some (?p\<lparr>ps_q := q'\<rparr>))"
    using ps_locked_free [OF wf assms(2-4) w, of "-1" "\<lambda>a r. if a = -1 then -1 else r"]
    by (auto simp: nc_ps_add_session_def)
  then show ?thesis using u16_unat_plus1 [OF assms(5)] by (simp add: ps_add_def Let_def ps_ok_def)
qed

theorem ps_add_realloc_failure_inconsistent_witness:
  "\<exists>ps'. nc_ps_add_session (Some demo_ps) (Some 5) False True demo_env = Some (-1, Some ps') \<and> \<not> ps_ok ps'"
  using ps_add_realloc_failure_inconsistent [OF demo_ps_ok, of 5 True] by blast

end
