(* ===== verification/NC_Wire.thy ===== *)
theory NC_Wire
  imports NC_Session
begin

text \<open>
  The world a session's IO code talks to: the transport (\<^verbatim>\<open>read\<close>/\<^verbatim>\<open>write\<close> on descriptors,
  \<^verbatim>\<open>ssh_channel_*\<close> of libssh, \<^verbatim>\<open>SSL_*\<close> of OpenSSL), the clock, the IO mutex and the allocator.
  Every call to one of them takes its outcome from a schedule of raw results, in the order
  the calls are made; a function whose schedule runs out has not returned yet, which is the
  value \<open>None\<close>. The bytes are kept apart from the schedule: \<open>rx\<close> is what the peer sent and
  nobody read yet, \<open>tx\<close> what was handed to the transport. \<open>ly_in_ok\<close> is the outcome of libyang's
  \<^verbatim>\<open>ly_in_new_memory\<close>, which wraps a received message. \<open>oob\<close> records a write past the end
  of an allocated buffer.
\<close>

section \<open>Raw results of the transport calls\<close>

datatype errno = EAGAIN | EINTR | EOTHER

datatype ssl_err = SSL_ERROR_WANT_READ | SSL_ERROR_WANT_WRITE | SSL_ERROR_ZERO_RETURN
  | SSL_ERROR_SYSCALL | SSL_ERROR_SSL | SSL_ERROR_UNKNOWN

text \<open>
  Return value of a read call: \<open>IO_count n\<close> offers \<open>Suc n\<close> bytes (fewer are returned when
  fewer are asked for or available, none at the end of the stream); \<open>IO_zero\<close> is 0,
  \<open>IO_error\<close> is -1 (\<^verbatim>\<open>SSH_ERROR\<close>), \<open>IO_again\<close> is \<^verbatim>\<open>SSH_AGAIN\<close>.
\<close>

datatype io_ret = IO_count nat | IO_zero | IO_error | IO_again

record rd_raw =
  rr :: io_ret
  rr_errno :: errno
  rr_eof :: bool
  rr_ssl :: ssl_err

record wr_raw =
  wr :: io_ret
  wr_errno :: errno
  wr_closed :: bool
  wr_eof :: bool
  wr_ssl :: ssl_err

datatype revents = Revents (POLLIN: bool) (POLLHUP: bool) (POLLERR: bool) (POLLNVAL: bool)

datatype poll_res = Poll_fail errno | Poll_ret nat revents

datatype ssh_poll = SSH_POLL_ERROR | SSH_POLL_EOF | SSH_POLL_NONE | SSH_POLL_DATA

record poll_raw =
  pr_ssh :: ssh_poll
  pr_pending :: bool
  pr_poll :: poll_res

record wire =
  rx :: bytes
  rd_sched :: "(rd_raw \<times> timespec) list"
  mono_now :: timespec
  tx :: bytes
  wr_sched :: "wr_raw list"
  conn_sched :: "poll_res list"
  ssh_up :: bool
  fd_valid :: bool
  poll_sched :: "poll_raw list"
  lock_sched :: "lock_res list"
  io_held :: bool
  can_alloc :: "nat \<Rightarrow> bool"
  ly_in_ok :: bool
  oob :: bool

text \<open>The IO mutex: \<^verbatim>\<open>nc_session_io_lock\<close> and \<^verbatim>\<open>nc_session_io_unlock\<close> on the wire's schedule
  of lock results; an unlock of the held mutex succeeds.\<close>

definition io_lock :: "wire \<Rightarrow> (int \<times> wire) option" where
  "io_lock w =
     (case lock_sched w of [] \<Rightarrow> None
      | lk # lks \<Rightarrow>
          let r = nc_session_io_lock lk
          in Some (r, w\<lparr>lock_sched := lks, io_held := (if r = 1 then True else io_held w)\<rparr>))"

definition io_unlock :: "wire \<Rightarrow> wire" where
  "io_unlock w = w\<lparr>io_held := False\<rparr>"

lemma io_unlock_simps [simp]:
  "rx (io_unlock w) = rx w" "tx (io_unlock w) = tx w" "io_held (io_unlock w) = False"
  "oob (io_unlock w) = oob w" "rd_sched (io_unlock w) = rd_sched w" "can_alloc (io_unlock w) = can_alloc w"
  by (simp_all add: io_unlock_def)

lemma io_lock_cases:
  assumes "io_lock w = Some (r, w')"
  obtains (locked) lks where "r = 1" "w' = w\<lparr>lock_sched := lks, io_held := True\<rparr>"
    | (busy) lks where "r = 0" "w' = w\<lparr>lock_sched := lks\<rparr>"
    | (failed) lks where "r = -1" "w' = w\<lparr>lock_sched := lks\<rparr>"
  using assms unfolding io_lock_def nc_session_io_lock_def
  by (auto simp: Let_def split: list.splits lock_res.splits)

section \<open>Is the session connected?\<close>

text \<open>\<^verbatim>\<open>nc_session_is_connected\<close>: an interrupted poll is repeated.\<close>

fun poll_no_eintr :: "poll_res list \<Rightarrow> (poll_res \<times> poll_res list) option" where
  "poll_no_eintr [] = None"
| "poll_no_eintr (p # ps) = (if p = Poll_fail EINTR then poll_no_eintr ps else Some (p, ps))"

definition nc_session_is_connected :: "nc_session \<Rightarrow> wire \<Rightarrow> (bool \<times> wire) option" where
  "nc_session_is_connected s w =
     (case ti_type s of
        NC_TI_NONE \<Rightarrow> Some (False, w)
      | NC_TI_LIBSSH \<Rightarrow> Some (ssh_up w, w)
      | _ \<Rightarrow>
          if \<not> fd_valid w then Some (False, w)
          else case poll_no_eintr (conn_sched w) of None \<Rightarrow> None
               | Some (p, ps) \<Rightarrow>
                   let w' = w\<lparr>conn_sched := ps\<rparr> in
                   (case p of Poll_fail _ \<Rightarrow> Some (False, w')
                    | Poll_ret n ev \<Rightarrow> Some (\<not> (n > 0 \<and> (POLLHUP ev \<or> POLLERR ev)), w')))"

lemma nc_session_is_connected_frame:
  assumes "nc_session_is_connected s w = Some (c, w')"
  shows "\<exists>ps. w' = w\<lparr>conn_sched := ps\<rparr>"
proof -
  have "\<exists>ps. w = w\<lparr>conn_sched := ps\<rparr>" by (rule exI [of _ "conn_sched w"]) simp
  with assms show ?thesis
    unfolding nc_session_is_connected_def
    by (auto simp: Let_def split: nc_ti.splits if_splits option.splits prod.splits poll_res.splits)
qed

end
