(* ===== verification/NC_Read.thy ===== *)
theory NC_Read
  imports NC_Wire
begin

text \<open>
  The reading half of \<^verbatim>\<open>io.c\<close>: \<^verbatim>\<open>nc_read\<close> collects a fixed number of bytes from the transport
  under two timeouts, \<^verbatim>\<open>nc_read_until\<close> scans for an end tag, \<^verbatim>\<open>nc_read_chunk\<close> reads one chunk
  body, and \<^verbatim>\<open>nc_read_msg_io\<close> decodes one NETCONF message in either framing. A function
  returns \<open>None\<close> when it is still waiting at the end of its schedule.
\<close>

definition BUFFERSIZE :: nat where "BUFFERSIZE = 512"

text \<open>Milliseconds of the inactive and of the active read timeout (build defaults).\<close>

definition NC_READ_INACT_TIMEOUT_MS :: u32 where "NC_READ_INACT_TIMEOUT_MS = 20 * 1000"
definition NC_READ_ACT_TIMEOUT_MS :: u32 where "NC_READ_ACT_TIMEOUT_MS = 300 * 1000"

section \<open>One transport read\<close>

datatype rd_out = Rd_end | Rd_nothing | Rd_fail nc_term_reason | Rd_got nat

text \<open>The \<^verbatim>\<open>switch (session->ti_type)\<close> of \<^verbatim>\<open>nc_read\<close>: what one call with \<open>req\<close> bytes of room
  returns while \<open>avail\<close> bytes are on the wire.\<close>

definition rd_count :: "rd_raw \<Rightarrow> nat \<Rightarrow> nat \<Rightarrow> nat" where
  "rd_count raw req avail =
     (case rr raw of IO_count k \<Rightarrow> min (Suc k) (min req avail) | _ \<Rightarrow> 0)"

definition read_call :: "nc_ti \<Rightarrow> rd_raw \<Rightarrow> nat \<Rightarrow> nat \<Rightarrow> rd_out" where
  "read_call ti raw req avail =
     (let n = rd_count raw req avail in
      case ti of
        NC_TI_NONE \<Rightarrow> Rd_end
      | NC_TI_LIBSSH \<Rightarrow>
          (if rr raw = IO_again then Rd_nothing
           else if rr raw = IO_error then Rd_fail NC_SESSION_TERM_OTHER
           else if n = 0 then (if rr_eof raw then Rd_fail NC_SESSION_TERM_DROPPED else Rd_nothing)
           else Rd_got n)
      | NC_TI_OPENSSL \<Rightarrow>
          (if n = 0 then
             (case rr_ssl raw of
                SSL_ERROR_WANT_READ \<Rightarrow> Rd_nothing
              | SSL_ERROR_WANT_WRITE \<Rightarrow> Rd_nothing
              | SSL_ERROR_ZERO_RETURN \<Rightarrow> Rd_fail NC_SESSION_TERM_DROPPED
              | SSL_ERROR_SYSCALL \<Rightarrow> Rd_fail NC_SESSION_TERM_OTHER
              | SSL_ERROR_SSL \<Rightarrow> Rd_fail NC_SESSION_TERM_OTHER
              | SSL_ERROR_UNKNOWN \<Rightarrow> Rd_fail NC_SESSION_TERM_OTHER)
           else Rd_got n)
      | _ \<Rightarrow> \<comment> \<open>file descriptor or UNIX socket\<close>
          (if rr raw = IO_error \<or> rr raw = IO_again then
             (case rr_errno raw of EAGAIN \<Rightarrow> Rd_nothing | EINTR \<Rightarrow> Rd_nothing
              | EOTHER \<Rightarrow> Rd_fail NC_SESSION_TERM_OTHER)
           else if n = 0 then Rd_fail NC_SESSION_TERM_DROPPED
           else Rd_got n))"

section \<open>Reading a number of bytes\<close>

definition timed_out :: "timespec \<Rightarrow> timespec \<Rightarrow> timespec \<Rightarrow> bool" where
  "timed_out ts_inact ts_act now \<longleftrightarrow>
     nc_difftimespec_mono_cur ts_inact now < 1 \<or> nc_difftimespec_mono_cur ts_act now < 1"

text \<open>
  The loop of \<^verbatim>\<open>nc_read\<close>; \<open>acc\<close> is what was read so far (\<^verbatim>\<open>readd\<close> bytes) and \<open>cap\<close> the room
  of the caller's buffer. Each step takes one transport result and the clock at that moment.
\<close>

fun nc_read_loop ::
  "nat \<Rightarrow> nat \<Rightarrow> u32 \<Rightarrow> timespec \<Rightarrow> timespec \<Rightarrow> bytes \<Rightarrow> (rd_raw \<times> timespec) list \<Rightarrow>
   nc_session \<Rightarrow> wire \<Rightarrow> (int \<times> bytes \<times> nc_session \<times> wire) option"
where
  "nc_read_loop cnt cap inact ts_act ts_inact acc [] s w = None"
| "nc_read_loop cnt cap inact ts_act ts_inact acc ((raw, now) # evs) s w =
     (let w1 = w\<lparr>rd_sched := evs, mono_now := now\<rparr> in
      case read_call (ti_type s) raw (cnt - length acc) (length (rx w)) of
        Rd_end \<Rightarrow> Some (0, acc, s, w)
      | Rd_fail r \<Rightarrow> Some (-1, acc, invalidate r s, w1)
      | Rd_nothing \<Rightarrow>
          if timed_out ts_inact ts_act now
          then Some (-1, acc, invalidate NC_SESSION_TERM_OTHER s, w1)
          else nc_read_loop cnt cap inact ts_act ts_inact acc evs s w1
      | Rd_got n \<Rightarrow>
          let acc' = acc @ take n (rx w);
              w2 = w1\<lparr>rx := drop n (rx w), oob := (oob w \<or> cap < length acc')\<rparr>
          in if length acc' < cnt
             then nc_read_loop cnt cap inact ts_act (timespec_add_msec now inact) acc' evs s w2
             else Some (int cnt, acc', s, w2\<lparr>oob := (oob w2 \<or> cap \<le> cnt)\<rparr>))"

definition nc_read ::
  "nc_session \<Rightarrow> wire \<Rightarrow> nat \<Rightarrow> nat \<Rightarrow> u32 \<Rightarrow> timespec \<Rightarrow> (int \<times> bytes \<times> nc_session \<times> wire) option"
where
  "nc_read s w cnt cap inact ts_act =
     (if \<not> live s then Some (-1, [], s, w)
      else if cnt = 0 then Some (0, [], s, w)
      else if ti_type s = NC_TI_NONE then Some (0, [], s, w)
      else nc_read_loop cnt cap inact ts_act (timespec_add_msec (mono_now w) inact) []
             (rd_sched w) s w)"

definition nc_read_chunk ::
  "nc_session \<Rightarrow> wire \<Rightarrow> nat \<Rightarrow> u32 \<Rightarrow> timespec \<Rightarrow> (int \<times> bytes \<times> nc_session \<times> wire) option"
where
  "nc_read_chunk s w len inact ts_act =
     (if len = 0 then Some (0, [], s, w)
      else let sz = size_t (len + 1) in
        if \<not> can_alloc w sz then Some (-1, [], s, w)
        else case nc_read s w len sz inact ts_act of None \<Rightarrow> None
             | Some (r, buf, s', w') \<Rightarrow>
                 if r \<le> 0 then Some (-1, [], s', w') else Some (r, buf, s', w'))"

subsection \<open>What a read does to session and wire\<close>

lemma rd_count_le: "rd_count raw req avail \<le> req \<and> rd_count raw req avail \<le> avail"
  by (auto simp: rd_count_def split: io_ret.splits)

lemma read_call_got:
  "read_call ti raw req avail = Rd_got n \<Longrightarrow> 0 < n \<and> n \<le> req \<and> n \<le> avail"
  using rd_count_le [of raw req avail]
  by (auto simp: read_call_def Let_def split: nc_ti.splits if_splits ssl_err.splits errno.splits)

lemma read_call_no_end: "ti \<noteq> NC_TI_NONE \<Longrightarrow> read_call ti raw req avail \<noteq> Rd_end"
  by (auto simp: read_call_def Let_def split: nc_ti.splits if_splits ssl_err.splits errno.splits)

text \<open>
  The contract of the read loop: a positive result is the requested number of bytes, taken
  from the front of the stream, with the session untouched; a failure invalidates the
  session; at least one transport result is consumed.
\<close>

definition rd_frame :: "wire \<Rightarrow> wire \<Rightarrow> bool" where
  "rd_frame w w' \<longleftrightarrow>
     w' = w\<lparr>rx := rx w', rd_sched := rd_sched w', mono_now := mono_now w', oob := oob w'\<rparr>"

lemma rd_frame_refl [simp]: "rd_frame w w"
  by (simp add: rd_frame_def)

lemma rd_frame_trans: "rd_frame w w' \<Longrightarrow> rd_frame w' w'' \<Longrightarrow> rd_frame w w''"
  unfolding rd_frame_def by (cases w, cases w', cases w'') simp

lemma rd_frameD:
  assumes "rd_frame w w'"
  shows "tx w' = tx w" "wr_sched w' = wr_sched w" "conn_sched w' = conn_sched w"
    "poll_sched w' = poll_sched w" "lock_sched w' = lock_sched w" "io_held w' = io_held w"
    "can_alloc w' = can_alloc w" "ssh_up w' = ssh_up w" "fd_valid w' = fd_valid w"
    "ly_in_ok w' = ly_in_ok w"
  using assms unfolding rd_frame_def by (cases w, cases w', simp)+

definition read_ok :: "nat \<Rightarrow> bytes \<Rightarrow> nc_session \<Rightarrow> wire \<Rightarrow> bytes \<Rightarrow> nc_session \<Rightarrow> wire \<Rightarrow> bool" where
  "read_ok n acc s w buf s' w' \<longleftrightarrow>
     s' = s \<and> n \<le> length (rx w) \<and> buf = acc @ take n (rx w) \<and> rx w' = drop n (rx w) \<and>
     rd_frame w w'"

lemma nc_read_loop_spec:
  assumes "nc_read_loop cnt cap inact ts_act ts_inact acc evs s w = Some (r, buf, s', w')"
    and "length acc < cnt" and "ti_type s \<noteq> NC_TI_NONE"
  shows "(r = int cnt \<and> read_ok (cnt - length acc) acc s w buf s' w' \<and>
            oob w' = (oob w \<or> cap \<le> cnt) \<and> length (rd_sched w') < length evs) \<or>
         (r = -1 \<and> (\<exists>t. s' = invalidate t s) \<and> rd_frame w w' \<and> (cnt \<le> cap \<longrightarrow> oob w' = oob w))"
  using assms
proof (induction cnt cap inact ts_act ts_inact acc evs s w rule: nc_read_loop.induct)
  case (1 cnt cap inact ts_act ts_inact acc s w)
  then show ?case by simp
next
  case (2 cnt cap inact ts_act ts_inact acc raw now evs s w)
  let ?w1 = "w\<lparr>rd_sched := evs, mono_now := now\<rparr>"
  let ?call = "read_call (ti_type s) raw (cnt - length acc) (length (rx w))"
  show ?case
  proof (cases ?call)
    case Rd_end
    then show ?thesis using read_call_no_end "2.prems"(3) by blast
  next
    case Rd_nothing
    show ?thesis
    proof (cases "timed_out ts_inact ts_act now")
      case True
      then show ?thesis using Rd_nothing "2.prems" by (auto simp: rd_frame_def)
    next
      case False
      then show ?thesis
        using "2.IH"(1) [OF refl Rd_nothing False] Rd_nothing "2.prems"
        by (auto simp: read_ok_def rd_frame_def)
    qed
  next
    case (Rd_fail t)
    then show ?thesis using "2.prems" by (auto simp: rd_frame_def)
  next
    case (Rd_got n)
    note n = read_call_got [OF Rd_got]
    let ?acc = "acc @ take n (rx w)"
    let ?w2 = "?w1\<lparr>rx := drop n (rx w), oob := (oob w \<or> cap < length ?acc)\<rparr>"
    show ?thesis
    proof (cases "length ?acc < cnt")
      case True
      have tk: "take n (rx w) @ take (cnt - (length acc + n)) (drop n (rx w))
                  = take (cnt - length acc) (rx w)"
      proof -
        have "n + (cnt - (length acc + n)) = cnt - length acc" using n by linarith
        then show ?thesis by (simp flip: take_add)
      qed
      have rec: "nc_read_loop cnt cap inact ts_act (timespec_add_msec now inact) ?acc evs s ?w2
             = Some (r, buf, s', w')"
        using "2.prems"(1) Rd_got True by (simp add: Let_def)
      have "(r = int cnt \<and> read_ok (cnt - length ?acc) ?acc s ?w2 buf s' w' \<and>
              oob w' = (oob ?w2 \<or> cap \<le> cnt) \<and> length (rd_sched w') < length evs) \<or>
            (r = -1 \<and> (\<exists>t. s' = invalidate t s) \<and> rd_frame ?w2 w' \<and>
              (cnt \<le> cap \<longrightarrow> oob w' = oob ?w2))"
        by (rule "2.IH"(2) [OF refl Rd_got refl refl True rec True "2.prems"(3)])
      then show ?thesis
        using n True tk by (auto simp: read_ok_def rd_frame_def)
    next
      case False
      have "length ?acc = length acc + n" using n by simp
      with False n "2.prems"(2) have "n = cnt - length acc" by linarith
      then show ?thesis
        using "2.prems" Rd_got n False by (auto simp: read_ok_def rd_frame_def Let_def)
    qed
  qed
qed

end
