(* ===== verification/NC_Scan.thy ===== *)
theory NC_Scan
  imports NC_Read "HOL-Library.Sublist"
begin

text \<open>
  \<^verbatim>\<open>nc_read_until\<close> of \<^verbatim>\<open>io.c\<close>: the search for an end tag in the byte stream of a session. The
  operation is related to a scanner on plain byte lists (\<open>tag_scan\<close>); the scanner is then shown
  to stop exactly at the first tag when the payload neither holds the tag nor ends in a
  beginning of it, and to run past the tag otherwise on concrete inputs.
\<close>

section \<open>When a read returns\<close>

text \<open>
  A schedule on which reading makes progress: a result without data is a temporary one
  (would block, interrupted) that comes before the deadlines, and the inactivity deadline is
  counted from the last data. \<open>n_ready\<close> counts the results with data.
\<close>

definition rd_ready :: "rd_raw \<Rightarrow> bool" where
  "rd_ready raw = (case rr raw of IO_count _ \<Rightarrow> True | _ \<Rightarrow> False)"

fun sched_ok :: "nc_ti \<Rightarrow> u32 \<Rightarrow> timespec \<Rightarrow> timespec \<Rightarrow> (rd_raw \<times> timespec) list \<Rightarrow> bool" where
  "sched_ok ti inact ts_act ts_inact [] = True"
| "sched_ok ti inact ts_act ts_inact ((raw, now) # evs) =
     (if rd_ready raw then sched_ok ti inact ts_act (timespec_add_msec now inact) evs
      else read_call ti raw 1 1 = Rd_nothing \<and> \<not> timed_out ts_inact ts_act now \<and>
           sched_ok ti inact ts_act ts_inact evs)"

definition n_ready :: "(rd_raw \<times> timespec) list \<Rightarrow> nat" where
  "n_ready evs = length (filter (\<lambda>(raw, _). rd_ready raw) evs)"

lemma n_ready_simps [simp]:
  "n_ready [] = 0"
  "n_ready ((raw, now) # evs) = (if rd_ready raw then Suc (n_ready evs) else n_ready evs)"
  by (simp_all add: n_ready_def)

text \<open>
  \<open>supplied s w inact ts_act n\<close>: the transport of session \<open>s\<close> will deliver at least \<open>n\<close> times.
  The inactivity deadline that holds before the first result is the one \<^verbatim>\<open>nc_read\<close> sets.
\<close>

definition supplied :: "nc_session \<Rightarrow> wire \<Rightarrow> u32 \<Rightarrow> timespec \<Rightarrow> nat \<Rightarrow> bool" where
  "supplied s w inact ts_act n \<longleftrightarrow>
     live s \<and> ti_type s \<noteq> NC_TI_NONE \<and> n \<le> n_ready (rd_sched w) \<and>
     sched_ok (ti_type s) inact ts_act (timespec_add_msec (mono_now w) inact) (rd_sched w)"

lemma supplied_mono: "supplied s w inact ts_act n \<Longrightarrow> m \<le> n \<Longrightarrow> supplied s w inact ts_act m"
  by (simp add: supplied_def)

lemma rd_count_not_ready: "\<not> rd_ready raw \<Longrightarrow> rd_count raw req avail = 0"
  by (auto simp: rd_ready_def rd_count_def split: io_ret.splits)

lemma read_call_not_ready:
  "\<not> rd_ready raw \<Longrightarrow> read_call ti raw req avail = read_call ti raw req' avail'"
  by (simp add: read_call_def rd_count_not_ready)

lemma read_call_ready:
  assumes "rd_ready raw" and "0 < req" and "0 < avail" and "ti \<noteq> NC_TI_NONE"
  shows "\<exists>n. read_call ti raw req avail = Rd_got n"
proof -
  have "0 < rd_count raw req avail"
    using assms by (auto simp: rd_ready_def rd_count_def split: io_ret.splits)
  then show ?thesis
    using assms by (auto simp: read_call_def Let_def rd_ready_def split: nc_ti.splits io_ret.splits)
qed

lemma nc_read_loop_progress:
  assumes "sched_ok (ti_type s) inact ts_act ts_inact evs" and "ti_type s \<noteq> NC_TI_NONE"
    and "length acc < cnt" and "cnt \<le> length acc + n_ready evs" and "cnt \<le> length acc + length (rx w)"
  shows "\<exists>w'. nc_read_loop cnt cap inact ts_act ts_inact acc evs s w
                = Some (int cnt, acc @ take (cnt - length acc) (rx w), s, w') \<and>
              sched_ok (ti_type s) inact ts_act (timespec_add_msec (mono_now w') inact) (rd_sched w') \<and>
              n_ready evs \<le> n_ready (rd_sched w') + (cnt - length acc)"
  using assms
proof (induction cnt cap inact ts_act ts_inact acc evs s w rule: nc_read_loop.induct)
  case (1 cnt cap inact ts_act ts_inact acc s w)
  then show ?case by simp
next
  case (2 cnt cap inact ts_act ts_inact acc raw now evs s w)
  let ?w1 = "w\<lparr>rd_sched := evs, mono_now := now\<rparr>"
  let ?call = "read_call (ti_type s) raw (cnt - length acc) (length (rx w))"
  show ?case
  proof (cases "rd_ready raw")
    case False
    then have call: "?call = Rd_nothing"
      using "2.prems"(1) read_call_not_ready [OF False] by (metis sched_ok.simps(2))
    then show ?thesis
      using "2.IH"(1) [OF refl call] "2.prems" False by simp
  next
    case True
    have "0 < cnt - length acc" "0 < length (rx w)" using "2.prems"(3,5) by linarith+
    then obtain n where got: "?call = Rd_got n"
      using read_call_ready [OF True _ _ "2.prems"(2)] by blast
    note n = read_call_got [OF got]
    let ?acc = "acc @ take n (rx w)"
    let ?w2 = "?w1\<lparr>rx := drop n (rx w), oob := (oob w \<or> cap < length ?acc)\<rparr>"
    have lacc: "length ?acc = length acc + n" using n by simp
    show ?thesis
    proof (cases "length ?acc < cnt")
      case less: True
      have sum: "n + (cnt - (length acc + n)) = cnt - length acc" using n by linarith
      then have tk: "take n (rx w) @ take (cnt - (length acc + n)) (drop n (rx w))
                  = take (cnt - length acc) (rx w)" by (simp flip: take_add)
      have "\<exists>w'. nc_read_loop cnt cap inact ts_act (timespec_add_msec now inact) ?acc evs s ?w2
                = Some (int cnt, ?acc @ take (cnt - length ?acc) (rx ?w2), s, w') \<and>
              sched_ok (ti_type s) inact ts_act (timespec_add_msec (mono_now w') inact) (rd_sched w') \<and>
              n_ready evs \<le> n_ready (rd_sched w') + (cnt - length ?acc)"
        by (rule "2.IH"(2) [OF refl got refl refl less _ "2.prems"(2) less])
          (use "2.prems" True n lacc in auto)
      then show ?thesis using got less True n tk by (auto simp: Let_def)
    next
      case False
      with lacc n "2.prems"(3) have "n = cnt - length acc" by linarith
      then show ?thesis using got False True "2.prems" n by (auto simp: Let_def)
    qed
  qed
qed

text \<open>\<^verbatim>\<open>nc_read\<close> itself: what a return means, and when it returns.\<close>

lemma nc_read_spec:
  assumes "nc_read s w cnt cap inact ts_act = Some (r, buf, s', w')" and "0 < cnt"
  shows "(r = int cnt \<and> read_ok cnt [] s w buf s' w' \<and> oob w' = (oob w \<or> cap \<le> cnt) \<and>
            length (rd_sched w') < length (rd_sched w)) \<or>
         (r = -1 \<and> (\<exists>t. s' = invalidate t s) \<and> rd_frame w w' \<and> (cnt \<le> cap \<longrightarrow> oob w' = oob w)) \<or>
         (r \<in> {-1, 0} \<and> (\<not> live s \<or> ti_type s = NC_TI_NONE) \<and> s' = s \<and> w' = w)"
  using assms nc_read_loop_spec [of cnt cap inact ts_act _ "[]" "rd_sched w" s w r buf s' w']
  by (auto simp: nc_read_def split: if_splits)

lemma nc_read_total:
  assumes "supplied s w inact ts_act (cnt + m)" and "0 < cnt" and "cnt \<le> length (rx w)"
  shows "\<exists>w'. nc_read s w cnt cap inact ts_act = Some (int cnt, take cnt (rx w), s, w') \<and>
              rx w' = drop cnt (rx w) \<and> rd_frame w w' \<and> oob w' = (oob w \<or> cap \<le> cnt) \<and>
              supplied s w' inact ts_act m"
proof -
  have "\<exists>w'. nc_read s w cnt cap inact ts_act = Some (int cnt, take cnt (rx w), s, w') \<and>
             sched_ok (ti_type s) inact ts_act (timespec_add_msec (mono_now w') inact) (rd_sched w') \<and>
             n_ready (rd_sched w) \<le> n_ready (rd_sched w') + cnt"
    using assms nc_read_loop_progress [of s inact ts_act _ "rd_sched w" "[]" cnt w cap]
    by (auto simp: nc_read_def supplied_def)
  then obtain w' where w': "nc_read s w cnt cap inact ts_act = Some (int cnt, take cnt (rx w), s, w')"
    "sched_ok (ti_type s) inact ts_act (timespec_add_msec (mono_now w') inact) (rd_sched w')"
    "n_ready (rd_sched w) \<le> n_ready (rd_sched w') + cnt" by blast
  have "supplied s w' inact ts_act m"
    using assms(1) w'(2,3) by (auto simp: supplied_def)
  moreover have "read_ok cnt [] s w (take cnt (rx w)) s w'" "oob w' = (oob w \<or> cap \<le> cnt)"
    using nc_read_spec [OF w'(1) assms(2)] assms(1,2) by (auto simp: supplied_def)
  ultimately show ?thesis using w'(1) by (auto simp: read_ok_def)
qed

section \<open>Reading up to an end tag\<close>

text \<open>
  The inner \<^verbatim>\<open>for\<close> loop of \<^verbatim>\<open>nc_read_until\<close>: compare the rest of the end tag, and after a
  mismatch ever shorter beginnings of it, with the end of what was read.
\<close>

fun until_match :: "bytes \<Rightarrow> bytes \<Rightarrow> nat \<Rightarrow> nat \<Rightarrow> nat" where
  "until_match endtag chunk matched 0 = matched"
| "until_match endtag chunk matched (Suc i) =
     (if strncmp_eq (drop matched endtag) (drop (length chunk - Suc i) chunk) (Suc i)
      then matched + Suc i
      else until_match endtag chunk 0 i)"

lemma until_match_code [code]:
  "until_match endtag chunk m i =
     (if i = 0 then m else if strncmp_eq (drop m endtag) (drop (length chunk - i) chunk) i then m + i
      else until_match endtag chunk 0 (i - 1))"
  by (cases i) simp_all

text \<open>
  The \<^verbatim>\<open>while (1)\<close> loop; \<open>bsize\<close> is the room of the buffer without the terminating NUL. The
  exit test \<^verbatim>\<open>matched == len\<close> is written \<open>len \<le> matched\<close>: more is never matched
  (\<open>until_match_le\<close>).
\<close>

function nc_read_until_loop ::
  "bytes \<Rightarrow> nat \<Rightarrow> u32 \<Rightarrow> timespec \<Rightarrow> nat \<Rightarrow> nat \<Rightarrow> bytes \<Rightarrow> nc_session \<Rightarrow> wire \<Rightarrow>
   (int \<times> bytes \<times> nc_session \<times> wire) option"
where
  "nc_read_until_loop endtag limit inact ts_act bsize matched chunk s w =
     (if limit \<noteq> 0 \<and> length chunk = limit then Some (-1, [], s, w)
      else
        let need = length endtag - matched;
            grow = (bsize \<le> length chunk + need);
            bsize' = (if grow then bsize + BUFFERSIZE else bsize)
        in if grow \<and> \<not> can_alloc w (bsize' + 1) then Some (-1, [], s, w)
           else case nc_read s w need (bsize' + 1 - length chunk) inact ts_act of None \<Rightarrow> None
             | Some (r, buf, s', w') \<Rightarrow>
                 if r \<noteq> int need then Some (-1, [], s', w')
                 else let chunk' = chunk @ buf;
                          matched' = until_match endtag chunk' matched need
                      in if length endtag \<le> matched' then Some (int (length chunk'), chunk', s', w')
                         else nc_read_until_loop endtag limit inact ts_act bsize' matched' chunk' s' w')"
  by pat_completeness auto

termination
proof (relation "measure (\<lambda>(endtag, limit, inact, ts_act, bsize, matched, chunk, s, w). length (rd_sched w))",
    goal_cases)
  case 1
  show ?case by simp
next
  case (2 endtag limit inact ts_act bsize matched chunk s w need grow bsize' p r q buf q' s' w' chunk' matched')
  have "0 < need" using 2 by (cases need) auto
  then have "length (rd_sched w') < length (rd_sched w)"
    using nc_read_spec [of s w need _ inact ts_act r buf s' w'] 2 by auto
  then show ?case by simp
qed

declare nc_read_until_loop.simps [simp del]

definition nc_read_until ::
  "nc_session \<Rightarrow> wire \<Rightarrow> bytes \<Rightarrow> nat \<Rightarrow> u32 \<Rightarrow> timespec \<Rightarrow> (int \<times> bytes \<times> nc_session \<times> wire) option"
where
  "nc_read_until s w endtag limit inact ts_act =
     (let bsize = (if limit \<noteq> 0 \<and> limit < BUFFERSIZE then limit else BUFFERSIZE)
      in if \<not> can_alloc w (bsize + 1) then Some (-1, [], s, w)
         else nc_read_until_loop endtag limit inact ts_act bsize 0 [] s w)"

section \<open>The scanner on byte lists\<close>

text \<open>The same search on a list of bytes: what was taken off the stream, and the rest.\<close>

function tag_scan :: "bytes \<Rightarrow> nat \<Rightarrow> bytes \<Rightarrow> bytes \<Rightarrow> (bytes \<times> bytes) option" where
  "tag_scan tag m chunk xs =
     (let need = length tag - m; chunk' = chunk @ take need xs in
      if length xs < need then None
      else let m' = until_match tag chunk' m need
           in if length tag \<le> m' then Some (chunk', drop need xs)
              else tag_scan tag m' chunk' (drop need xs))"
  by pat_completeness auto

termination
proof (relation "measure (\<lambda>(tag, m, chunk, xs). length xs)", goal_cases)
  case 1
  show ?case by simp
next
  case (2 tag m chunk xs need chunk' m')
  then have "0 < need" by (cases need) auto
  then show ?case using 2 by simp
qed

declare tag_scan.simps [simp del]

lemma until_match_le: "matched + i \<le> n \<Longrightarrow> until_match endtag chunk matched i \<le> n"
  by (induction endtag chunk matched i rule: until_match.induct) auto

lemma until_spec_loop:
  assumes "nc_read_until_loop endtag limit inact ts_act bsize matched chunk s w = Some (r, res, s', w')"
    and "matched < length endtag" and "length chunk \<le> bsize" and "length endtag < BUFFERSIZE"
  shows "rd_frame w w' \<and> oob w' = oob w \<and>
         (r = int (length res) \<and> 0 < length res \<and> s' = s \<and>
            tag_scan endtag matched chunk (rx w) = Some (res, rx w') \<or>
          r = -1 \<and> (s' = s \<or> (\<exists>t. s' = invalidate t s)))"
  using assms
proof (induction endtag limit inact ts_act bsize matched chunk s w rule: nc_read_until_loop.induct)
  case (1 endtag limit inact ts_act bsize matched chunk s w)
  define need where "need = length endtag - matched"
  define grow where "grow = (bsize \<le> length chunk + need)"
  define bsize' where "bsize' = (if grow then bsize + BUFFERSIZE else bsize)"
  have need: "0 < need" "need < BUFFERSIZE" using "1.prems" by (auto simp: need_def)
  have room: "need < bsize' + 1 - length chunk" "length chunk + need \<le> bsize'"
    using "1.prems" need by (auto simp: bsize'_def grow_def)
  note eq = nc_read_until_loop.simps [of endtag limit inact ts_act bsize matched chunk s w,
      folded need_def, unfolded Let_def, folded grow_def, folded bsize'_def]
  show ?case
  proof (cases "limit \<noteq> 0 \<and> length chunk = limit \<or> grow \<and> \<not> can_alloc w (bsize' + 1)")
    case True
    then show ?thesis using "1.prems"(1) by (auto simp: eq split: if_splits)
  next
    case False
    then obtain r1 buf s1 w1 where
      rd: "nc_read s w need (bsize' + 1 - length chunk) inact ts_act = Some (r1, buf, s1, w1)"
      using "1.prems"(1) by (auto simp: eq split: option.splits)
    define m where "m = until_match endtag (chunk @ buf) matched need"
    have step: "(if r1 \<noteq> int need then Some (-1, [], s1, w1)
       else if length endtag \<le> m then Some (int (length (chunk @ buf)), chunk @ buf, s1, w1)
       else nc_read_until_loop endtag limit inact ts_act bsize' m (chunk @ buf) s1 w1)
       = Some (r, res, s', w')"
      using "1.prems"(1) False rd unfolding eq m_def by (simp split: if_splits)
    show ?thesis
    proof (cases "r1 = int need")
      case bad: False
      then show ?thesis
        using step nc_read_spec [OF rd need(1)] room(1) by fastforce
    next
      case ok: True
      have got: "buf = take need (rx w)" "need \<le> length (rx w)" "rx w1 = drop need (rx w)"
        "rd_frame w w1" "s1 = s" "oob w1 = oob w"
        using nc_read_spec [OF rd need(1)] ok need room by (auto simp: read_ok_def)
      have scan: "tag_scan endtag matched chunk (rx w) =
          (if length endtag \<le> m then Some (chunk @ buf, rx w1)
           else tag_scan endtag m (chunk @ buf) (rx w1))"
        using got by (subst tag_scan.simps) (simp add: Let_def m_def flip: need_def)
      show ?thesis
      proof (cases "length endtag \<le> m")
        case True
        then show ?thesis
          using step ok got scan need by auto
      next
        case more: False
        have "length (chunk @ buf) \<le> bsize'" using got room by simp
        moreover have rec: "nc_read_until_loop endtag limit inact ts_act bsize' m (chunk @ buf) s1 w1
            = Some (r, res, s', w')"
          using step ok more by simp
        ultimately have "rd_frame w1 w' \<and> oob w' = oob w1 \<and>
         (r = int (length res) \<and> 0 < length res \<and> s' = s1 \<and>
            tag_scan endtag m (chunk @ buf) (rx w1) = Some (res, rx w') \<or>
          r = -1 \<and> (s' = s1 \<or> (\<exists>t. s' = invalidate t s1)))"
          using False ok more "1.prems"(4)
          by (intro "1.IH" [OF _ need_def grow_def bsize'_def _ rd refl refl refl _ refl m_def]) auto
        then show ?thesis using got scan more rd_frame_trans by auto
      qed
    qed
  qed
qed

lemma tag_scan_split:
  assumes "tag_scan tag m chunk xs = Some (res, rest)"
  shows "\<exists>y. res = chunk @ y \<and> xs = y @ rest \<and> length tag - m \<le> length y"
  using assms
proof (induction tag m chunk xs rule: tag_scan.induct)
  case (1 tag m chunk xs)
  define need where "need = length tag - m"
  define m' where "m' = until_match tag (chunk @ take need xs) m need"
  note eq = tag_scan.simps [of tag m chunk xs, unfolded Let_def, folded need_def, folded m'_def]
  have len: "need \<le> length xs" using 1 by (auto simp: eq split: if_splits)
  show ?case
  proof (cases "length tag \<le> m'")
    case True
    then show ?thesis
      using "1.prems" len by (intro exI [of _ "take need xs"]) (auto simp: eq simp flip: need_def)
  next
    case False
    then have "tag_scan tag m' (chunk @ take need xs) (drop need xs) = Some (res, rest)"
      using "1.prems" len by (auto simp: eq)
    then obtain y where "res = (chunk @ take need xs) @ y" "drop need xs = y @ rest"
      using "1.IH" [OF need_def refl _ m'_def [folded need_def]] False len
      by (auto simp: need_def [symmetric])
    then show ?thesis
      using len append_take_drop_id [of need xs]
      by (intro exI [of _ "take need xs @ y"]) (auto simp flip: need_def)
  qed
qed

lemma until_total_loop:
  assumes "tag_scan endtag matched chunk (rx w) = Some (res, rest)"
    and "matched < length endtag" and "length chunk \<le> bsize" and "length endtag < BUFFERSIZE"
    and "supplied s w inact ts_act (length res - length chunk + k)" and "\<And>n. can_alloc w n"
  shows "\<exists>w'. nc_read_until_loop endtag 0 inact ts_act bsize matched chunk s w
                = Some (int (length res), res, s, w') \<and>
              rx w' = rest \<and> rd_frame w w' \<and> supplied s w' inact ts_act k"
  using assms
proof (induction endtag matched chunk "rx w" arbitrary: bsize w rule: tag_scan.induct)
  case (1 endtag matched chunk w bsize)
  define need where "need = length endtag - matched"
  define bsize' where "bsize' = (if bsize \<le> length chunk + need then bsize + BUFFERSIZE else bsize)"
  define m where "m = until_match endtag (chunk @ take need (rx w)) matched need"
  note scan = tag_scan.simps [of endtag matched chunk "rx w", unfolded Let_def, folded need_def, folded m_def]
  have need: "0 < need" "need < BUFFERSIZE" "need \<le> length (rx w)"
    using "1.prems" by (auto simp: need_def scan split: if_splits)
  have room: "need < bsize' + 1 - length chunk" "length chunk + need \<le> bsize'"
    using "1.prems" need by (auto simp: bsize'_def)
  have len: "length chunk + need \<le> length res"
    using tag_scan_split [OF "1.prems"(1)] by (auto simp flip: need_def)
  let ?k = "length res - (length chunk + need) + k"
  have "length res - length chunk + k = need + ?k" using len by linarith
  then obtain w1 where rd: "nc_read s w need (bsize' + 1 - length chunk) inact ts_act
        = Some (int need, take need (rx w), s, w1)"
    and w1: "rx w1 = drop need (rx w)" "rd_frame w w1" "supplied s w1 inact ts_act ?k"
    using nc_read_total [OF _ need(1,3)] "1.prems"(5) by metis
  have step: "nc_read_until_loop endtag 0 inact ts_act bsize matched chunk s w =
      (if length endtag \<le> m then Some (int (length (chunk @ take need (rx w))), chunk @ take need (rx w), s, w1)
       else nc_read_until_loop endtag 0 inact ts_act bsize' m (chunk @ take need (rx w)) s w1)"
    using rd "1.prems"(6)
    by (subst nc_read_until_loop.simps)
      (simp add: Let_def m_def flip: need_def bsize'_def)
  show ?case
  proof (cases "length endtag \<le> m")
    case True
    then show ?thesis using step w1 "1.prems"(1) need by (auto simp: scan)
  next
    case False
    have "tag_scan endtag m (chunk @ take need (rx w)) (rx w1) = Some (res, rest)"
      using False "1.prems"(1) need w1 by (simp add: scan)
    moreover have "\<And>n. can_alloc w1 n" using "1.prems"(6) rd_frameD(7) [OF w1(2)] by simp
    ultimately have "\<exists>w'. nc_read_until_loop endtag 0 inact ts_act bsize' m (chunk @ take need (rx w)) s w1
                = Some (int (length res), res, s, w') \<and>
              rx w' = rest \<and> rd_frame w1 w' \<and> supplied s w' inact ts_act k"
      using False need room w1 "1.prems"(4)
      by (intro "1.hyps" [OF need_def refl _ m_def [folded need_def]]) auto
    then show ?thesis using step False w1(2) rd_frame_trans by auto
  qed
qed

text \<open>
  The contract of \<^verbatim>\<open>nc_read_until\<close>. When it returns, either it took exactly what the scanner
  takes and left the session alone, or it failed; it never writes past its buffer. It does
  return when the scanner finds a tag and the transport delivers that much.
\<close>

lemma nc_read_until_spec:
  assumes "nc_read_until s w endtag limit inact ts_act = Some (r, res, s', w')"
    and "endtag \<noteq> []" and "length endtag < BUFFERSIZE"
  shows "rd_frame w w' \<and> oob w' = oob w \<and>
         (r = int (length res) \<and> 0 < length res \<and> s' = s \<and>
            tag_scan endtag 0 [] (rx w) = Some (res, rx w') \<or>
          r = -1 \<and> (s' = s \<or> (\<exists>t. s' = invalidate t s)))"
  using assms until_spec_loop [of endtag limit inact ts_act _ 0 "[]" s w r res s' w']
  by (auto simp: nc_read_until_def Let_def split: if_splits)

lemma nc_read_until_total:
  assumes "tag_scan endtag 0 [] (rx w) = Some (res, rest)"
    and "endtag \<noteq> []" and "length endtag < BUFFERSIZE"
    and "supplied s w inact ts_act (length res + k)" and "\<And>n. can_alloc w n"
  shows "\<exists>w'. nc_read_until s w endtag 0 inact ts_act = Some (int (length res), res, s, w') \<and>
              rx w' = rest \<and> rd_frame w w' \<and> supplied s w' inact ts_act k"
  using assms until_total_loop [of endtag 0 "[]" w res rest BUFFERSIZE s inact ts_act k]
  by (auto simp: nc_read_until_def)

section \<open>Where the scanner stops\<close>

text \<open>
  A payload is clear of a tag when it neither holds the tag nor ends in a proper beginning
  of it; then the first tag on the stream is the one after the payload, and it is not
  straddled.
\<close>

definition tag_clear :: "bytes \<Rightarrow> bytes \<Rightarrow> bool" where
  "tag_clear tag d \<longleftrightarrow> \<not> sublist tag d \<and> list_all (\<lambda>k. \<not> suffix (take k tag) d) [1..<length tag]"

lemma tag_clearD:
  assumes "tag_clear tag d" and "suffix (take k tag) d" and "k < length tag"
  shows "k = 0"
  using assms unfolding tag_clear_def list_all_iff by (cases k) auto

lemma strncmp_eq_suffix:
  assumes "NUL \<notin> set tag" and "i \<le> length chunk" and "m + i \<le> length tag"
  shows "strncmp_eq (drop m tag) (drop (length chunk - i) chunk) i \<longleftrightarrow>
         take i (drop m tag) = drop (length chunk - i) chunk"
  using assms by (subst strncmp_eq_take) (auto dest: in_set_dropD)

lemma drop_eq_suffix:
  assumes "i \<le> length chunk" and "i \<le> length tag"
  shows "take i tag = drop (length chunk - i) chunk \<longleftrightarrow> suffix (take i tag) chunk"
proof
  assume "take i tag = drop (length chunk - i) chunk"
  then show "suffix (take i tag) chunk" by (simp add: suffix_drop)
next
  assume "suffix (take i tag) chunk"
  then obtain z where "chunk = z @ take i tag" by (auto simp: suffix_def)
  then show "take i tag = drop (length chunk - i) chunk" using assms by simp
qed

lemma until_match_suffix:
  assumes "NUL \<notin> set tag" and "i \<le> length chunk" and "m + i \<le> length tag"
    and "suffix (take m tag) (take (length chunk - i) chunk)"
  shows "suffix (take (until_match tag chunk m i) tag) chunk"
  using assms
proof (induction tag chunk m i rule: until_match.induct)
  case (2 tag chunk m i)
  show ?case
  proof (cases "take (Suc i) (drop m tag) = drop (length chunk - Suc i) chunk")
    case True
    then have "take (m + Suc i) tag = take m tag @ drop (length chunk - Suc i) chunk"
      using take_add [of m "Suc i" tag] by simp
    moreover obtain z where "take (length chunk - Suc i) chunk = z @ take m tag"
      using "2.prems"(4) by (auto simp: suffix_def)
    ultimately have "chunk = z @ take (m + Suc i) tag"
      using append_take_drop_id [of "length chunk - Suc i" chunk] by simp
    moreover have "until_match tag chunk m (Suc i) = m + Suc i"
      using True "2.prems" by (simp add: strncmp_eq_suffix)
    ultimately show ?thesis unfolding suffix_def by metis
  next
    case False
    then show ?thesis using 2 by (simp add: strncmp_eq_suffix)
  qed
qed simp

lemma until_match_longest:
  assumes "NUL \<notin> set tag" and "i \<le> length chunk" and "i \<le> length tag"
    and "suffix (take k tag) chunk" and "0 < k" and "k \<le> i"
    and "\<And>j. k < j \<Longrightarrow> j \<le> i \<Longrightarrow> \<not> suffix (take j tag) chunk"
  shows "until_match tag chunk 0 i = k"
  using assms
proof (induction i)
  case (Suc i)
  then have eq: "strncmp_eq (drop 0 tag) (drop (length chunk - Suc i) chunk) (Suc i)
      \<longleftrightarrow> suffix (take (Suc i) tag) chunk"
    by (subst strncmp_eq_suffix) (simp_all add: drop_eq_suffix)
  show ?case
  proof (cases "k = Suc i")
    case True
    then show ?thesis using eq Suc.prems(4) by simp
  next
    case False
    then show ?thesis using eq Suc by simp
  qed
qed simp

lemma suffix_take_append:
  assumes "suffix (take j tag) (d @ e)" and "length e < j" and "j \<le> length tag"
  shows "suffix (take (j - length e) tag) d"
proof -
  have "\<not> suffix (take j tag) e" using assms suffix_length_le [of "take j tag" e] by auto
  then obtain y where y: "take j tag = y @ e" "suffix y d"
    using assms(1) by (auto simp: suffix_append)
  have "length y + length e = j" using arg_cong [OF y(1), of length] assms(3) by simp
  then have "y = take (j - length e) (take j tag)" unfolding y(1) by simp
  then show ?thesis using y(2) assms by simp
qed

lemma until_match_no_full:
  assumes "NUL \<notin> set tag" and "\<not> suffix tag chunk" and "m + Suc i = length tag" and "Suc i \<le> length chunk"
    and "suffix (take m tag) (take (length chunk - Suc i) chunk)"
  shows "until_match tag chunk m (Suc i) = until_match tag chunk 0 i"
proof -
  have "until_match tag chunk m (Suc i) \<noteq> m + Suc i"
    using until_match_suffix [OF assms(1,4) _ assms(5)] assms(2,3) by auto
  then show ?thesis by (auto split: if_splits)
qed

text \<open>The end tags of the two framings.\<close>

definition NC_VERSION_10_ENDTAG :: bytes where "NC_VERSION_10_ENDTAG = '']]>]]>''"
definition chunk_start_tag :: bytes where "chunk_start_tag = [LF, CHR ''#'']"
definition line_tag :: bytes where "line_tag = [LF]"

text \<open>\<open>scan_inv\<close>: where the scanner stands while it has not gone past the tag after \<open>d\<close>.\<close>

definition scan_inv :: "bytes \<Rightarrow> bytes \<Rightarrow> nat \<Rightarrow> bytes \<Rightarrow> bool" where
  "scan_inv tag d m chunk \<longleftrightarrow>
     m < length tag \<and> suffix (take m tag) chunk \<and>
     (length chunk < length d \<or> length chunk = length d + m)"

lemma until_match_before_tag:
  assumes "NUL \<notin> set tag" and "tag_clear tag d" and "scan_inv tag d m chunk"
    and "length chunk < length d" and "prefix chunk d"
  defines "need \<equiv> length tag - m"
  defines "chunk' \<equiv> take (length chunk + need) (d @ tag)"
  shows "scan_inv tag d (until_match tag chunk' m need) chunk'"
proof -
  obtain i where i: "need = Suc i" using assms(3) unfolding need_def scan_inv_def by (cases "length tag - m") auto
  have lc: "length chunk' = length chunk + need"
    using assms(3,4) unfolding chunk'_def need_def by auto
  have pre: "take (length chunk' - need) chunk' = chunk"
    using assms(4,5) lc unfolding chunk'_def by (auto simp: prefix_def)
  have sfx: "suffix (take m tag) (take (length chunk' - need) chunk')"
    using assms(3) unfolding pre scan_inv_def by simp
  have full: "until_match tag chunk' m need = until_match tag chunk' 0 i" if "\<not> suffix tag chunk'"
    unfolding i using that sfx lc i assms(3)
    by (intro until_match_no_full [OF assms(1)]) (auto simp: scan_inv_def need_def)
  show ?thesis
  proof (cases "length chunk' \<le> length d")
    case True
    then have c: "chunk' = take (length chunk') d" unfolding lc by (simp add: chunk'_def)
    have "\<not> suffix tag chunk'"
    proof
      assume "suffix tag chunk'"
      then have "sublist tag (take (length chunk') d)" using c by (simp add: suffix_imp_sublist)
      then show False
        using assms(2) sublist_order.order_trans [OF _ sublist_take] unfolding tag_clear_def by blast
    qed
    then have "until_match tag chunk' m need = until_match tag chunk' 0 i" by (rule full)
    moreover have "until_match tag chunk' 0 i \<le> i" by (rule until_match_le) simp
    moreover have "suffix (take (until_match tag chunk' m need) tag) chunk'"
      using until_match_suffix [OF assms(1) _ _ sfx] lc assms(3) unfolding need_def scan_inv_def by auto
    ultimately show ?thesis
      using True i assms(2,3) c tag_clearD [OF assms(2)]
      unfolding scan_inv_def need_def by (cases "length chunk' = length d") auto
  next
    case False
    define k where "k = length chunk' - length d"
    have k: "0 < k" "k \<le> i" "k < length tag" using False lc i assms(3,4) unfolding k_def scan_inv_def need_def by auto
    have c: "chunk' = d @ take k tag" using False lc unfolding chunk'_def k_def by simp
    have no: "\<not> suffix (take j tag) chunk'" if "k < j" "j \<le> length tag" for j
    proof
      assume "suffix (take j tag) chunk'"
      then have "suffix (take (j - k) tag) d"
        using suffix_take_append [of j tag d "take k tag"] that k unfolding c by simp
      then show False using tag_clearD [OF assms(2)] that k by force
    qed
    have "until_match tag chunk' m need = until_match tag chunk' 0 i"
      using full no [of "length tag"] k by simp
    also have "\<dots> = k"
      using no k lc i assms(1) c by (intro until_match_longest) (auto simp: need_def suffix_def)
    finally show ?thesis using c k unfolding scan_inv_def by (auto simp: suffix_def)
  qed
qed

lemma tag_scan_inv:
  assumes "NUL \<notin> set tag" and "tag_clear tag d" and "scan_inv tag d m chunk"
    and "chunk @ xs = d @ tag @ rest"
  shows "tag_scan tag m chunk xs = Some (d @ tag, rest)"
  using assms
proof (induction tag m chunk xs rule: tag_scan.induct)
  case (1 tag m chunk xs)
  define need where "need = length tag - m"
  define m' where "m' = until_match tag (chunk @ take need xs) m need"
  note eq = tag_scan.simps [of tag m chunk xs, unfolded Let_def, folded need_def, folded m'_def]
  show ?case
  proof (cases "length chunk < length d")
    case True
    have "prefix chunk (d @ tag @ rest)" using "1.prems"(4) by (metis prefixI)
    then have pre: "prefix chunk d"
      by (rule prefix_length_prefix [of _ _ d]) (use True in auto)
    have "length chunk + length xs = length d + length tag + length rest"
      using arg_cong [OF "1.prems"(4), of length] by simp
    then have lx: "need \<le> length xs" using True unfolding need_def by linarith
    have c: "chunk @ take need xs = take (length chunk + need) (d @ tag)"
      using arg_cong [OF "1.prems"(4), of "take (length chunk + need)"] True
      by (simp add: need_def)
    have inv: "scan_inv tag d m' (chunk @ take need xs)"
      using until_match_before_tag [OF "1.prems"(1,2,3) True pre]
      unfolding m'_def c by (simp flip: need_def)
    have "tag_scan tag m' (chunk @ take need xs) (drop need xs) = Some (d @ tag, rest)"
      using inv lx "1.prems" unfolding scan_inv_def
      by (intro "1.IH" [OF need_def refl _ m'_def [folded need_def]])
        (auto simp: scan_inv_def simp flip: need_def)
    then show ?thesis using inv lx by (auto simp: eq scan_inv_def)
  next
    case False
    then have len: "length chunk = length d + m" and m: "m < length tag"
      using "1.prems"(3) by (auto simp: scan_inv_def)
    have "chunk = take (length d + m) (chunk @ xs)" "xs = drop (length d + m) (chunk @ xs)"
      using len by simp_all
    then have c: "chunk = d @ take m tag" "xs = drop m tag @ rest"
      unfolding "1.prems"(4) using m by simp_all
    obtain i where i: "need = Suc i" using m by (cases need) (auto simp: need_def)
    have full: "chunk @ take need xs = d @ tag" using c m by (simp add: need_def)
    have "take need (drop m tag) = drop (length (d @ tag) - need) (d @ tag)"
      using m by (simp add: need_def)
    then have "strncmp_eq (drop m tag) (drop (length (d @ tag) - need) (d @ tag)) need"
      using "1.prems"(1) m by (subst strncmp_eq_suffix) (auto simp: need_def)
    then have "until_match tag (d @ tag) m need = m + need" unfolding i by (simp only: until_match.simps if_True)
    then have "m' = length tag" unfolding m'_def full using m by (simp add: need_def)
    moreover have "drop need xs = rest" "\<not> length xs < need" using c(2) m by (simp_all add: need_def)
    ultimately show ?thesis unfolding eq full by simp
  qed
qed

theorem tag_scan_clear:
  assumes "NUL \<notin> set tag" and "tag \<noteq> []" and "tag_clear tag d"
  shows "tag_scan tag 0 [] (d @ tag @ rest) = Some (d @ tag, rest)"
  using assms by (intro tag_scan_inv) (auto simp: scan_inv_def)

text \<open>
  The condition is needed: a payload that ends in a beginning of the tag makes the scanner
  step over the tag, and a tag of the framing is then missed.
\<close>

lemma tag_scan_overlap:
  "tag_scan NC_VERSION_10_ENDTAG 0 [] (''<a/>]'' @ NC_VERSION_10_ENDTAG) = None"
  by code_simp

end
