(* ===== verification/NC_ReadMsg.thy ===== *)
theory NC_ReadMsg
  imports NC_Scan
begin

text \<open>
  The message level of the reading half of \<^verbatim>\<open>io.c\<close>: \<^verbatim>\<open>nc_read_msg_io\<close>, which decodes one
  message in the framing of the session, \<^verbatim>\<open>nc_read_poll\<close> and \<^verbatim>\<open>nc_read_msg_poll_io\<close>. The pure
  decoders \<open>dec10\<close> and \<open>dec_chunks\<close> say which bytes of the stream make up the message.
\<close>

section \<open>The operations\<close>

text \<open>
  One round of the chunked framing: the two searches that bring up the line after \<^verbatim>\<open>\n#\<close>,
  and the body of a chunk, appended to the message so far (\<open>data\<close>; \<open>None\<close> is the null pointer
  before the first chunk). Results are stored in an \<^verbatim>\<open>int\<close>, so they are cut to 32 bits before
  the comparison with -1.
\<close>

definition read_chunk_line ::
  "u32 \<Rightarrow> timespec \<Rightarrow> nc_session \<Rightarrow> wire \<Rightarrow> (bytes option \<times> nc_session \<times> wire) option"
where
  "read_chunk_line inact ts_act s w =
     (case nc_read_until s w chunk_start_tag 0 inact ts_act of None \<Rightarrow> None
      | Some (r, _, s1, w1) \<Rightarrow>
          if int32 r = -1 then Some (None, s1, w1)
          else case nc_read_until s1 w1 line_tag 0 inact ts_act of None \<Rightarrow> None
            | Some (r, chunk, s2, w2) \<Rightarrow>
                if int32 r = -1 then Some (None, s2, w2) else Some (Some (cstr chunk), s2, w2))"

definition read_chunk_body ::
  "u32 \<Rightarrow> timespec \<Rightarrow> nat \<Rightarrow> bytes option \<Rightarrow> nc_session \<Rightarrow> wire \<Rightarrow> (bytes option \<times> nc_session \<times> wire) option"
where
  "read_chunk_body inact ts_act chunk_len data s w =
     (case nc_read_chunk s w chunk_len inact ts_act of None \<Rightarrow> None
      | Some (r, chunk, s', w') \<Rightarrow>
          if int32 r = -1 then Some (None, s', w')
          else let d = (case data of None \<Rightarrow> [] | Some d \<Rightarrow> d);
                   want = length d + chunk_len + 1;
                   sz = size_t want
               in if \<not> can_alloc w' sz then Some (None, s', w')
                  else Some (Some (d @ take chunk_len chunk), s', w'\<lparr>oob := (oob w' \<or> sz < want)\<rparr>))"

lemma nc_read_chunk_spec:
  assumes "nc_read_chunk s w len inact ts_act = Some (r, body, s', w')" and "0 < len"
  shows "(r = int len \<and> read_ok len [] s w body s' w' \<and> oob w' = (oob w \<or> size_t (len + 1) \<le> len)) \<or>
         (r = -1 \<and> (s' = s \<or> (\<exists>t. s' = invalidate t s)) \<and> rd_frame w w' \<and>
            (len \<le> size_t (len + 1) \<longrightarrow> oob w' = oob w))"
proof -
  consider (noalloc) "r = -1" "s' = s" "w' = w"
    | (rd) r1 buf where "nc_read s w len (size_t (len + 1)) inact ts_act = Some (r1, buf, s', w')"
        "r = (if r1 \<le> 0 then -1 else r1)" "body = (if r1 \<le> 0 then [] else buf)"
    using assms unfolding nc_read_chunk_def by (auto simp: Let_def split: if_splits option.splits)
  then show ?thesis
  proof cases
    case rd
    then show ?thesis using nc_read_spec [OF rd(1) assms(2)] assms(2) by auto
  qed simp
qed

lemma chunk_start_tag_props [simp]:
  "chunk_start_tag \<noteq> []" "length chunk_start_tag < BUFFERSIZE" "NUL \<notin> set chunk_start_tag"
  by (simp_all add: chunk_start_tag_def BUFFERSIZE_def)

lemma line_tag_props [simp]:
  "line_tag \<noteq> []" "length line_tag < BUFFERSIZE" "NUL \<notin> set line_tag"
  by (simp_all add: line_tag_def BUFFERSIZE_def)

lemma endtag_props [simp]:
  "NC_VERSION_10_ENDTAG \<noteq> []" "length NC_VERSION_10_ENDTAG < BUFFERSIZE"
  "NUL \<notin> set NC_VERSION_10_ENDTAG" "length NC_VERSION_10_ENDTAG = 6"
  by (simp_all add: NC_VERSION_10_ENDTAG_def BUFFERSIZE_def)

lemma nc_read_until_ok:
  assumes "nc_read_until s w endtag limit inact ts_act = Some (r, res, s', w')" and "int32 r \<noteq> -1"
    and "endtag \<noteq> []" and "length endtag < BUFFERSIZE"
  shows "rd_frame w w' \<and> oob w' = oob w \<and> r = int (length res) \<and> s' = s \<and>
         tag_scan endtag 0 [] (rx w) = Some (res, rx w') \<and> length (rx w') < length (rx w)"
proof -
  have "r \<noteq> -1" using assms(2) by auto
  then have *: "rd_frame w w' \<and> oob w' = oob w \<and> r = int (length res) \<and> s' = s \<and>
         tag_scan endtag 0 [] (rx w) = Some (res, rx w')"
    using nc_read_until_spec [OF assms(1,3,4)] by auto
  moreover obtain y where "rx w = y @ rx w'" "length endtag \<le> length y"
    using tag_scan_split [of endtag 0 "[]" "rx w" res "rx w'"] * by auto
  ultimately show ?thesis using assms(3) by (cases endtag) auto
qed

lemma rd_frame_oob: "rd_frame w (w\<lparr>oob := b\<rparr>)"
  by (simp add: rd_frame_def)

text \<open>The line after the next chunk mark, and the rest of the stream.\<close>

definition chunk_line :: "bytes \<Rightarrow> (bytes \<times> bytes) option" where
  "chunk_line xs =
     (case tag_scan chunk_start_tag 0 [] xs of None \<Rightarrow> None
      | Some (_, xs1) \<Rightarrow>
          (case tag_scan line_tag 0 [] xs1 of None \<Rightarrow> None | Some (l, xs2) \<Rightarrow> Some (cstr l, xs2)))"

lemma tag_scan_shorter:
  assumes "tag_scan tag 0 [] xs = Some (res, rest)" and "tag \<noteq> []"
  shows "length rest < length xs"
  using tag_scan_split [OF assms(1)] assms(2) by (cases tag) auto

lemma chunk_line_shorter: "chunk_line xs = Some (l, rest) \<Longrightarrow> length rest < length xs"
  unfolding chunk_line_def
  by (auto split: option.splits
      dest!: tag_scan_shorter [OF _ chunk_start_tag_props(1)] tag_scan_shorter [OF _ line_tag_props(1)])

lemma read_chunk_line_spec:
  assumes "read_chunk_line inact ts_act s w = Some (l, s', w')"
  shows "rd_frame w w' \<and> oob w' = oob w \<and>
         (case l of None \<Rightarrow> s' = s \<or> (\<exists>t. s' = invalidate t s)
          | Some line \<Rightarrow> s' = s \<and> chunk_line (rx w) = Some (line, rx w'))"
proof -
  obtain r1 u s1 w1 where rd1: "nc_read_until s w chunk_start_tag 0 inact ts_act = Some (r1, u, s1, w1)"
    using assms by (auto simp: read_chunk_line_def split: option.splits)
  note spec1 = nc_read_until_spec [OF rd1 chunk_start_tag_props(1,2)]
  show ?thesis
  proof (cases "int32 r1 = -1")
    case True
    then show ?thesis using assms rd1 spec1 by (auto simp: read_chunk_line_def)
  next
    case n1: False
    note ok1 = nc_read_until_ok [OF rd1 n1 chunk_start_tag_props(1,2)]
    obtain r2 chunk s2 w2 where rd2: "nc_read_until s1 w1 line_tag 0 inact ts_act = Some (r2, chunk, s2, w2)"
      and res: "l = (if int32 r2 = -1 then None else Some (cstr chunk))" "s' = s2" "w' = w2"
      using assms rd1 n1 by (auto simp: read_chunk_line_def split: option.splits if_splits)
    note spec2 = nc_read_until_spec [OF rd2 line_tag_props(1,2)]
    then have fr: "rd_frame w w2" "oob w2 = oob w" using ok1 rd_frame_trans by auto
    show ?thesis
    proof (cases "int32 r2 = -1")
      case True
      then show ?thesis using fr res spec2 ok1 by auto
    next
      case False
      then show ?thesis
        using fr res ok1 nc_read_until_ok [OF rd2 False line_tag_props(1,2)] by (simp add: chunk_line_def)
    qed
  qed
qed

lemma read_chunk_body_spec:
  assumes "read_chunk_body inact ts_act n data s w = Some (res, s', w')" and "0 < n"
  shows "rd_frame w w' \<and>
         (case res of None \<Rightarrow> s' = s \<or> (\<exists>t. s' = invalidate t s)
          | Some d \<Rightarrow> s' = s \<and> n \<le> length (rx w) \<and> rx w' = drop n (rx w) \<and>
              d = (case data of None \<Rightarrow> [] | Some d \<Rightarrow> d) @ take n (rx w) \<and>
              (length d < 2 ^ 64 - 1 \<longrightarrow> oob w' = oob w))"
proof -
  obtain r chunk s1 w1 where rd: "nc_read_chunk s w n inact ts_act = Some (r, chunk, s1, w1)"
    using assms by (auto simp: read_chunk_body_def split: option.splits)
  note spec = nc_read_chunk_spec [OF rd assms(2)]
  show ?thesis
  proof (cases res)
    case None
    then show ?thesis
      using assms rd spec by (auto simp: read_chunk_body_def read_ok_def Let_def split: if_splits)
  next
    case (Some d)
    let ?d = "case data of None \<Rightarrow> [] | Some d \<Rightarrow> d"
    let ?want = "length ?d + n + 1"
    have *: "r \<noteq> -1" "d = ?d @ take n chunk" "s' = s1" "w' = w1\<lparr>oob := (oob w1 \<or> size_t ?want < ?want)\<rparr>"
      using assms(1) rd Some by (auto simp: read_chunk_body_def Let_def split: if_splits)
    then have ok: "read_ok n [] s w chunk s1 w1" "oob w1 = (oob w \<or> size_t (n + 1) \<le> n)"
      using spec by auto
    have "size_t ?want = ?want \<and> size_t (n + 1) = n + 1" if "length d < 2 ^ 64 - 1"
      using that ok(1) *(2) by (auto simp: read_ok_def intro!: size_t_id)
    moreover have "rd_frame w w'"
      using ok(1) rd_frame_trans [OF _ rd_frame_oob] unfolding *(4) read_ok_def by blast
    ultimately show ?thesis using Some ok * by (auto simp: read_ok_def)
  qed
qed

text \<open>The loop of the chunked framing; every round takes bytes off the stream.\<close>

function read_chunks ::
  "u32 \<Rightarrow> timespec \<Rightarrow> bytes option \<Rightarrow> nc_session \<Rightarrow> wire \<Rightarrow> (int \<times> bytes \<times> nc_session \<times> wire) option"
where
  "read_chunks inact ts_act data s w =
     (case read_chunk_line inact ts_act s w of None \<Rightarrow> None
      | Some (None, s1, w1) \<Rightarrow> Some (-1, [], s1, w1)
      | Some (Some line, s1, w1) \<Rightarrow>
          if line = [CHR ''#'', LF] then
            (case data of None \<Rightarrow> Some (-2, [], s1, w1) | Some d \<Rightarrow> Some (1, d, s1, w1))
          else let chunk_len = strtoul line in
            if chunk_len = 0 then Some (-2, [], s1, w1)
            else case read_chunk_body inact ts_act chunk_len data s1 w1 of None \<Rightarrow> None
              | Some (None, s2, w2) \<Rightarrow> Some (-1, [], s2, w2)
              | Some (Some d, s2, w2) \<Rightarrow> read_chunks inact ts_act (Some d) s2 w2)"
  by pat_completeness auto

termination
proof (relation "measure (\<lambda>(inact, ts_act, data, s, w). length (rx w))", goal_cases)
  case 1
  show ?case by simp
next
  case (2 inact ts_act data s w x l y line s1 w1 chunk_len x2 res y2 d s2 w2)
  then have "chunk_line (rx w) = Some (line, rx w1)"
    using read_chunk_line_spec [of inact ts_act s w "Some line" s1 w1] by auto
  moreover have "length (rx w2) \<le> length (rx w1)"
    using 2 read_chunk_body_spec [of inact ts_act chunk_len data s1 w1 "Some d" s2 w2] by auto
  ultimately show ?case using chunk_line_shorter by fastforce
qed

declare read_chunks.simps [simp del]

text \<open>
  \<^verbatim>\<open>nc_read_msg_io\<close>. The body of the switch yields the return value and the data; the tail
  releases the IO lock on every path that holds it. \<open>passing\<close> says that the caller holds the
  lock already. A message is the NUL-terminated string handed to libyang.
\<close>

definition read_10 ::
  "u32 \<Rightarrow> timespec \<Rightarrow> nc_session \<Rightarrow> wire \<Rightarrow> (int \<times> bytes \<times> nc_session \<times> wire) option"
where
  "read_10 inact ts_act s w =
     (case nc_read_until s w NC_VERSION_10_ENDTAG 0 inact ts_act of None \<Rightarrow> None
      | Some (r, data, s', w') \<Rightarrow>
          if int32 r = -1 then Some (-1, [], s', w')
          else let idx = int32 r - 6 in
               if idx < 0 then Some (1, data, s', w'\<lparr>oob := True\<rparr>)
               else Some (1, data[nat idx := NUL], s', w'))"

definition nc_read_msg_io ::
  "nc_session \<Rightarrow> wire \<Rightarrow> bool \<Rightarrow> (int \<times> string option \<times> nc_session \<times> wire) option"
where
  "nc_read_msg_io s w passing =
     (if \<not> live s then Some (-1, None, s, if passing then io_unlock w else w)
      else
        let ts_act = timespec_add_msec (mono_now w) NC_READ_ACT_TIMEOUT_MS in
        case (if passing then Some (1, w) else io_lock w) of None \<Rightarrow> None
        | Some (lr, w0) \<Rightarrow>
        if lr < 1 then Some (lr, None, s, w0) else
        case (case version s of
                NC_VERSION_10 \<Rightarrow> read_10 NC_READ_INACT_TIMEOUT_MS ts_act s w0
              | NC_VERSION_11 \<Rightarrow> read_chunks NC_READ_INACT_TIMEOUT_MS ts_act None s w0) of None \<Rightarrow> None
        | Some (ret, data, s', w') \<Rightarrow>
            if ret \<noteq> 1 then Some (ret, None, s', io_unlock w')
            else if ly_in_ok w' then Some (1, Some (cstr data), s', io_unlock w')
            else Some (-1, None, s', io_unlock w'))"

section \<open>Waiting for a message\<close>

definition nc_read_poll :: "nc_session \<Rightarrow> wire \<Rightarrow> (int \<times> nc_session \<times> wire) option" where
  "nc_read_poll s w =
     (if \<not> live s then Some (-1, s, w)
      else if ti_type s = NC_TI_NONE then Some (-1, s, w)
      else case poll_sched w of [] \<Rightarrow> None
        | p # ps \<Rightarrow>
          let w' = w\<lparr>poll_sched := ps\<rparr>;
              finish = (\<lambda>pr. case pr of
                 Poll_fail _ \<Rightarrow> Some (-1, invalidate NC_SESSION_TERM_OTHER s, w')
               | Poll_ret n ev \<Rightarrow>
                   if POLLERR ev then Some (-1, invalidate NC_SESSION_TERM_OTHER s, w')
                   else if POLLHUP ev \<and> \<not> POLLIN ev
                   then Some (-1, invalidate NC_SESSION_TERM_DROPPED s, w')
                   else Some (int n, s, w'))
          in (case ti_type s of
                NC_TI_LIBSSH \<Rightarrow>
                  (case pr_ssh p of
                     SSH_POLL_ERROR \<Rightarrow> Some (-1, invalidate NC_SESSION_TERM_OTHER s, w')
                   | SSH_POLL_EOF \<Rightarrow> Some (-1, invalidate NC_SESSION_TERM_DROPPED s, w')
                   | SSH_POLL_DATA \<Rightarrow> finish (Poll_ret 1 (Revents True False False False))
                   | SSH_POLL_NONE \<Rightarrow> finish (Poll_ret 0 (Revents False False False False)))
              | NC_TI_OPENSSL \<Rightarrow>
                  if pr_pending p then finish (Poll_ret 1 (Revents True False False False))
                  else finish (pr_poll p)
              | _ \<Rightarrow> finish (pr_poll p)))"

definition nc_read_msg_poll_io ::
  "nc_session \<Rightarrow> wire \<Rightarrow> (int \<times> string option \<times> nc_session \<times> wire) option"
where
  "nc_read_msg_poll_io s w =
     (if \<not> live s then Some (-1, None, s, w)
      else case io_lock w of None \<Rightarrow> None
        | Some (lr, w0) \<Rightarrow>
        if lr < 1 then Some (lr, None, s, w0)
        else case nc_read_poll s w0 of None \<Rightarrow> None
          | Some (pr, s1, w1) \<Rightarrow>
              if pr < 1 then Some (pr, None, s1, io_unlock w1)
              else nc_read_msg_io s1 w1 True)"

section \<open>Which bytes are the message\<close>

text \<open>
  Decoding on plain byte lists: \<open>None\<close> while the message is incomplete, \<open>Frame_bad\<close> for
  invalid framing, otherwise the message and the rest of the stream.
\<close>

datatype frame_res = Frame_ok bytes bytes | Frame_bad

definition dec10 :: "bytes \<Rightarrow> frame_res option" where
  "dec10 xs =
     (case tag_scan NC_VERSION_10_ENDTAG 0 [] xs of None \<Rightarrow> None
      | Some (c, rest) \<Rightarrow> Some (Frame_ok (take (length c - 6) c) rest))"

function dec_chunks :: "bytes option \<Rightarrow> bytes \<Rightarrow> frame_res option" where
  "dec_chunks data xs =
     (case chunk_line xs of None \<Rightarrow> None
      | Some (line, xs1) \<Rightarrow>
          if line = [CHR ''#'', LF]
          then (case data of None \<Rightarrow> Some Frame_bad | Some d \<Rightarrow> Some (Frame_ok d xs1))
          else let n = strtoul line in
            if n = 0 then Some Frame_bad
            else if length xs1 < n then None
            else dec_chunks (Some ((case data of None \<Rightarrow> [] | Some d \<Rightarrow> d) @ take n xs1)) (drop n xs1))"
  by pat_completeness auto

termination
proof (relation "measure (\<lambda>(data, xs). length xs)", goal_cases)
  case 1
  show ?case by simp
next
  case (2 data xs x line xs1 n)
  then show ?case using chunk_line_shorter [of xs line xs1] by auto
qed

declare dec_chunks.simps [simp del]

definition frame_dec :: "nc_version \<Rightarrow> bytes \<Rightarrow> frame_res option" where
  "frame_dec v xs = (case v of NC_VERSION_10 \<Rightarrow> dec10 xs | NC_VERSION_11 \<Rightarrow> dec_chunks None xs)"

text \<open>What the two readers return, in terms of the decoders.\<close>

definition read_refines ::
  "frame_res option \<Rightarrow> nc_session \<Rightarrow> wire \<Rightarrow> int \<Rightarrow> bytes \<Rightarrow> nc_session \<Rightarrow> wire \<Rightarrow> bool"
where
  "read_refines dec s w ret d s' w' \<longleftrightarrow>
     rd_frame w w' \<and> ret \<in> {1, -1, -2} \<and>
     (ret = 1 \<longrightarrow> s' = s \<and> (\<exists>m. dec = Some (Frame_ok m (rx w')) \<and> cstr d = cstr m) \<and> oob w' = oob w) \<and>
     (ret = -2 \<longrightarrow> s' = s \<and> dec = Some Frame_bad \<and> oob w' = oob w) \<and>
     (ret = -1 \<longrightarrow> s' = s \<or> (\<exists>t. s' = invalidate t s))"

lemma read_refines_trans:
  assumes "rd_frame w w1" and "oob w1 = oob w" and "read_refines dec s w1 ret d s' w'"
  shows "read_refines dec s w ret d s' w'"
  using assms rd_frame_trans unfolding read_refines_def by auto

lemma cstr_update_NUL: "i < length xs \<Longrightarrow> cstr (xs[i := NUL]) = cstr (take i xs)"
  unfolding cstr_def by (induction xs arbitrary: i) (auto split: nat.splits)

lemma read_10_spec:
  assumes "read_10 inact ts_act s w = Some (ret, d, s', w')" and "length (rx w) < 2 ^ 31"
  shows "read_refines (dec10 (rx w)) s w ret d s' w'"
proof -
  obtain r data w1 where rd: "nc_read_until s w NC_VERSION_10_ENDTAG 0 inact ts_act = Some (r, data, s', w1)"
    using assms(1) by (auto simp: read_10_def Let_def split: option.splits if_splits)
  note spec = nc_read_until_spec [OF rd endtag_props(1,2)]
  show ?thesis
  proof (cases "r = -1")
    case True
    then show ?thesis using assms(1) rd spec by (auto simp: read_10_def read_refines_def)
  next
    case False
    with spec have s: "rd_frame w w1" "oob w1 = oob w" "r = int (length data)" "s' = s"
      "tag_scan NC_VERSION_10_ENDTAG 0 [] (rx w) = Some (data, rx w1)" by auto
    obtain y where "data = y" "rx w = y @ rx w1" "6 \<le> length y"
      using tag_scan_split [OF s(5)] by auto
    then have len: "6 \<le> length data" "length data < 2 ^ 31" using assms(2) by auto
    then have r: "int32 r = r" using s(3) by (simp add: int32_of_nat)
    have "Some (ret, d, s', w') = Some (1, data[length data - 6 := NUL], s, w1)"
      using assms(1) rd r s(3,4) len by (simp add: read_10_def Let_def nat_diff_distrib)
    then show ?thesis
      using s len by (auto simp: read_refines_def dec10_def cstr_update_NUL)
  qed
qed

lemma read_chunks_spec:
  assumes "read_chunks inact ts_act data s w = Some (ret, d, s', w')"
    and "(case data of None \<Rightarrow> 0 | Some e \<Rightarrow> length e) + length (rx w) < 2 ^ 31"
  shows "read_refines (dec_chunks data (rx w)) s w ret d s' w'"
  using assms
proof (induction inact ts_act data s w rule: read_chunks.induct)
  case (1 inact ts_act data s w)
  note eq = read_chunks.simps [of inact ts_act data s w]
  obtain l s1 w1 where rl: "read_chunk_line inact ts_act s w = Some (l, s1, w1)"
    using "1.prems"(1) by (auto simp: eq split: option.splits)
  note sl = read_chunk_line_spec [OF rl]
  show ?case
  proof (cases l)
    case None
    then show ?thesis using "1.prems"(1) rl sl by (auto simp: eq read_refines_def)
  next
    case (Some line)
    let ?n = "strtoul line"
    let ?d = "case data of None \<Rightarrow> [] | Some d \<Rightarrow> d"
    have s1: "s1 = s" "chunk_line (rx w) = Some (line, rx w1)" "rd_frame w w1" "oob w1 = oob w"
      using sl Some by auto
    have len: "length (rx w1) < length (rx w)" using chunk_line_shorter [OF s1(2)] .
    note dec = dec_chunks.simps [of data "rx w", unfolded s1(2) Let_def, simplified]
    show ?thesis
    proof (cases "line = [CHR ''#'', LF] \<or> ?n = 0")
      case True
      then have "read_chunks inact ts_act data s w =
          (case data of Some e \<Rightarrow> if line = [CHR ''#'', LF] then Some (1, e, s1, w1) else Some (-2, [], s1, w1)
           | None \<Rightarrow> Some (-2, [], s1, w1))"
        using rl Some by (auto simp: eq Let_def split: option.split)
      moreover have "dec_chunks data (rx w) =
          (case data of Some e \<Rightarrow> if line = [CHR ''#'', LF] then Some (Frame_ok e (rx w1)) else Some Frame_bad
           | None \<Rightarrow> Some Frame_bad)"
        using True by (auto simp: dec split: option.split)
      ultimately show ?thesis
        using "1.prems"(1) s1 by (cases data) (auto simp: read_refines_def split: if_splits)
    next
      case False
      then obtain b s2 w2 where rb: "read_chunk_body inact ts_act ?n data s1 w1 = Some (b, s2, w2)"
        using "1.prems"(1) rl Some by (auto simp: eq Let_def split: option.splits)
      note sb = read_chunk_body_spec [OF rb]
      show ?thesis
      proof (cases b)
        case None
        then show ?thesis
          using "1.prems"(1) rl Some False rb sb s1 rd_frame_trans [of w w1 w2]
          by (auto simp: eq Let_def read_refines_def)
      next
        case (Some e)
        then have s2: "s2 = s" "?n \<le> length (rx w1)" "rx w2 = drop ?n (rx w1)" "e = ?d @ take ?n (rx w1)"
          "rd_frame w w2" "length e < 2 ^ 64 - 1 \<longrightarrow> oob w2 = oob w"
          using sb s1 False rd_frame_trans [of w w1 w2] by auto
        have le: "length e + length (rx w2) < 2 ^ 31"
          using "1.prems"(2) s2(2,3,4) len by (auto split: option.splits)
        have rec: "read_chunks inact ts_act (Some e) s2 w2 = Some (ret, d, s', w')"
          using "1.prems"(1) rl \<open>l = Some line\<close> False rb Some by (simp add: eq Let_def)
        have "read_refines (dec_chunks (Some e) (rx w2)) s2 w2 ret d s' w'"
          by (rule "1.IH" [OF rl refl \<open>l = Some line\<close> refl _ refl _ rb refl Some refl rec])
            (use False le in auto)
        moreover have "dec_chunks data (rx w) = dec_chunks (Some e) (rx w2)"
          using False s2 by (simp add: dec)
        ultimately show ?thesis
          using s2 le read_refines_trans [of w w2 _ s] by auto
      qed
    qed
  qed
qed

text \<open>
  The converse: when the decoder finds a message and the transport delivers the bytes, the
  readers return it. \<open>ready\<close> collects what the transport and the allocator must provide.
\<close>

definition ready :: "nc_session \<Rightarrow> wire \<Rightarrow> u32 \<Rightarrow> timespec \<Rightarrow> bool" where
  "ready s w inact ts_act \<longleftrightarrow> supplied s w inact ts_act (length (rx w)) \<and> (\<forall>n. can_alloc w n)"

lemma nc_read_until_ready:
  assumes "ready s w inact ts_act" and "tag_scan endtag 0 [] (rx w) = Some (res, rest)"
    and "endtag \<noteq> []" and "length endtag < BUFFERSIZE" and "length (rx w) < 2 ^ 31"
  obtains w' where "nc_read_until s w endtag 0 inact ts_act = Some (int (length res), res, s, w')"
    "int32 (int (length res)) = int (length res)" "rx w' = rest" "rd_frame w w'" "ready s w' inact ts_act"
proof -
  have rx: "rx w = res @ rest" using tag_scan_split [OF assms(2)] by auto
  obtain w' where w': "nc_read_until s w endtag 0 inact ts_act = Some (int (length res), res, s, w')"
    "rx w' = rest" "rd_frame w w'" "supplied s w' inact ts_act (length rest)"
    using nc_read_until_total [OF assms(2,3,4), of s inact ts_act "length rest"] assms(1)
    unfolding ready_def rx by auto
  then have "ready s w' inact ts_act" using assms(1) rd_frameD(7) unfolding ready_def by auto
  moreover have "length res < 2 ^ 31" using rx assms(5) by simp
  ultimately show thesis using that w' int32_of_nat by blast
qed

lemma read_10_total:
  assumes "ready s w inact ts_act" and "dec10 (rx w) = Some (Frame_ok m rest)" and "length (rx w) < 2 ^ 31"
  shows "\<exists>w' d. read_10 inact ts_act s w = Some (1, d, s, w')"
proof -
  obtain c where c: "tag_scan NC_VERSION_10_ENDTAG 0 [] (rx w) = Some (c, rest)"
    using assms(2) by (auto simp: dec10_def split: option.splits)
  obtain w' where "nc_read_until s w NC_VERSION_10_ENDTAG 0 inact ts_act = Some (int (length c), c, s, w')"
    "int32 (int (length c)) = int (length c)"
    using nc_read_until_ready [OF assms(1) c endtag_props(1,2) assms(3)] by blast
  then show ?thesis by (auto simp: read_10_def Let_def)
qed

lemma read_chunk_line_total:
  assumes "ready s w inact ts_act" and "chunk_line (rx w) = Some (line, rest)" and "length (rx w) < 2 ^ 31"
  shows "\<exists>w'. read_chunk_line inact ts_act s w = Some (Some line, s, w') \<and> rx w' = rest \<and> ready s w' inact ts_act"
proof -
  obtain c1 xs1 c2 where c: "tag_scan chunk_start_tag 0 [] (rx w) = Some (c1, xs1)"
    "tag_scan line_tag 0 [] xs1 = Some (c2, rest)" "line = cstr c2"
    using assms(2) by (auto simp: chunk_line_def split: option.splits)
  obtain w1 where w1: "nc_read_until s w chunk_start_tag 0 inact ts_act = Some (int (length c1), c1, s, w1)"
    "int32 (int (length c1)) = int (length c1)" "rx w1 = xs1" "ready s w1 inact ts_act"
    using nc_read_until_ready [OF assms(1) c(1) chunk_start_tag_props(1,2) assms(3)] by blast
  have "length (rx w1) < 2 ^ 31"
    using tag_scan_shorter [OF c(1) chunk_start_tag_props(1)] w1(3) assms(3) by simp
  then obtain w2 where "nc_read_until s w1 line_tag 0 inact ts_act = Some (int (length c2), c2, s, w2)"
    "int32 (int (length c2)) = int (length c2)" "rx w2 = rest" "ready s w2 inact ts_act"
    using nc_read_until_ready [OF w1(4) c(2) [folded w1(3)] line_tag_props(1,2)] by blast
  then show ?thesis using w1 c(3) by (auto simp: read_chunk_line_def)
qed

lemma read_chunk_body_total:
  assumes "ready s w inact ts_act" and "0 < n" and "n \<le> length (rx w)" and "length (rx w) < 2 ^ 31"
  shows "\<exists>w'. read_chunk_body inact ts_act n data s w
            = Some (Some ((case data of None \<Rightarrow> [] | Some d \<Rightarrow> d) @ take n (rx w)), s, w') \<and>
              rx w' = drop n (rx w) \<and> ready s w' inact ts_act"
proof -
  have "length (rx w) = n + (length (rx w) - n)" using assms(3) by simp
  then have "supplied s w inact ts_act (n + (length (rx w) - n))"
    using assms(1) unfolding ready_def by metis
  from nc_read_total [OF this assms(2,3)] obtain w' where
    w': "nc_read s w n (size_t (n + 1)) inact ts_act = Some (int n, take n (rx w), s, w')"
    "rx w' = drop n (rx w)" "rd_frame w w'" "supplied s w' inact ts_act (length (rx w) - n)" by blast
  have al: "\<And>k. can_alloc w k" "\<And>k. can_alloc w' k"
    using assms(1) rd_frameD(7) [OF w'(3)] unfolding ready_def by auto
  have "int32 (int n) = int n" using assms(3,4) by (intro int32_of_nat) linarith
  then have rd: "nc_read_chunk s w n inact ts_act = Some (int n, take n (rx w), s, w')" "int32 (int n) \<noteq> -1"
    using w'(1) al assms(2) by (simp_all add: nc_read_chunk_def Let_def)
  let ?d = "case data of None \<Rightarrow> [] | Some d \<Rightarrow> d"
  let ?w = "w'\<lparr>oob := (oob w' \<or> size_t (length ?d + n + 1) < length ?d + n + 1)\<rparr>"
  have "ready s ?w inact ts_act" using w' al assms(1) unfolding ready_def supplied_def by auto
  then show ?thesis
    using rd al w'(2) by (intro exI [of _ ?w]) (simp add: read_chunk_body_def Let_def)
qed

lemma read_chunks_total:
  assumes "dec_chunks data (rx w) = Some (Frame_ok m rest)" and "ready s w inact ts_act"
    and "length (rx w) < 2 ^ 31"
  shows "\<exists>w'. read_chunks inact ts_act data s w = Some (1, m, s, w')"
  using assms
proof (induction data "rx w" arbitrary: w rule: dec_chunks.induct)
  case (1 data w)
  note dec = dec_chunks.simps [of data "rx w"]
  obtain line xs1 where l: "chunk_line (rx w) = Some (line, xs1)"
    using "1.prems"(1) by (auto simp: dec split: option.splits)
  obtain w1 where w1: "read_chunk_line inact ts_act s w = Some (Some line, s, w1)" "rx w1 = xs1" "ready s w1 inact ts_act"
    using read_chunk_line_total [OF "1.prems"(2) l "1.prems"(3)] by blast
  have len: "length (rx w1) < 2 ^ 31" using chunk_line_shorter [OF l] w1(2) "1.prems"(3) by simp
  show ?case
  proof (cases "line = [CHR ''#'', LF]")
    case True
    then show ?thesis
      using "1.prems"(1) l w1 by (subst read_chunks.simps) (auto simp: dec split: option.splits)
  next
    case False
    let ?n = "strtoul line"
    let ?d = "case data of None \<Rightarrow> [] | Some d \<Rightarrow> d"
    have n: "?n \<noteq> 0" "\<not> length xs1 < ?n" "dec_chunks (Some (?d @ take ?n xs1)) (drop ?n xs1) = Some (Frame_ok m rest)"
      using "1.prems"(1) l False by (auto simp: dec Let_def split: if_splits)
    obtain w2 where w2: "read_chunk_body inact ts_act ?n data s w1 = Some (Some (?d @ take ?n xs1), s, w2)"
      "rx w2 = drop ?n xs1" "ready s w2 inact ts_act"
      using read_chunk_body_total [OF w1(3), of ?n data] n(1,2) len w1(2) by auto
    have "length (rx w2) < 2 ^ 31" using len w1(2) w2(2) by simp
    then have "\<exists>w'. read_chunks inact ts_act (Some (?d @ take ?n xs1)) s w2 = Some (1, m, s, w')"
      using "1.hyps" [OF l refl False refl n(1,2) w2(2) [symmetric]] n(3) w2 by simp
    then show ?thesis using w1 w2 False n by (subst read_chunks.simps) (auto simp: Let_def)
  qed
qed

section \<open>Decoding what was framed\<close>

text \<open>The two framings of RFC 6242: end-of-message tag, and chunks.\<close>

definition enc10 :: "bytes \<Rightarrow> bytes" where
  "enc10 m = m @ NC_VERSION_10_ENDTAG"

definition enc_chunk :: "bytes \<Rightarrow> bytes" where
  "enc_chunk c = [LF, CHR ''#''] @ dec_str (length c) @ [LF] @ c"

definition enc_end :: bytes where
  "enc_end = [LF, CHR ''#'', CHR ''#'', LF]"

lemma dec10_enc10:
  assumes "tag_clear NC_VERSION_10_ENDTAG m"
  shows "dec10 (enc10 m @ rest) = Some (Frame_ok m rest)"
  using tag_scan_clear [OF endtag_props(3,1) assms] by (simp add: dec10_def enc10_def)

lemma chunk_line_enc:
  assumes "LF \<notin> set d" and "NUL \<notin> set d"
  shows "chunk_line ([LF, CHR ''#''] @ d @ [LF] @ rest) = Some (d @ [LF], rest)"
proof -
  have "tag_clear chunk_start_tag []" by (simp add: tag_clear_def list_all_iff chunk_start_tag_def)
  from tag_scan_clear [OF chunk_start_tag_props(3,1) this, of "d @ [LF] @ rest"]
  have 1: "tag_scan chunk_start_tag 0 [] ([LF, CHR ''#''] @ d @ [LF] @ rest) = Some (chunk_start_tag, d @ [LF] @ rest)"
    by (simp add: chunk_start_tag_def)
  have "\<not> sublist [LF] d" using assms(1) by (auto simp: sublist_def)
  then have "tag_clear line_tag d" by (simp add: tag_clear_def line_tag_def)
  from tag_scan_clear [OF line_tag_props(3,1) this, of rest]
  have 2: "tag_scan line_tag 0 [] (d @ [LF] @ rest) = Some (d @ [LF], rest)" by (simp add: line_tag_def)
  have "NUL \<notin> set (d @ [LF])" using assms(2) by simp
  then show ?thesis unfolding chunk_line_def 1 by (simp add: 2 [simplified])
qed

lemma LF_not_digit: "\<not> isdigit LF" "\<not> isdigit NUL" "\<not> isdigit CHR ''#''"
  by (simp_all add: isdigit_def)

lemma dec_chunks_enc_chunk:
  assumes "c \<noteq> []" and "length c < 2 ^ 64"
  shows "dec_chunks data (enc_chunk c @ rest) =
         dec_chunks (Some ((case data of None \<Rightarrow> [] | Some d \<Rightarrow> d) @ c)) rest"
proof -
  have ds: "LF \<notin> set (dec_str (length c))" "NUL \<notin> set (dec_str (length c))" "CHR ''#'' \<notin> set (dec_str (length c))"
    using dec_str_digits LF_not_digit by blast+
  have ne: "dec_str (length c) @ [LF] \<noteq> [CHR ''#'', LF]"
    using ds(3) by (cases "dec_str (length c)") auto
  have line: "chunk_line (enc_chunk c @ rest) = Some (dec_str (length c) @ [LF], c @ rest)"
    using chunk_line_enc [OF ds(1,2), of "c @ rest"] by (simp add: enc_chunk_def)
  show ?thesis
    using ne strtoul_dec_str [OF assms(2) LF_not_digit(1), of "[]"] assms(1) line
    by (subst dec_chunks.simps) (simp add: Let_def)
qed

lemma dec_chunks_enc_end: "dec_chunks (Some d) (enc_end @ rest) = Some (Frame_ok d rest)"
proof -
  have "chunk_line (enc_end @ rest) = Some ([CHR ''#'', LF], rest)"
    using chunk_line_enc [of "[CHR ''#'']" rest] by (simp add: enc_end_def)
  then show ?thesis by (subst dec_chunks.simps) simp
qed

lemma dec_chunks_enc:
  assumes "\<forall>c \<in> set cs. c \<noteq> [] \<and> length c < 2 ^ 64"
  shows "dec_chunks (Some d) (concat (map enc_chunk cs) @ enc_end @ rest) = Some (Frame_ok (d @ concat cs) rest)"
  using assms
proof (induction cs arbitrary: d)
  case Nil
  then show ?case by (simp add: dec_chunks_enc_end)
next
  case (Cons c cs)
  then show ?case using dec_chunks_enc_chunk [of c "Some d" "concat (map enc_chunk cs) @ enc_end @ rest"] by simp
qed

lemma dec_chunks_enc_None:
  assumes "\<forall>c \<in> set cs. c \<noteq> [] \<and> length c < 2 ^ 64" and "cs \<noteq> []"
  shows "dec_chunks None (concat (map enc_chunk cs) @ enc_end @ rest) = Some (Frame_ok (concat cs) rest)"
proof (cases cs)
  case (Cons c cs')
  then show ?thesis
    using assms(1) dec_chunks_enc_chunk [of c None "concat (map enc_chunk cs') @ enc_end @ rest"]
      dec_chunks_enc [of cs' c rest] by simp
qed (use assms in simp)

section \<open>The contract of message reading\<close>

lemma read_body_spec:
  assumes "(case version s of NC_VERSION_10 \<Rightarrow> read_10 inact ts_act s w
            | NC_VERSION_11 \<Rightarrow> read_chunks inact ts_act None s w) = Some (ret, d, s', w')"
    and "length (rx w) < 2 ^ 31"
  shows "read_refines (frame_dec (version s) (rx w)) s w ret d s' w'"
  using assms read_10_spec read_chunks_spec [of inact ts_act None s w]
  by (cases "version s") (auto simp: frame_dec_def)

definition msg_contract ::
  "nc_session \<Rightarrow> bytes \<Rightarrow> bool \<Rightarrow> int \<Rightarrow> string option \<Rightarrow> nc_session \<Rightarrow> wire \<Rightarrow> bool"
where
  "msg_contract s stream ob ret msg s' w' \<longleftrightarrow>
     ret \<in> {-2, -1, 0, 1} \<and> (msg \<noteq> None \<longleftrightarrow> ret = 1) \<and>
     (ret = 1 \<longrightarrow> s' = s \<and> oob w' = ob \<and>
        (\<exists>m. frame_dec (version s) stream = Some (Frame_ok m (rx w')) \<and> msg = Some (cstr m))) \<and>
     (ret = -2 \<longrightarrow> frame_dec (version s) stream = Some Frame_bad) \<and>
     (s' = s \<or> (\<exists>t. s' = invalidate t s)) \<and> \<not> io_held w'"

lemma nc_read_msg_io_contract:
  assumes "nc_read_msg_io s w passing = Some (ret, msg, s', w')" and "length (rx w) < 2 ^ 31"
    and "passing \<or> \<not> io_held w"
  shows "msg_contract s (rx w) (oob w) ret msg s' w'"
proof (cases "live s")
  case False
  then show ?thesis using assms by (auto simp: nc_read_msg_io_def msg_contract_def split: if_splits)
next
  case True
  define ts where "ts = timespec_add_msec (mono_now w) NC_READ_ACT_TIMEOUT_MS"
  let ?body = "\<lambda>w0. case version s of NC_VERSION_10 \<Rightarrow> read_10 NC_READ_INACT_TIMEOUT_MS ts s w0
            | NC_VERSION_11 \<Rightarrow> read_chunks NC_READ_INACT_TIMEOUT_MS ts None s w0"
  obtain lr w0 where lk: "(if passing then Some (1, w) else io_lock w) = Some (lr, w0)"
    using assms(1) True by (auto simp: nc_read_msg_io_def Let_def split: option.splits)
  have lk': "rx w0 = rx w" "oob w0 = oob w" "lr \<in> {-1, 0, 1}" "lr < 1 \<Longrightarrow> io_held w0 = io_held w" "lr < 1 \<Longrightarrow> \<not> passing"
    using lk by (auto split: if_splits elim: io_lock_cases)
  show ?thesis
  proof (cases "lr < 1")
    case less: True
    then have "ret = lr" "msg = None" "s' = s" "w' = w0"
      using assms(1) True lk by (auto simp: nc_read_msg_io_def Let_def)
    then show ?thesis using less lk' assms(3) by (auto simp: msg_contract_def)
  next
    case False
    then obtain r d w1 where b: "?body w0 = Some (r, d, s', w1)"
      and res: "ret = (if r = 1 \<and> \<not> ly_in_ok w1 then -1 else r)" "w' = io_unlock w1"
        "msg = (if r = 1 \<and> ly_in_ok w1 then Some (cstr d) else None)"
      using assms(1) True lk unfolding nc_read_msg_io_def Let_def ts_def
      by (auto split: option.splits if_splits)
    have "read_refines (frame_dec (version s) (rx w)) s w0 r d s' w1"
      using read_body_spec [OF b] assms(2) lk'(1) by simp
    then show ?thesis using res lk'(2) by (auto simp: read_refines_def msg_contract_def)
  qed
qed

lemma nc_read_poll_spec:
  assumes "nc_read_poll s w = Some (r, s', w')"
  shows "(r = -1 \<and> (s' = s \<or> (\<exists>t. s' = invalidate t s)) \<or> 0 \<le> r \<and> s' = s) \<and>
         (\<exists>ps. w' = w\<lparr>poll_sched := ps\<rparr>)"
proof -
  have "\<exists>ps. w = w\<lparr>poll_sched := ps\<rparr>" by (rule exI [of _ "poll_sched w"]) simp
  then show ?thesis
    using assms unfolding nc_read_poll_def
    by (auto simp: Let_def split: if_splits list.splits nc_ti.splits ssh_poll.splits poll_res.splits)
qed

lemma nc_read_msg_poll_io_contract:
  assumes "nc_read_msg_poll_io s w = Some (ret, msg, s', w')" and "length (rx w) < 2 ^ 31"
    and "\<not> io_held w"
  shows "msg_contract s (rx w) (oob w) ret msg s' w'"
proof (cases "live s")
  case False
  then show ?thesis using assms by (auto simp: nc_read_msg_poll_io_def msg_contract_def)
next
  case True
  obtain lr w0 where lk: "io_lock w = Some (lr, w0)"
    using assms(1) True by (auto simp: nc_read_msg_poll_io_def split: option.splits)
  have lk': "rx w0 = rx w" "oob w0 = oob w" "lr \<in> {-1, 0, 1}" "lr < 1 \<Longrightarrow> io_held w0 = io_held w"
    using lk by (auto elim: io_lock_cases)
  show ?thesis
  proof (cases "lr < 1")
    case less: True
    then show ?thesis
      using assms True lk lk' by (auto simp: nc_read_msg_poll_io_def msg_contract_def)
  next
    case False
    then obtain pr s1 w1 where pl: "nc_read_poll s w0 = Some (pr, s1, w1)"
      using assms(1) True lk by (auto simp: nc_read_msg_poll_io_def split: option.splits)
    note ps = nc_read_poll_spec [OF pl]
    have rx: "rx w1 = rx w" "oob w1 = oob w" using ps lk' by auto
    show ?thesis
    proof (cases "pr < 1")
      case True
      then have "ret = pr" "msg = None" "s' = s1" "w' = io_unlock w1"
        using assms(1) \<open>live s\<close> lk False pl by (auto simp: nc_read_msg_poll_io_def)
      then show ?thesis using ps True by (auto simp: msg_contract_def)
    next
      case more: False
      have "nc_read_msg_io s1 w1 True = Some (ret, msg, s', w')"
        using assms(1) True lk False pl more by (simp add: nc_read_msg_poll_io_def)
      then show ?thesis
        using nc_read_msg_io_contract [of s1 w1 True ret msg s' w'] ps more rx assms(2) by auto
    qed
  qed
qed

text \<open>C2: soundness of message reception (\<^verbatim>\<open>nc_read_msg_poll_io\<close> down to the transport reads).
  Whatever the transport, the locks and the allocator do, a return has one of four codes;
  there is a message exactly with code 1, and then it is the one that the framing of the
  session's version delimits at the front of the stream, the rest of the stream is untouched,
  the session is unchanged and no buffer was overrun; code -2 means that the chunk framing
  was invalid; a session that changed was invalidated; the IO lock is not held on return.\<close>

theorem nc_read_msg_poll_io_sound:
  assumes "nc_read_msg_poll_io s w = Some (ret, msg, s', w')" and "length (rx w) < 2 ^ 31"
    and "\<not> io_held w"
  shows "ret \<in> {-2, -1, 0, 1} \<and> (msg \<noteq> None \<longleftrightarrow> ret = 1) \<and>
         (ret = 1 \<longrightarrow> s' = s \<and> oob w' = oob w \<and>
            (\<exists>m. frame_dec (version s) (rx w) = Some (Frame_ok m (rx w')) \<and> msg = Some (cstr m))) \<and>
         (ret = -2 \<longrightarrow> frame_dec (version s) (rx w) = Some Frame_bad) \<and>
         (s' = s \<or> (\<exists>t. s' = invalidate t s)) \<and> \<not> io_held w'"
  using nc_read_msg_poll_io_contract [OF assms] unfolding msg_contract_def .

text \<open>A running session over a file descriptor and a wire on which every call delivers, for
  the concrete instances.\<close>

definition demo_session :: "nc_version \<Rightarrow> nc_session" where
  "demo_session v = (the (nc_new_session True True NC_SERVER False))
     \<lparr>status := NC_STATUS_RUNNING, version := v, ti_type := NC_TI_FD\<rparr>"

definition demo_event :: "rd_raw \<times> timespec" where
  "demo_event = (\<lparr>rr = IO_count 3, rr_errno = EOTHER, rr_eof = False, rr_ssl = SSL_ERROR_UNKNOWN\<rparr>, Timespec 10 0)"

definition demo_wire :: "bytes \<Rightarrow> wire" where
  "demo_wire xs =
     \<lparr>rx = xs, rd_sched = replicate (length xs) demo_event, mono_now = Timespec 10 0, tx = [],
      wr_sched = replicate 64 \<lparr>wr = IO_count 7, wr_errno = EOTHER, wr_closed = False, wr_eof = False,
                               wr_ssl = SSL_ERROR_UNKNOWN\<rparr>,
      conn_sched = replicate 64 (Poll_ret 0 (Revents False False False False)), ssh_up = True, fd_valid = True,
      poll_sched = [\<lparr>pr_ssh = SSH_POLL_DATA, pr_pending = False,
                     pr_poll = Poll_ret 1 (Revents True False False False)\<rparr>],
      lock_sched = [LK_OK], io_held = False, can_alloc = (\<lambda>_. True), ly_in_ok = True, oob = False\<rparr>"

definition demo_stream :: bytes where
  "demo_stream = enc_chunk ''<rp'' @ enc_chunk ''c/>'' @ enc_end @ ''zz''"

lemma demo_read:
  "map_option (\<lambda>(ret, msg, _, w'). (ret, msg, rx w'))
     (nc_read_msg_poll_io (demo_session NC_VERSION_11) (demo_wire demo_stream)) = Some (1, Some ''<rpc/>'', ''zz'')"
  "length (rx (demo_wire demo_stream)) < 2 ^ 31" "\<not> io_held (demo_wire demo_stream)"
  by code_simp+

theorem nc_read_msg_poll_io_sound_witness:
  "\<exists>s' w'. nc_read_msg_poll_io (demo_session NC_VERSION_11) (demo_wire demo_stream)
              = Some (1, Some ''<rpc/>'', s', w') \<and> s' = demo_session NC_VERSION_11 \<and> \<not> io_held w'"
proof -
  obtain s' w' where r: "nc_read_msg_poll_io (demo_session NC_VERSION_11) (demo_wire demo_stream)
      = Some (1, Some ''<rpc/>'', s', w')"
    using demo_read(1) by auto
  show ?thesis using r nc_read_msg_poll_io_sound [OF r demo_read(2,3)] by auto
qed

lemma nc_read_msg_io_returns:
  assumes "frame_dec (version s) (rx w) = Some (Frame_ok m rest)" and "length (rx w) < 2 ^ 31"
    and "lock_sched w = LK_OK # lks" and "ly_in_ok w" and "\<forall>n. can_alloc w n"
    and "supplied s w NC_READ_INACT_TIMEOUT_MS (timespec_add_msec (mono_now w) NC_READ_ACT_TIMEOUT_MS) (length (rx w))"
  shows "\<exists>w'. nc_read_msg_io s w False = Some (1, Some (cstr m), s, w') \<and>
              rx w' = rest \<and> \<not> io_held w' \<and> oob w' = oob w"
proof -
  let ?ts = "timespec_add_msec (mono_now w) NC_READ_ACT_TIMEOUT_MS"
  let ?w0 = "w\<lparr>lock_sched := lks, io_held := True\<rparr>"
  have lk: "io_lock w = Some (1, ?w0)" using assms(3) by (simp add: io_lock_def nc_session_io_lock_def Let_def)
  have rdy: "ready s ?w0 NC_READ_INACT_TIMEOUT_MS ?ts" using assms(5,6) by (simp add: ready_def supplied_def)
  have "\<exists>d w1. (case version s of NC_VERSION_10 \<Rightarrow> read_10 NC_READ_INACT_TIMEOUT_MS ?ts s ?w0
            | NC_VERSION_11 \<Rightarrow> read_chunks NC_READ_INACT_TIMEOUT_MS ?ts None s ?w0) = Some (1, d, s, w1)"
    using assms(1,2) read_10_total [OF rdy] read_chunks_total [of None ?w0 m rest, OF _ rdy]
    by (cases "version s") (auto simp: frame_dec_def)
  then obtain d w1 where b: "(case version s of NC_VERSION_10 \<Rightarrow> read_10 NC_READ_INACT_TIMEOUT_MS ?ts s ?w0
            | NC_VERSION_11 \<Rightarrow> read_chunks NC_READ_INACT_TIMEOUT_MS ?ts None s ?w0) = Some (1, d, s, w1)" by blast
  have "read_refines (frame_dec (version s) (rx ?w0)) s ?w0 1 d s w1"
    using read_body_spec [OF b] assms(2) by simp
  then have r: "cstr d = cstr m" "rx w1 = rest" "ly_in_ok w1" "oob w1 = oob w"
    using assms(1,4) rd_frameD(10) [of ?w0 w1] by (auto simp: read_refines_def)
  have "live s" using assms(6) by (simp add: supplied_def)
  then have "nc_read_msg_io s w False = Some (1, Some (cstr m), s, io_unlock w1)"
    using lk b r by (simp add: nc_read_msg_io_def Let_def)
  then show ?thesis using r by simp
qed

text \<open>C7: completeness of message reading. When the stream starts with a complete message in
  the session's framing, the transport delivers data before the timeouts run out and no
  allocation fails, \<^verbatim>\<open>nc_read_msg_io\<close> returns that message, leaves the rest of the stream and
  the session as they were and releases the IO lock.\<close>

theorem nc_read_msg_io_complete:
  assumes "frame_dec (version s) (rx w) = Some (Frame_ok m rest)" and "length (rx w) < 2 ^ 31"
    and "lock_sched w = LK_OK # lks" and "ly_in_ok w" and "\<forall>n. can_alloc w n"
    and "supplied s w NC_READ_INACT_TIMEOUT_MS (timespec_add_msec (mono_now w) NC_READ_ACT_TIMEOUT_MS) (length (rx w))"
  shows "\<exists>w'. nc_read_msg_io s w False = Some (1, Some (cstr m), s, w') \<and>
              rx w' = rest \<and> \<not> io_held w' \<and> oob w' = oob w"
  using assms by (rule nc_read_msg_io_returns)

theorem nc_read_msg_io_complete_witness:
  "\<exists>w'. nc_read_msg_io (demo_session NC_VERSION_10) (demo_wire (enc10 ''<rpc/>'' @ ''zz'')) False
          = Some (1, Some ''<rpc/>'', demo_session NC_VERSION_10, w') \<and> rx w' = ''zz''"
proof -
  let ?w = "demo_wire (enc10 ''<rpc/>'' @ ''zz'')"
  let ?s = "demo_session NC_VERSION_10"
  have 1: "frame_dec (version ?s) (rx ?w) = Some (Frame_ok ''<rpc/>'' ''zz'')" by code_simp
  have 2: "length (rx ?w) < 2 ^ 31" by code_simp
  have 3: "lock_sched ?w = LK_OK # []" "ly_in_ok ?w" "\<forall>n. can_alloc ?w n" by (simp_all add: demo_wire_def)
  have 4: "supplied ?s ?w NC_READ_INACT_TIMEOUT_MS (timespec_add_msec (mono_now ?w) NC_READ_ACT_TIMEOUT_MS) (length (rx ?w))"
    by code_simp
  have "cstr ''<rpc/>'' = ''<rpc/>''" by code_simp
  then show ?thesis using nc_read_msg_io_complete [OF 1 2 3 4] by auto
qed


end
