(* ===== verification/NC_Write.thy ===== *)
theory NC_Write
  imports NC_ReadMsg
begin

text \<open>
  The writing half of \<^verbatim>\<open>io.c\<close>: \<^verbatim>\<open>nc_write\<close> hands a buffer to the transport,
  \<^verbatim>\<open>nc_write_starttag_and_msg\<close> and \<^verbatim>\<open>nc_write_endtag\<close> add the framing of the session's version,
  and \<^verbatim>\<open>nc_write_clb\<close> collects the pieces of a message in the 1024-byte buffer of a
  \<^verbatim>\<open>struct wclb_arg\<close>. The used part of that buffer is a byte list.
\<close>

section \<open>One transport write\<close>

datatype wr_out = Wr_fail "nc_term_reason option" | Wr_sent nat

text \<open>
  The \<^verbatim>\<open>switch (session->ti_type)\<close> of \<^verbatim>\<open>nc_write\<close> with \<open>req\<close> bytes left. A failure may or may not
  set the termination reason. \<^verbatim>\<open>ssh_channel_write\<close> is documented to return a count or
  \<^verbatim>\<open>SSH_ERROR\<close>.
\<close>

definition wr_count :: "wr_raw \<Rightarrow> nat \<Rightarrow> nat" where
  "wr_count raw req = (case wr raw of IO_count k \<Rightarrow> min (Suc k) req | _ \<Rightarrow> 0)"

definition write_call :: "nc_ti \<Rightarrow> wr_raw \<Rightarrow> nat \<Rightarrow> wr_out" where
  "write_call ti raw req =
     (let n = wr_count raw req; neg = (wr raw = IO_error \<or> wr raw = IO_again) in
      case ti of
        NC_TI_NONE \<Rightarrow> Wr_fail None
      | NC_TI_LIBSSH \<Rightarrow>
          (if wr_closed raw \<or> wr_eof raw then Wr_fail (Some NC_SESSION_TERM_DROPPED)
           else if neg then Wr_fail None
           else Wr_sent n)
      | NC_TI_OPENSSL \<Rightarrow>
          (if n < 1 then
             (case wr_ssl raw of
                SSL_ERROR_ZERO_RETURN \<Rightarrow> Wr_fail None
              | SSL_ERROR_WANT_WRITE \<Rightarrow> Wr_sent 0
              | SSL_ERROR_WANT_READ \<Rightarrow> Wr_sent 0
              | SSL_ERROR_SYSCALL \<Rightarrow> Wr_fail None
              | SSL_ERROR_SSL \<Rightarrow> Wr_fail None
              | SSL_ERROR_UNKNOWN \<Rightarrow> Wr_fail None)
           else Wr_sent n)
      | _ \<Rightarrow> \<comment> \<open>file descriptor or UNIX socket\<close>
          (if neg then
             (case wr_errno raw of EAGAIN \<Rightarrow> Wr_sent 0 | EINTR \<Rightarrow> Wr_sent 0 | EOTHER \<Rightarrow> Wr_fail None)
           else Wr_sent n))"

section \<open>Writing a buffer\<close>

text \<open>The \<^verbatim>\<open>do ... while\<close> loop of \<^verbatim>\<open>nc_write\<close>: \<open>rest\<close> is what is not written yet, \<open>written\<close> the
  number of bytes written. The byte count is returned as an \<^verbatim>\<open>int\<close>.\<close>

fun nc_write_loop ::
  "nat \<Rightarrow> bytes \<Rightarrow> wr_raw list \<Rightarrow> nc_session \<Rightarrow> wire \<Rightarrow> (int \<times> nc_session \<times> wire) option"
where
  "nc_write_loop written rest [] s w = None"
| "nc_write_loop written rest (raw # evs) s w =
     (let w1 = w\<lparr>wr_sched := evs\<rparr> in
      case write_call (ti_type s) raw (length rest) of
        Wr_fail t \<Rightarrow> Some (-1, (case t of None \<Rightarrow> s | Some r \<Rightarrow> invalidate r s), w1)
      | Wr_sent n \<Rightarrow>
          let w2 = w1\<lparr>tx := tx w @ take n rest\<rparr>
          in if n < length rest then nc_write_loop (written + n) (drop n rest) evs s w2
             else Some (int32 (int (written + n)), s, w2))"

definition nc_write :: "nc_session \<Rightarrow> wire \<Rightarrow> bytes \<Rightarrow> (int \<times> nc_session \<times> wire) option" where
  "nc_write s w buf =
     (if \<not> live s then Some (-1, s, w)
      else case nc_session_is_connected s w of None \<Rightarrow> None
        | Some (c, w1) \<Rightarrow>
            if \<not> c then Some (-1, invalidate NC_SESSION_TERM_DROPPED s, w1)
            else nc_write_loop 0 buf (wr_sched w1) s w1)"

section \<open>Framing\<close>

text \<open>\<^verbatim>\<open>char chunksize[24]\<close> holds the printed header and its NUL.\<close>

definition chunk_header :: "nat \<Rightarrow> bytes" where
  "chunk_header n = [LF, CHR ''#''] @ dec_str n @ [LF]"

definition nc_write_starttag_and_msg ::
  "nc_session \<Rightarrow> wire \<Rightarrow> bytes \<Rightarrow> (int \<times> nc_session \<times> wire) option"
where
  "nc_write_starttag_and_msg s w buf =
     (let write_buf = (\<lambda>ret s1 w1.
        case nc_write s1 w1 buf of None \<Rightarrow> None
        | Some (c, s2, w2) \<Rightarrow> if c = -1 then Some (-1, s2, w2) else Some (ret + c, s2, w2))
      in if version s = NC_VERSION_11 then
           (let hdr = chunk_header (length buf) in
            case nc_write s (w\<lparr>oob := (oob w \<or> 24 < length hdr + 1)\<rparr>) hdr of None \<Rightarrow> None
            | Some (r, s1, w1) \<Rightarrow> if r = -1 then Some (-1, s1, w1) else write_buf r s1 w1)
         else write_buf 0 s w)"

definition nc_write_endtag :: "nc_session \<Rightarrow> wire \<Rightarrow> (int \<times> nc_session \<times> wire) option" where
  "nc_write_endtag s w =
     (if version s = NC_VERSION_11 then nc_write s w [LF, CHR ''#'', CHR ''#'', LF]
      else nc_write s w '']]>]]>'')"

section \<open>The write buffer\<close>

definition WRITE_BUFSIZE :: nat where "WRITE_BUFSIZE = 2 * BUFFERSIZE"

definition nc_write_clb_flush ::
  "bytes \<Rightarrow> nc_session \<Rightarrow> wire \<Rightarrow> (int \<times> bytes \<times> nc_session \<times> wire) option"
where
  "nc_write_clb_flush warg s w =
     (if warg = [] then Some (0, [], s, w)
      else case nc_write_starttag_and_msg s w warg of None \<Rightarrow> None
        | Some (r, s', w') \<Rightarrow> Some (r, [], s', w'))"

text \<open>Appending to the buffer; a write past its end is recorded.\<close>

definition warg_put :: "bytes \<Rightarrow> bytes \<Rightarrow> wire \<Rightarrow> bytes \<times> wire" where
  "warg_put warg b w = (warg @ b, w\<lparr>oob := (oob w \<or> WRITE_BUFSIZE < length warg + length b)\<rparr>)"

definition xml_escape :: "char \<Rightarrow> bytes" where
  "xml_escape c =
     (if c = CHR ''&'' then ''&amp;'' else if c = CHR ''<'' then ''&lt;''
      else if c = CHR ''>'' then ''&gt;'' else [c])"

fun clb_xml_loop ::
  "int \<Rightarrow> bytes \<Rightarrow> bytes \<Rightarrow> nc_session \<Rightarrow> wire \<Rightarrow> (int \<times> bytes \<times> nc_session \<times> wire) option"
where
  "clb_xml_loop ret warg [] s w = Some (ret, warg, s, w)"
| "clb_xml_loop ret warg (c # cs) s w =
     (case (if WRITE_BUFSIZE \<le> length warg + 5 then nc_write_clb_flush warg s w
            else Some (0, warg, s, w)) of None \<Rightarrow> None
      | Some (r, warg1, s1, w1) \<Rightarrow>
          if r = -1 then Some (-1, warg1, s1, w1)
          else let (warg2, w2) = warg_put warg1 (xml_escape c) w1
               in clb_xml_loop (ret + int (length (xml_escape c))) warg2 cs s1 w2)"

text \<open>\<^verbatim>\<open>nc_write_clb\<close>; \<open>None\<close> for \<^verbatim>\<open>buf\<close> ends the message.\<close>

definition nc_write_clb ::
  "bytes \<Rightarrow> bytes option \<Rightarrow> bool \<Rightarrow> nc_session \<Rightarrow> wire \<Rightarrow> (int \<times> bytes \<times> nc_session \<times> wire) option"
where
  "nc_write_clb warg bufo xmlcontent s w =
     (case bufo of
        None \<Rightarrow>
          (case nc_write_clb_flush warg s w of None \<Rightarrow> None
           | Some (c, warg1, s1, w1) \<Rightarrow>
               if c = -1 then Some (-1, warg1, s1, w1)
               else case nc_write_endtag s1 w1 of None \<Rightarrow> None
                 | Some (c2, s2, w2) \<Rightarrow>
                     if c2 = -1 then Some (-1, warg1, s2, w2) else Some (c + c2, warg1, s2, w2))
      | Some buf \<Rightarrow>
          (case (if warg \<noteq> [] \<and> WRITE_BUFSIZE < length warg + length buf
                 then nc_write_clb_flush warg s w else Some (0, warg, s, w)) of None \<Rightarrow> None
           | Some (c, warg1, s1, w1) \<Rightarrow>
               if c = -1 then Some (-1, warg1, s1, w1)
               else if \<not> xmlcontent \<and> WRITE_BUFSIZE < length buf
               then (case nc_write_starttag_and_msg s1 w1 buf of None \<Rightarrow> None
                     | Some (c2, s2, w2) \<Rightarrow>
                         if c2 = -1 then Some (-1, warg1, s2, w2) else Some (c + c2, warg1, s2, w2))
               else if xmlcontent then clb_xml_loop c warg1 buf s1 w1
               else let (warg2, w2) = warg_put warg1 buf w1
                    in Some (c + int (length buf), warg2, s1, w2)))"

definition nc_write_xmlclb ::
  "bytes \<Rightarrow> bytes \<Rightarrow> nc_session \<Rightarrow> wire \<Rightarrow> (int \<times> bytes \<times> nc_session \<times> wire) option"
where
  "nc_write_xmlclb warg buf s w =
     (case nc_write_clb warg (Some buf) False s w of None \<Rightarrow> None
      | Some (r, warg', s', w') \<Rightarrow> Some (if r = -1 then -1 else int (length buf), warg', s', w'))"

section \<open>What a write does\<close>

definition wr_frame :: "wire \<Rightarrow> wire \<Rightarrow> bool" where
  "wr_frame w w' \<longleftrightarrow>
     w' = w\<lparr>tx := tx w', wr_sched := wr_sched w', conn_sched := conn_sched w', oob := oob w'\<rparr>"

lemma wr_frame_refl [simp]: "wr_frame w w"
  by (simp add: wr_frame_def)

lemma wr_frame_upd [simp]:
  "wr_frame w (w\<lparr>tx := t\<rparr>)" "wr_frame w (w\<lparr>wr_sched := ws\<rparr>)" "wr_frame w (w\<lparr>conn_sched := c\<rparr>)"
  "wr_frame w (w\<lparr>oob := b\<rparr>)"
  by (simp_all add: wr_frame_def)

lemma wr_frame_trans [trans]: "wr_frame w w' \<Longrightarrow> wr_frame w' w'' \<Longrightarrow> wr_frame w w''"
  unfolding wr_frame_def by (cases w, cases w', cases w'') simp

lemma wr_frameD:
  assumes "wr_frame w w'"
  shows "rx w' = rx w" "rd_sched w' = rd_sched w" "mono_now w' = mono_now w"
    "poll_sched w' = poll_sched w" "lock_sched w' = lock_sched w" "io_held w' = io_held w"
    "can_alloc w' = can_alloc w" "ssh_up w' = ssh_up w" "fd_valid w' = fd_valid w"
  using assms unfolding wr_frame_def by (cases w, cases w', simp)+

text \<open>
  \<open>wr_post s w out r s' w'\<close>: either all of \<open>out\<close> was handed to the transport and the session
  is unchanged, or the call failed after a beginning of \<open>out\<close>; only a closed transport
  changes the session.
\<close>

definition wr_post :: "nc_session \<Rightarrow> wire \<Rightarrow> bytes \<Rightarrow> int \<Rightarrow> nc_session \<Rightarrow> wire \<Rightarrow> bool" where
  "wr_post s w out r s' w' \<longleftrightarrow>
     wr_frame w w' \<and> oob w' = oob w \<and>
     (0 \<le> r \<and> s' = s \<and> tx w' = tx w @ out \<or>
      r = -1 \<and> (s' = s \<or> s' = invalidate NC_SESSION_TERM_DROPPED s) \<and> (\<exists>k. tx w' = tx w @ take k out))"

lemma wr_post_seq:
  assumes "wr_post s w o1 r1 s1 w1" and "r1 \<noteq> -1" and "wr_post s1 w1 o2 r2 s2 w2"
  shows "wr_post s w (o1 @ o2) (if r2 = -1 then -1 else r1 + r2) s2 w2"
proof -
  have fr: "wr_frame w w2" "oob w2 = oob w" using assms wr_frame_trans unfolding wr_post_def by auto
  have 1: "0 \<le> r1" "s1 = s" "tx w1 = tx w @ o1" using assms(1,2) unfolding wr_post_def by auto
  have "\<exists>k. tx w @ o1 @ take j o2 = tx w @ take k (o1 @ o2)" for j
    by (rule exI [of _ "length o1 + j"]) simp
  then show ?thesis using assms(3) fr 1 unfolding wr_post_def by auto
qed

lemma wr_post_fail:
  assumes "wr_post s w o1 (-1) s1 w1"
  shows "wr_post s w (o1 @ o2) (-1) s1 w1"
proof -
  have "\<exists>k. take j o1 = take k (o1 @ o2)" for j
    by (rule exI [of _ "min j (length o1)"]) (simp add: min_def)
  then show ?thesis using assms unfolding wr_post_def by auto
qed

lemma write_call_sent: "write_call ti raw req = Wr_sent n \<Longrightarrow> n \<le> req"
  by (auto simp: write_call_def wr_count_def Let_def
      split: nc_ti.splits io_ret.splits if_splits ssl_err.splits errno.splits)

lemma write_call_reason: "write_call ti raw req = Wr_fail (Some t) \<Longrightarrow> t = NC_SESSION_TERM_DROPPED"
  by (auto simp: write_call_def Let_def split: nc_ti.splits if_splits ssl_err.splits errno.splits)

lemma nc_write_loop_spec:
  assumes "nc_write_loop written rest evs s w = Some (r, s', w')" and "written + length rest < 2 ^ 31"
  shows "wr_post s w rest r s' w'"
  using assms
proof (induction written rest evs s w rule: nc_write_loop.induct)
  case (1 written rest s w)
  then show ?case by simp
next
  case (2 written rest raw evs s w)
  let ?w1 = "w\<lparr>wr_sched := evs\<rparr>"
  have fr: "wr_frame w ?w1" "wr_frame w (?w1\<lparr>tx := t\<rparr>)" for t by (simp_all add: wr_frame_def)
  show ?case
  proof (cases "write_call (ti_type s) raw (length rest)")
    case (Wr_fail t)
    have k0: "\<exists>k. tx w = tx w @ take k rest" by (rule exI [of _ 0]) simp
    then show ?thesis
      using Wr_fail "2.prems"(1) write_call_reason [of "ti_type s" raw "length rest"] fr(1)
      by (cases t) (auto simp: wr_post_def)
  next
    case (Wr_sent n)
    note n = write_call_sent [OF Wr_sent]
    let ?w2 = "?w1\<lparr>tx := tx w @ take n rest\<rparr>"
    show ?thesis
    proof (cases "n < length rest")
      case True
      then have "nc_write_loop (written + n) (drop n rest) evs s ?w2 = Some (r, s', w')"
        using "2.prems"(1) Wr_sent by (simp add: Let_def)
      then have rec: "wr_post s ?w2 (drop n rest) r s' w'"
        using "2.prems"(2) True by (intro "2.IH" [OF refl Wr_sent refl True]) auto
      have "\<exists>k. take n rest @ take j (drop n rest) = take k rest" for j
        by (rule exI [of _ "n + j"]) (simp add: take_add)
      then show ?thesis
        using rec wr_frame_trans [OF fr(2)] unfolding wr_post_def by fastforce
    next
      case False
      with n have "n = length rest" by simp
      then have "r = int (written + length rest)" "s' = s" "w' = ?w2"
        using "2.prems" Wr_sent int32_of_nat [OF "2.prems"(2)] by (auto simp: Let_def)
      then show ?thesis using \<open>n = length rest\<close> fr(2) by (simp add: wr_post_def)
    qed
  qed
qed

lemma nc_write_spec:
  assumes "nc_write s w buf = Some (r, s', w')" and "length buf < 2 ^ 31"
  shows "wr_post s w buf r s' w'"
proof (cases "live s")
  case False
  then show ?thesis using assms(1) by (auto simp: nc_write_def wr_post_def intro: exI [of _ 0])
next
  case True
  then obtain c w1 where c: "nc_session_is_connected s w = Some (c, w1)"
    using assms(1) by (auto simp: nc_write_def split: option.splits)
  obtain ps where w1: "w1 = w\<lparr>conn_sched := ps\<rparr>" using nc_session_is_connected_frame [OF c] by blast
  show ?thesis
  proof (cases c)
    case False
    then show ?thesis
      using assms(1) True c w1 by (auto simp: nc_write_def wr_post_def intro: exI [of _ 0])
  next
    case ok: True
    then have "nc_write_loop 0 buf (wr_sched w1) s w1 = Some (r, s', w')"
      using assms(1) True c by (simp add: nc_write_def)
    then have "wr_post s w1 buf r s' w'" using nc_write_loop_spec assms(2) by simp
    then show ?thesis
      using w1 wr_frame_trans [OF wr_frame_upd(3)] by (auto simp: wr_post_def)
  qed
qed

section \<open>What the framing adds\<close>

text \<open>One buffer as the framing of a version puts it on the wire, and the end of a message.\<close>

definition frame1 :: "nc_version \<Rightarrow> bytes \<Rightarrow> bytes" where
  "frame1 v b = (case v of NC_VERSION_10 \<Rightarrow> b | NC_VERSION_11 \<Rightarrow> enc_chunk b)"

definition frame_end :: "nc_version \<Rightarrow> bytes" where
  "frame_end v = (case v of NC_VERSION_10 \<Rightarrow> NC_VERSION_10_ENDTAG | NC_VERSION_11 \<Rightarrow> enc_end)"

lemma length_dec_str: "n < 10 ^ Suc k \<Longrightarrow> length (dec_str n) \<le> Suc k"
proof (induction k arbitrary: n)
  case 0
  then show ?case by (subst dec_str.simps) simp
next
  case (Suc k)
  show ?case
  proof (cases "n < 10")
    case True
    then show ?thesis by (subst dec_str.simps) simp
  next
    case False
    have "n div 10 < 10 ^ Suc k" using Suc.prems by (simp add: less_mult_imp_div_less)
    with Suc.IH False show ?thesis by (subst dec_str.simps) simp
  qed
qed

text \<open>A chunk header always fits \<^verbatim>\<open>char chunksize[24]\<close>.\<close>

lemma chunk_header_fits:
  assumes "n < 2 ^ 64"
  shows "length (chunk_header n) + 1 \<le> 24"
proof -
  have "n < 10 ^ Suc 19" using assms by simp
  from length_dec_str [OF this] show ?thesis by (simp add: chunk_header_def)
qed

lemma nc_write_starttag_and_msg_spec:
  assumes "nc_write_starttag_and_msg s w buf = Some (r, s', w')" and "length buf < 2 ^ 31"
  shows "wr_post s w (frame1 (version s) buf) r s' w'"
proof (cases "version s")
  case NC_VERSION_10
  then obtain c where "nc_write s w buf = Some (c, s', w')" "r = (if c = -1 then -1 else c)"
    using assms(1) by (auto simp: nc_write_starttag_and_msg_def Let_def split: option.splits if_splits)
  then show ?thesis using nc_write_spec [of s w buf c s' w'] assms(2) NC_VERSION_10
    by (auto simp: frame1_def split: if_splits)
next
  case NC_VERSION_11
  let ?h = "chunk_header (length buf)"
  have fits: "(oob w \<or> 24 < length ?h + 1) = oob w" "length ?h < 2 ^ 31"
    using chunk_header_fits [of "length buf"] assms(2) by auto
  have "w\<lparr>oob := (oob w \<or> 24 < length ?h + 1)\<rparr> = w" unfolding fits(1) by simp
  then have eq: "nc_write_starttag_and_msg s w buf =
      (case nc_write s w ?h of None \<Rightarrow> None
       | Some (r, s1, w1) \<Rightarrow> if r = -1 then Some (-1, s1, w1)
           else case nc_write s1 w1 buf of None \<Rightarrow> None
             | Some (c, s2, w2) \<Rightarrow> if c = -1 then Some (-1, s2, w2) else Some (r + c, s2, w2))"
    unfolding nc_write_starttag_and_msg_def Let_def by (simp only: NC_VERSION_11 if_True refl)
  obtain r1 s1 w1 where 1: "nc_write s w ?h = Some (r1, s1, w1)"
    using assms(1) by (auto simp: eq split: option.splits)
  note p1 = nc_write_spec [OF 1 fits(2)]
  have enc: "frame1 (version s) buf = ?h @ buf"
    using NC_VERSION_11 by (simp add: frame1_def enc_chunk_def chunk_header_def)
  show ?thesis
  proof (cases "r1 = -1")
    case True
    then show ?thesis using assms(1) 1 p1 wr_post_fail unfolding enc by (auto simp: eq)
  next
    case False
    then obtain c where 2: "nc_write s1 w1 buf = Some (c, s', w')" "r = (if c = -1 then -1 else r1 + c)"
      using assms(1) 1 by (auto simp: eq split: option.splits if_splits)
    show ?thesis
      unfolding enc 2(2) by (rule wr_post_seq [OF p1 False nc_write_spec [OF 2(1) assms(2)]])
  qed
qed

lemma nc_write_endtag_spec:
  assumes "nc_write_endtag s w = Some (r, s', w')"
  shows "wr_post s w (frame_end (version s)) r s' w'"
  using assms nc_write_spec [of s w "frame_end (version s)" r s' w']
  by (cases "version s") (auto simp: nc_write_endtag_def frame_end_def enc_end_def NC_VERSION_10_ENDTAG_def)

text \<open>
  \<open>clb_post\<close>: how a step of the write callback moves data from the buffer \<open>warg\<close> and its input
  to the transport: what has been framed so far followed by the new buffer is the old buffer
  followed by the input, each framed piece is non-empty, and the buffer stays within bounds.
\<close>

definition clb_post ::
  "nc_session \<Rightarrow> wire \<Rightarrow> bytes \<Rightarrow> bytes \<Rightarrow> int \<Rightarrow> bytes \<Rightarrow> nc_session \<Rightarrow> wire \<Rightarrow> bool"
where
  "clb_post s w warg data r warg' s' w' \<longleftrightarrow>
     wr_frame w w' \<and> oob w' = oob w \<and> length warg' \<le> WRITE_BUFSIZE \<and>
     (if r = -1 then s' = s \<or> s' = invalidate NC_SESSION_TERM_DROPPED s
      else 0 \<le> r \<and> s' = s \<and>
        (\<exists>cs. (\<forall>c \<in> set cs. c \<noteq> [] \<and> length c < 2 ^ 31) \<and> concat cs @ warg' = warg @ data \<and>
              tx w' = tx w @ concat (map (frame1 (version s)) cs)))"

lemma clb_post_nil: "0 \<le> r \<Longrightarrow> length warg \<le> WRITE_BUFSIZE \<Longrightarrow> clb_post s w warg [] r warg s w"
  by (simp add: clb_post_def exI [of _ "[]"])

lemma clb_post_seq:
  assumes "clb_post s w warg d1 r1 warg1 s1 w1" and "r1 \<noteq> -1"
    and "clb_post s1 w1 warg1 d2 r2 warg2 s2 w2" and "r = -1 \<longleftrightarrow> r2 = -1" and "r2 \<noteq> -1 \<Longrightarrow> 0 \<le> r"
  shows "clb_post s w warg (d1 @ d2) r warg2 s2 w2"
proof -
  have s1: "s1 = s" using assms(1,2) by (simp add: clb_post_def)
  have fr: "wr_frame w w2" "oob w2 = oob w" "length warg2 \<le> WRITE_BUFSIZE"
    using assms(1,3) wr_frame_trans unfolding clb_post_def by auto
  show ?thesis
  proof (cases "r2 = -1")
    case True
    then show ?thesis using assms(3,4) fr s1 unfolding clb_post_def by auto
  next
    case False
    obtain cs1 where 1: "\<forall>c \<in> set cs1. c \<noteq> [] \<and> length c < 2 ^ 31" "concat cs1 @ warg1 = warg @ d1"
      "tx w1 = tx w @ concat (map (frame1 (version s)) cs1)"
      using assms(1,2) unfolding clb_post_def by auto
    obtain cs2 where 2: "\<forall>c \<in> set cs2. c \<noteq> [] \<and> length c < 2 ^ 31" "concat cs2 @ warg2 = warg1 @ d2"
      "tx w2 = tx w1 @ concat (map (frame1 (version s)) cs2)" "s2 = s"
      using assms(3) False s1 unfolding clb_post_def by auto
    have "concat (cs1 @ cs2) @ warg2 = warg @ d1 @ d2"
      using 1(2) 2(2) by (metis append.assoc concat_append)
    then show ?thesis
      using False assms(4,5) fr 1 2 unfolding clb_post_def
      by (auto intro!: exI [of _ "cs1 @ cs2"])
  qed
qed

lemma nc_write_clb_flush_spec:
  assumes "nc_write_clb_flush warg s w = Some (r, warg', s', w')" and "length warg \<le> WRITE_BUFSIZE"
  shows "warg' = [] \<and> clb_post s w warg [] r warg' s' w'"
proof (cases "warg = []")
  case True
  then show ?thesis using assms clb_post_nil by (auto simp: nc_write_clb_flush_def)
next
  case False
  have "length warg < 2 ^ 31" using assms(2) by (simp add: WRITE_BUFSIZE_def BUFFERSIZE_def)
  moreover have "nc_write_starttag_and_msg s w warg = Some (r, s', w')" "warg' = []"
    using assms(1) False by (auto simp: nc_write_clb_flush_def split: option.splits)
  ultimately show ?thesis
    using nc_write_starttag_and_msg_spec [of s w warg r s' w'] False
    by (auto simp: wr_post_def clb_post_def intro!: exI [of _ "[warg]"])
qed

lemma warg_put_spec:
  assumes "warg_put warg b w = (warg', w')" and "length warg + length b \<le> WRITE_BUFSIZE" and "0 \<le> r"
  shows "w' = w \<and> clb_post s w warg b r warg' s w'"
proof -
  have "w' = w" "warg' = warg @ b" using assms(1,2) by (auto simp: warg_put_def)
  then show ?thesis using assms(2,3) by (simp add: clb_post_def exI [of _ "[]"])
qed

lemma length_xml_escape: "length (xml_escape c) \<le> 5"
  by (simp add: xml_escape_def)

lemma clb_xml_loop_spec:
  assumes "clb_xml_loop ret warg cs s w = Some (r, warg', s', w')"
    and "length warg \<le> WRITE_BUFSIZE" and "0 \<le> ret"
  shows "clb_post s w warg (concat (map xml_escape cs)) r warg' s' w'"
  using assms
proof (induction ret warg cs s w rule: clb_xml_loop.induct)
  case (1 ret warg s w)
  then show ?case using clb_post_nil by auto
next
  case (2 ret warg c cs s w)
  let ?fl = "if WRITE_BUFSIZE \<le> length warg + 5 then nc_write_clb_flush warg s w else Some (0, warg, s, w)"
  obtain r1 warg1 s1 w1 where fl: "?fl = Some (r1, warg1, s1, w1)"
    using "2.prems"(1) by (auto split: option.splits)
  have p1: "clb_post s w warg [] r1 warg1 s1 w1" "length warg1 + 5 \<le> WRITE_BUFSIZE"
    using fl nc_write_clb_flush_spec [of warg s w r1 warg1 s1 w1] "2.prems"(2) clb_post_nil [of r1 warg s w]
    by (auto simp: WRITE_BUFSIZE_def BUFFERSIZE_def split: if_splits)
  show ?case
  proof (cases "r1 = -1")
    case True
    then have "r = -1" "warg' = warg1" "s' = s1" "w' = w1" using "2.prems"(1) fl by auto
    then show ?thesis using p1(1) True unfolding clb_post_def by simp
  next
    case False
    obtain warg2 w2 where put: "warg_put warg1 (xml_escape c) w1 = (warg2, w2)" by fastforce
    let ?r = "ret + int (length (xml_escape c))"
    have p2: "clb_post s1 w1 warg1 (xml_escape c) ?r warg2 s1 w2"
      using warg_put_spec [OF put, of ?r s1] p1(2) length_xml_escape [of c] "2.prems"(3) by auto
    have rec: "clb_xml_loop ?r warg2 cs s1 w2 = Some (r, warg', s', w')"
      using "2.prems"(1) fl False put by simp
    have p3: "clb_post s1 w2 warg2 (concat (map xml_escape cs)) r warg' s' w'"
      by (rule "2.IH" [OF fl refl refl refl False put [symmetric] refl rec])
        (use p2 "2.prems"(3) in \<open>auto simp: clb_post_def\<close>)
    have r: "r \<noteq> -1 \<Longrightarrow> 0 \<le> r" using p3 by (simp add: clb_post_def split: if_splits)
    have "?r \<noteq> -1" using "2.prems"(3) by linarith
    from clb_post_seq [OF p2 this p3 refl r]
    have "clb_post s1 w1 warg1 (xml_escape c @ concat (map xml_escape cs)) r warg' s' w'" by simp
    from clb_post_seq [OF p1(1) False this refl r] show ?thesis by simp
  qed
qed

definition clb_input :: "bool \<Rightarrow> bytes \<Rightarrow> bytes" where
  "clb_input xmlcontent buf = (if xmlcontent then concat (map xml_escape buf) else buf)"

lemma nc_write_clb_spec:
  assumes "nc_write_clb warg (Some buf) xmlcontent s w = Some (r, warg', s', w')"
    and "length warg \<le> WRITE_BUFSIZE" and "length buf < 2 ^ 31"
  shows "clb_post s w warg (clb_input xmlcontent buf) r warg' s' w'"
proof -
  let ?fl = "if warg \<noteq> [] \<and> WRITE_BUFSIZE < length warg + length buf
             then nc_write_clb_flush warg s w else Some (0, warg, s, w)"
  obtain c warg1 s1 w1 where fl: "?fl = Some (c, warg1, s1, w1)"
    using assms(1) unfolding nc_write_clb_def by (auto split: option.splits)
  have p1: "clb_post s w warg [] c warg1 s1 w1"
    and small: "length warg1 + length buf \<le> WRITE_BUFSIZE \<or> warg1 = []"
    using fl nc_write_clb_flush_spec [of warg s w c warg1 s1 w1] assms(2) clb_post_nil [of c warg s w]
    by (auto split: if_splits)
  note res = assms(1) [unfolded nc_write_clb_def, simplified, unfolded fl [simplified], simplified]
  show ?thesis
  proof (cases "c = -1")
    case True
    then show ?thesis using res p1 unfolding clb_post_def by (auto split: if_splits)
  next
    case False
    have c0: "0 \<le> c" using p1 False by (simp add: clb_post_def)
    have seq: "clb_post s w warg (clb_input xmlcontent buf) r warg' s' w'"
      if "clb_post s1 w1 warg1 (clb_input xmlcontent buf) r' warg' s' w'" "r = -1 \<longleftrightarrow> r' = -1" "r' \<noteq> -1 \<Longrightarrow> 0 \<le> r" for r'
      using clb_post_seq [OF p1 False that] by simp
    consider (direct) "\<not> xmlcontent" "WRITE_BUFSIZE < length buf" | (xml) xmlcontent
      | (put) "\<not> xmlcontent" "length buf \<le> WRITE_BUFSIZE" by linarith
    then show ?thesis
    proof cases
      case direct
      then obtain c2 where 2: "nc_write_starttag_and_msg s1 w1 buf = Some (c2, s', w')"
        "r = (if c2 = -1 then -1 else c + c2)" "warg' = warg1"
        using res False by (auto split: option.splits if_splits)
      have "warg1 = []" "buf \<noteq> []" using small direct by auto
      then have "clb_post s1 w1 warg1 buf c2 warg' s' w'"
        using nc_write_starttag_and_msg_spec [OF 2(1) assms(3)] 2(3) assms(3)
        by (auto simp: wr_post_def clb_post_def intro!: exI [of _ "[buf]"])
      then show ?thesis using seq 2(2) c0 direct(1) by (auto simp: clb_input_def clb_post_def split: if_splits)
    next
      case xml
      then have "clb_xml_loop c warg1 buf s1 w1 = Some (r, warg', s', w')" using res False by simp
      moreover have "length warg1 \<le> WRITE_BUFSIZE" using p1 by (simp add: clb_post_def)
      ultimately have "clb_post s1 w1 warg1 (clb_input xmlcontent buf) r warg' s' w'"
        using clb_xml_loop_spec c0 xml by (simp add: clb_input_def)
      then show ?thesis using seq by (auto simp: clb_post_def split: if_splits)
    next
      case put
      then have "warg_put warg1 buf w1 = (warg', w')" "r = c + int (length buf)" "s' = s1"
        using res False by (auto split: prod.splits)
      then show ?thesis
        using warg_put_spec [of warg1 buf w1 warg' w' r s1] small put c0 seq [of r]
        by (auto simp: clb_input_def)
    qed
  qed
qed

section \<open>When writes succeed\<close>

text \<open>
  A transport that accepts data: the connection checks find it up, every write call sends
  something or would block, and at least \<open>n\<close> of the write calls (and of the connection
  checks) take data.
\<close>

definition wr_good :: "nc_ti \<Rightarrow> wr_raw \<Rightarrow> bool" where
  "wr_good ti raw = (case write_call ti raw 1 of Wr_sent _ \<Rightarrow> True | Wr_fail _ \<Rightarrow> False)"

definition wr_ready :: "wr_raw \<Rightarrow> bool" where
  "wr_ready raw = (case wr raw of IO_count _ \<Rightarrow> True | _ \<Rightarrow> False)"

definition conn_good :: "poll_res \<Rightarrow> bool" where
  "conn_good p = (case p of Poll_fail e \<Rightarrow> e = EINTR
     | Poll_ret n ev \<Rightarrow> \<not> (n > 0 \<and> (POLLHUP ev \<or> POLLERR ev)))"

definition conn_supplied :: "nc_session \<Rightarrow> wire \<Rightarrow> nat \<Rightarrow> bool" where
  "conn_supplied s w n \<longleftrightarrow>
     (case ti_type s of NC_TI_NONE \<Rightarrow> False | NC_TI_LIBSSH \<Rightarrow> ssh_up w
      | _ \<Rightarrow> fd_valid w \<and> list_all conn_good (conn_sched w) \<and>
          n \<le> length (filter (\<lambda>p. p \<noteq> Poll_fail EINTR) (conn_sched w)))"

definition wr_supplied :: "nc_session \<Rightarrow> wire \<Rightarrow> nat \<Rightarrow> bool" where
  "wr_supplied s w n \<longleftrightarrow>
     live s \<and> list_all (wr_good (ti_type s)) (wr_sched w) \<and>
     n \<le> length (filter wr_ready (wr_sched w)) \<and> conn_supplied s w n"

lemma wr_supplied_mono: "wr_supplied s w n \<Longrightarrow> m \<le> n \<Longrightarrow> wr_supplied s w m"
  by (auto simp: wr_supplied_def conn_supplied_def split: nc_ti.splits)

lemma poll_no_eintr_good:
  assumes "list_all conn_good ps" and "Suc n \<le> length (filter (\<lambda>p. p \<noteq> Poll_fail EINTR) ps)"
  shows "\<exists>p ps'. poll_no_eintr ps = Some (p, ps') \<and> conn_good p \<and> p \<noteq> Poll_fail EINTR \<and>
           list_all conn_good ps' \<and> n \<le> length (filter (\<lambda>p. p \<noteq> Poll_fail EINTR) ps')"
  using assms by (induction ps) auto

lemma nc_session_is_connected_total:
  assumes "conn_supplied s w (Suc n)"
  shows "\<exists>w'. nc_session_is_connected s w = Some (True, w') \<and> conn_supplied s w' n \<and> wr_sched w' = wr_sched w"
proof (cases "ti_type s \<in> {NC_TI_NONE, NC_TI_LIBSSH}")
  case True
  then show ?thesis using assms by (auto simp: conn_supplied_def nc_session_is_connected_def)
next
  case False
  then have c: "fd_valid w" "list_all conn_good (conn_sched w)"
    "Suc n \<le> length (filter (\<lambda>p. p \<noteq> Poll_fail EINTR) (conn_sched w))"
    using assms by (auto simp: conn_supplied_def split: nc_ti.splits)
  obtain p ps where p: "poll_no_eintr (conn_sched w) = Some (p, ps)" "conn_good p" "p \<noteq> Poll_fail EINTR"
    "list_all conn_good ps" "n \<le> length (filter (\<lambda>p. p \<noteq> Poll_fail EINTR) ps)"
    using poll_no_eintr_good [OF c(2,3)] by blast
  then obtain m ev where pr: "p = Poll_ret m ev" "\<not> (m > 0 \<and> (POLLHUP ev \<or> POLLERR ev))"
    by (cases p) (auto simp: conn_good_def)
  have "nc_session_is_connected s w = Some (True, w\<lparr>conn_sched := ps\<rparr>)"
    using False c(1) p(1) pr by (cases "ti_type s") (auto simp: nc_session_is_connected_def Let_def)
  moreover have "conn_supplied s (w\<lparr>conn_sched := ps\<rparr>) n"
    using False c(1) p(4,5) by (cases "ti_type s") (auto simp: conn_supplied_def)
  ultimately show ?thesis by auto
qed

lemma wr_good_sent:
  assumes "wr_good ti raw" and "0 < req"
  shows "\<exists>n. write_call ti raw req = Wr_sent n \<and> (wr_ready raw \<longrightarrow> 0 < n)"
  using assms unfolding wr_good_def write_call_def wr_count_def wr_ready_def Let_def
  by (auto split: nc_ti.splits io_ret.splits if_splits ssl_err.splits errno.splits)

lemma nc_write_loop_total:
  assumes "list_all (wr_good (ti_type s)) evs" and "rest \<noteq> []" and "length rest + k \<le> length (filter wr_ready evs)"
    and "conn_supplied s w m"
  shows "\<exists>w'. nc_write_loop written rest evs s w = Some (int32 (int (written + length rest)), s, w') \<and>
              conn_supplied s w' m \<and>
              list_all (wr_good (ti_type s)) (wr_sched w') \<and> k \<le> length (filter wr_ready (wr_sched w'))"
  using assms
proof (induction written rest evs s w rule: nc_write_loop.induct)
  case (1 written rest s w)
  then show ?case by simp
next
  case (2 written rest raw evs s w)
  have conn: "conn_supplied s (w\<lparr>wr_sched := ws, tx := t\<rparr>) m" for ws t
    using "2.prems"(4) by (simp add: conn_supplied_def cong: nc_ti.case_cong)
  obtain n where n: "write_call (ti_type s) raw (length rest) = Wr_sent n" "wr_ready raw \<longrightarrow> 0 < n"
    using wr_good_sent [of "ti_type s" raw "length rest"] "2.prems"(1,2) by auto
  note le = write_call_sent [OF n(1)]
  show ?case
  proof (cases "n < length rest")
    case True
    have "length (drop n rest) + k \<le> length (filter wr_ready evs)"
      using "2.prems"(3) n(2) True by (auto split: if_splits)
    from "2.IH" [OF refl n(1) refl True _ _ this] show ?thesis
      using n(1) True "2.prems"(1) conn by (auto simp: Let_def algebra_simps)
  next
    case False
    then have "n = length rest" using le by simp
    moreover have "k \<le> length (filter wr_ready evs)"
      using "2.prems"(2,3) by (cases rest) (auto split: if_splits)
    ultimately show ?thesis using n "2.prems"(1) conn by (auto simp: Let_def)
  qed
qed

lemma nc_write_total:
  assumes "wr_supplied s w (length buf + k)" and "buf \<noteq> []" and "length buf < 2 ^ 31"
  shows "\<exists>w'. nc_write s w buf = Some (int (length buf), s, w') \<and> wr_supplied s w' k"
proof -
  obtain j where j: "length buf = Suc j" using assms(2) by (cases buf) auto
  then obtain w1 where w1: "nc_session_is_connected s w = Some (True, w1)" "conn_supplied s w1 (j + k)" "wr_sched w1 = wr_sched w"
    using nc_session_is_connected_total [of s w "j + k"] assms(1) by (auto simp: wr_supplied_def)
  obtain w' where "nc_write_loop 0 buf (wr_sched w1) s w1 = Some (int (length buf), s, w')"
    "conn_supplied s w' (j + k)" "list_all (wr_good (ti_type s)) (wr_sched w')" "k \<le> length (filter wr_ready (wr_sched w'))"
    using nc_write_loop_total [of s "wr_sched w1" buf k w1 "j + k" 0] assms w1(2,3) by (auto simp: wr_supplied_def)
  moreover have "live s" using assms(1) by (simp add: wr_supplied_def)
  ultimately show ?thesis
    using w1(1) by (auto simp: nc_write_def wr_supplied_def conn_supplied_def split: nc_ti.splits)
qed

lemma wr_supplied_oob [simp]: "wr_supplied s (w\<lparr>oob := b\<rparr>) n = wr_supplied s w n"
  by (simp add: wr_supplied_def conn_supplied_def cong: nc_ti.case_cong)

text \<open>A framed buffer costs at most 24 times its length.\<close>

lemma nc_write_starttag_and_msg_total:
  assumes "wr_supplied s w (24 * length buf + k)" and "buf \<noteq> []" and "length buf < 2 ^ 31"
  shows "\<exists>r w'. nc_write_starttag_and_msg s w buf = Some (r, s, w') \<and> 0 \<le> r \<and> wr_supplied s w' k"
proof (cases "version s = NC_VERSION_11")
  case False
  have "wr_supplied s w (length buf + (23 * length buf + k))"
    using assms(1) by (simp add: algebra_simps)
  then obtain w' where "nc_write s w buf = Some (int (length buf), s, w')" "wr_supplied s w' (23 * length buf + k)"
    using nc_write_total [OF _ assms(2,3)] by blast
  then show ?thesis
    using False wr_supplied_mono [of s w' "23 * length buf + k" k] by (auto simp: nc_write_starttag_and_msg_def)
next
  case True
  let ?h = "chunk_header (length buf)"
  let ?w = "w\<lparr>oob := (oob w \<or> 24 < length ?h + 1)\<rparr>"
  have h: "length ?h \<le> 23" "length ?h < 2 ^ 31" "?h \<noteq> []" "length ?h \<noteq> 0"
    using chunk_header_fits [of "length buf"] assms(3) by (auto simp: chunk_header_def)
  have "1 \<le> length buf" using assms(2) by (cases buf) auto
  then have "length ?h + (length buf + k) \<le> 24 * length buf + k" using h(1) by linarith
  then have "wr_supplied s ?w (length ?h + (length buf + k))" using assms(1) wr_supplied_mono by simp
  then obtain w1 where w1: "nc_write s ?w ?h = Some (int (length ?h), s, w1)" "wr_supplied s w1 (length buf + k)"
    using nc_write_total [OF _ h(3,2)] by blast
  obtain w2 where "nc_write s w1 buf = Some (int (length buf), s, w2)" "wr_supplied s w2 k"
    using nc_write_total [OF w1(2) assms(2,3)] by blast
  then show ?thesis using True w1(1) by (auto simp: nc_write_starttag_and_msg_def Let_def)
qed

lemma nc_write_endtag_total:
  assumes "wr_supplied s w (6 + k)"
  shows "\<exists>r w'. nc_write_endtag s w = Some (r, s, w') \<and> 0 \<le> r \<and> wr_supplied s w' k"
proof -
  let ?t = "if version s = NC_VERSION_11 then [LF, CHR ''#'', CHR ''#'', LF] else '']]>]]>''"
  have "wr_supplied s w (length ?t + k)" using assms wr_supplied_mono by auto
  moreover have "?t \<noteq> []" "length ?t < 2 ^ 31" by simp_all
  ultimately obtain w' where "nc_write s w ?t = Some (int (length ?t), s, w')" "wr_supplied s w' k"
    using nc_write_total by blast
  then show ?thesis by (auto simp: nc_write_endtag_def split: if_splits)
qed

lemma nc_write_clb_flush_total:
  assumes "wr_supplied s w (24 * length warg + k)" and "length warg \<le> WRITE_BUFSIZE"
  shows "\<exists>r w'. nc_write_clb_flush warg s w = Some (r, [], s, w') \<and> 0 \<le> r \<and> wr_supplied s w' k"
proof (cases "warg = []")
  case False
  have "length warg < 2 ^ 31" using assms(2) by (simp add: WRITE_BUFSIZE_def BUFFERSIZE_def)
  from nc_write_starttag_and_msg_total [OF assms(1) False this] show ?thesis
    using False by (auto simp: nc_write_clb_flush_def)
qed (use assms in \<open>auto simp: nc_write_clb_flush_def\<close>)

lemma clb_flush_if_total:
  assumes "wr_supplied s w (24 * length warg + k)" and "length warg \<le> WRITE_BUFSIZE"
  shows "\<exists>r warg1 w'. (if b then nc_write_clb_flush warg s w else Some (0, warg, s, w)) = Some (r, warg1, s, w') \<and>
           0 \<le> r \<and> warg1 = (if b then [] else warg) \<and> wr_supplied s w' (24 * length warg1 + k)"
  using nc_write_clb_flush_total [OF assms] assms by auto

lemma clb_xml_loop_total:
  assumes "wr_supplied s w (24 * (length warg + length (concat (map xml_escape cs))) + k)"
    and "length warg \<le> WRITE_BUFSIZE" and "0 \<le> ret"
  shows "\<exists>r warg' w'. clb_xml_loop ret warg cs s w = Some (r, warg', s, w') \<and> 0 \<le> r \<and>
           wr_supplied s w' (24 * length warg' + k)"
  using assms
proof (induction cs arbitrary: ret warg w)
  case Nil
  then show ?case by simp
next
  case (Cons c cs)
  let ?b = "WRITE_BUFSIZE \<le> length warg + 5"
  let ?k = "24 * length (concat (map xml_escape (c # cs))) + k"
  have "24 * (length warg + length (concat (map xml_escape (c # cs)))) + k = 24 * length warg + ?k" by simp
  then obtain r1 warg1 w1 where fl: "(if ?b then nc_write_clb_flush warg s w else Some (0, warg, s, w)) = Some (r1, warg1, s, w1)"
    "0 \<le> r1" "warg1 = (if ?b then [] else warg)" "wr_supplied s w1 (24 * length warg1 + ?k)"
    using clb_flush_if_total [of s w warg ?k ?b] Cons.prems(1,2) by metis
  obtain warg2 w2 where put: "warg_put warg1 (xml_escape c) w1 = (warg2, w2)" by fastforce
  then have 2: "warg2 = warg1 @ xml_escape c" "w2 = w1\<lparr>oob := oob w2\<rparr>" by (auto simp: warg_put_def)
  have "length warg1 + 5 \<le> WRITE_BUFSIZE" using fl(3) by (auto simp: WRITE_BUFSIZE_def BUFFERSIZE_def)
  then have len: "length warg2 \<le> WRITE_BUFSIZE" using 2(1) length_xml_escape [of c] by simp
  have "wr_supplied s (w1\<lparr>oob := oob w2\<rparr>) (24 * (length warg2 + length (concat (map xml_escape cs))) + k)"
    using fl(4) 2(1) by (simp add: algebra_simps)
  then have sup: "wr_supplied s w2 (24 * (length warg2 + length (concat (map xml_escape cs))) + k)"
    using 2(2) by metis
  have "r1 \<noteq> -1" using fl(2) by linarith
  then show ?case
    using Cons.IH [OF sup len, of "ret + int (length (xml_escape c))"] Cons.prems(3) fl(1) put by simp
qed

lemma nc_write_clb_total:
  assumes "wr_supplied s w (24 * (length warg + length (clb_input xmlcontent buf)) + k)"
    and "length warg \<le> WRITE_BUFSIZE" and "length buf < 2 ^ 31"
  shows "\<exists>r warg' w'. nc_write_clb warg (Some buf) xmlcontent s w = Some (r, warg', s, w') \<and> 0 \<le> r \<and>
           wr_supplied s w' (24 * length warg' + k)"
proof -
  let ?b = "warg \<noteq> [] \<and> WRITE_BUFSIZE < length warg + length buf"
  let ?k = "24 * length (clb_input xmlcontent buf) + k"
  have "24 * (length warg + length (clb_input xmlcontent buf)) + k = 24 * length warg + ?k" by simp
  then obtain c warg1 w1 where fl: "(if ?b then nc_write_clb_flush warg s w else Some (0, warg, s, w)) = Some (c, warg1, s, w1)"
    "0 \<le> c" "warg1 = (if ?b then [] else warg)" "wr_supplied s w1 (24 * length warg1 + ?k)"
    using clb_flush_if_total [of s w warg ?k ?b] assms(1,2) by metis
  have eq: "nc_write_clb warg (Some buf) xmlcontent s w =
     (if \<not> xmlcontent \<and> WRITE_BUFSIZE < length buf
      then (case nc_write_starttag_and_msg s w1 buf of None \<Rightarrow> None
            | Some (c2, s2, w2) \<Rightarrow> if c2 = -1 then Some (-1, warg1, s2, w2) else Some (c + c2, warg1, s2, w2))
      else if xmlcontent then clb_xml_loop c warg1 buf s w1
      else let (warg2, w2) = warg_put warg1 buf w1 in Some (c + int (length buf), warg2, s, w2))"
    unfolding nc_write_clb_def using fl(1,2) by simp
  have len: "length warg1 \<le> WRITE_BUFSIZE" using fl(3) assms(2) by auto
  consider (direct) "\<not> xmlcontent" "WRITE_BUFSIZE < length buf" | (xml) xmlcontent
    | (put) "\<not> xmlcontent" "length buf \<le> WRITE_BUFSIZE" by linarith
  then show ?thesis
  proof cases
    case direct
    then have "buf \<noteq> []" by auto
    moreover have "wr_supplied s w1 (24 * length buf + (24 * length warg1 + k))"
      using fl(4) direct by (simp add: clb_input_def algebra_simps)
    ultimately obtain r w2 where "nc_write_starttag_and_msg s w1 buf = Some (r, s, w2)" "0 \<le> r"
      "wr_supplied s w2 (24 * length warg1 + k)"
      using nc_write_starttag_and_msg_total assms(3) by blast
    then show ?thesis unfolding eq using direct fl(2) by simp
  next
    case xml
    then show ?thesis
      using clb_xml_loop_total [of s w1 warg1 buf k c] fl(2,4) len unfolding eq by (simp add: clb_input_def algebra_simps)
  next
    case put
    then show ?thesis using fl(2,4) unfolding eq by (simp add: warg_put_def clb_input_def algebra_simps)
  qed
qed

end
