(* ===== verification/NC_WriteMsg.thy ===== *)
theory NC_WriteMsg
  imports NC_Write
begin

text \<open>
  \<^verbatim>\<open>nc_write_msg_io\<close> of \<^verbatim>\<open>io.c\<close>: sending one message. Every kind of message is a sequence of calls
  of the write callback and of libyang's printer; the sequence is made explicit
  (\<open>wr_item\<close>) and run by \<open>write_items\<close>. The data trees and their printing are libyang's and
  enter as the operations \<open>ly_ops\<close>. The theory ends with the round trip: what this function
  puts on the wire, \<^verbatim>\<open>nc_read_msg_io\<close> of the peer reads back.
\<close>

section \<open>libyang as the writer sees it\<close>

datatype lyd_flag = LYD_PRINT_SHRINK | LYD_PRINT_KEEPEMPTYCONT | LYD_PRINT_WITHSIBLINGS
  | LYD_PRINT_WD_EXPLICIT | LYD_PRINT_WD_TRIM | LYD_PRINT_WD_ALL | LYD_PRINT_WD_ALL_TAG

text \<open>
  \<open>ly_print n fl\<close> are the pieces the printer passes to its callback, in order, and whether it
  succeeds by itself; it stops at the first callback that fails. \<open>ly_new_opaq parent name envp\<close>
  creates an opaque node with the prefix and namespace of the envelope \<open>envp\<close> (under \<open>parent\<close>
  if given, which is then returned with its new child). \<open>ly_insert\<close> moves nodes under a parent,
  \<open>ly_children\<close> are the children of a node, \<open>ly_attrs t e\<close> is \<open>t\<close> with the attributes of \<open>e\<close>.
\<close>

record 'n ly_ops =
  ly_print :: "'n \<Rightarrow> lyd_flag list \<Rightarrow> bytes list \<times> bool"
  ly_new_opaq :: "'n option \<Rightarrow> string \<Rightarrow> 'n \<Rightarrow> 'n option"
  ly_insert :: "'n \<Rightarrow> 'n list \<Rightarrow> 'n"
  ly_children :: "'n \<Rightarrow> 'n list"
  ly_attrs :: "'n \<Rightarrow> 'n \<Rightarrow> 'n"

section \<open>The messages\<close>

text \<open>\<^verbatim>\<open>struct nc_server_reply\<close> and its variants, and the arguments of each message type.\<close>

datatype 'n nc_server_reply = Reply_ok | Reply_data 'n nc_wd_mode | Reply_error 'n | Reply_notif

datatype 'n out_msg =
    Out_rpc 'n bool "string option"   \<comment> \<open>operation, whether it is an action, attributes\<close>
  | Out_reply "'n option" "'n nc_server_reply"   \<comment> \<open>RPC envelope, reply\<close>
  | Out_notif string 'n   \<comment> \<open>eventTime, notification\<close>
  | Out_hello "string list" "u32 option"   \<comment> \<open>capabilities, session-id\<close>
  | Out_other nc_msg_type

fun out_type :: "'n out_msg \<Rightarrow> nc_msg_type" where
  "out_type (Out_rpc _ _ _) = NC_MSG_RPC"
| "out_type (Out_reply _ _) = NC_MSG_REPLY"
| "out_type (Out_notif _ _) = NC_MSG_NOTIF"
| "out_type (Out_hello _ _) = NC_MSG_HELLO"
| "out_type (Out_other t) = t"

definition NC_NS_BASE :: string where "NC_NS_BASE = ''urn:ietf:params:xml:ns:netconf:base:1.0''"
definition NC_NS_NOTIF :: string where "NC_NS_NOTIF = ''urn:ietf:params:xml:ns:netconf:notification:1.0''"
definition DQUOTE :: string where "DQUOTE = [CHR 0x22]"

text \<open>
  \<open>Put\<close> and \<open>Put_xml\<close> are calls of \<^verbatim>\<open>nc_write_clb\<close> whose result is not looked at; \<open>Printf\<close> is
  \<^verbatim>\<open>asprintf\<close> followed by one, given up when the allocation fails; \<open>Print\<close> is \<^verbatim>\<open>lyd_print_clb\<close>,
  given up when it fails.
\<close>

datatype 'n wr_item = Put bytes | Put_xml bytes | Printf bytes | Print 'n "lyd_flag list"

fun wd_flag :: "nc_wd_mode \<Rightarrow> lyd_flag" where
  "wd_flag NC_WD_UNKNOWN = LYD_PRINT_WD_EXPLICIT"
| "wd_flag NC_WD_EXPLICIT = LYD_PRINT_WD_EXPLICIT"
| "wd_flag NC_WD_TRIM = LYD_PRINT_WD_TRIM"
| "wd_flag NC_WD_ALL = LYD_PRINT_WD_ALL"
| "wd_flag NC_WD_ALL_TAG = LYD_PRINT_WD_ALL_TAG"

datatype 'n plan = Plan "'n wr_item list" | Plan_error | Plan_end_error

definition rpc_open :: "u64 \<Rightarrow> string option \<Rightarrow> string" where
  "rpc_open mid attrs =
     ''<rpc xmlns='' @ DQUOTE @ NC_NS_BASE @ DQUOTE @ '' message-id='' @ DQUOTE @ dec_str (unat (mid + 1)) @
     DQUOTE @ (case attrs of None \<Rightarrow> [] | Some a \<Rightarrow> a) @ ''>''"

definition rpc_items :: "nc_session \<Rightarrow> 'n \<Rightarrow> bool \<Rightarrow> string option \<Rightarrow> 'n wr_item list" where
  "rpc_items s op is_action attrs =
     [Printf (rpc_open (msgid s) attrs)] @
     (if is_action then [Put (''<action xmlns='' @ DQUOTE @ ''urn:ietf:params:xml:ns:yang:1'' @ DQUOTE @ ''>'')] else []) @
     [Print op [LYD_PRINT_SHRINK, LYD_PRINT_KEEPEMPTYCONT]] @
     (if is_action then [Put ''</action>''] else []) @
     [Put ''</rpc>'']"

text \<open>The reply to an RPC with its envelope: an opaque tree is built around the reply, printed,
  and taken apart again.\<close>

definition reply_plan :: "'n ly_ops \<Rightarrow> 'n \<Rightarrow> 'n nc_server_reply \<Rightarrow> 'n plan" where
  "reply_plan L envp reply =
     (case ly_new_opaq L None ''rpc-reply'' envp of None \<Rightarrow> Plan_error
      | Some t \<Rightarrow>
          let finish = (\<lambda>t' wd. Plan [Print (ly_attrs L t' envp) (LYD_PRINT_SHRINK # wd)]) in
          (case reply of
             Reply_ok \<Rightarrow>
               (case ly_new_opaq L (Some t) ''ok'' envp of None \<Rightarrow> Plan_error
                | Some t' \<Rightarrow> finish t' [])
           | Reply_data node wd \<Rightarrow> finish (ly_insert L t (ly_children L node)) [wd_flag wd]
           | Reply_error err \<Rightarrow> finish (ly_insert L t [err]) []
           | Reply_notif \<Rightarrow> Plan_end_error))"

definition notif_items :: "string \<Rightarrow> 'n \<Rightarrow> 'n wr_item list" where
  "notif_items eventtime ntf =
     [Put (take (21 + 47 + 2) (''<notification xmlns='' @ DQUOTE @ NC_NS_NOTIF @ DQUOTE @ ''>'')),
      Put (take 11 ''<eventTime>''), Put eventtime, Put (take 12 ''</eventTime>''),
      Print ntf [LYD_PRINT_SHRINK], Put (take 15 ''</notification>'')]"

definition hello_items :: "string list \<Rightarrow> u32 option \<Rightarrow> 'n wr_item list" where
  "hello_items caps sid =
     [Printf (''<hello xmlns='' @ DQUOTE @ NC_NS_BASE @ DQUOTE @ ''><capabilities>'')] @
     concat (map (\<lambda>c. [Put (take 12 ''<capability>''), Put_xml c, Put (take 13 ''</capability>'')]) caps) @
     (case sid of
        Some i \<Rightarrow> [Printf (''</capabilities><session-id>'' @ dec_str (unat i) @ ''</session-id></hello>'')]
      | None \<Rightarrow> [Put (take 23 ''</capabilities></hello>'')])"

text \<open>\<open>None\<close>: the assertion on a reply without envelope fails and the call does not return.\<close>

definition msg_plan :: "'n ly_ops \<Rightarrow> nc_session \<Rightarrow> 'n out_msg \<Rightarrow> 'n plan option" where
  "msg_plan L s m =
     (case m of
        Out_rpc op is_action attrs \<Rightarrow> Some (Plan (rpc_items s op is_action attrs))
      | Out_reply None reply \<Rightarrow>
          (case reply of
             Reply_error err \<Rightarrow>
               Some (Plan [Put (take (18 + length NC_NS_BASE + 2) (''<rpc-reply xmlns='' @ DQUOTE @ NC_NS_BASE @ DQUOTE @ ''>'')),
                     Print err [LYD_PRINT_SHRINK, LYD_PRINT_WITHSIBLINGS],
                     Put (take 12 ''</rpc-reply>'')])
           | _ \<Rightarrow> None)
      | Out_reply (Some envp) reply \<Rightarrow> Some (reply_plan L envp reply)
      | Out_notif eventtime ntf \<Rightarrow> Some (Plan (notif_items eventtime ntf))
      | Out_hello caps sid \<Rightarrow>
          Some (if version s \<noteq> NC_VERSION_10 then Plan_error else Plan (hello_items caps sid))
      | Out_other _ \<Rightarrow> Some Plan_error)"

section \<open>Sending\<close>

fun print_pieces ::
  "bytes list \<Rightarrow> bytes \<Rightarrow> nc_session \<Rightarrow> wire \<Rightarrow> (bool \<times> bytes \<times> nc_session \<times> wire) option"
where
  "print_pieces [] warg s w = Some (True, warg, s, w)"
| "print_pieces (p # ps) warg s w =
     (case nc_write_xmlclb warg p s w of None \<Rightarrow> None
      | Some (r, warg', s', w') \<Rightarrow>
          if r < 0 then Some (False, warg', s', w') else print_pieces ps warg' s' w')"

definition write_item ::
  "'n ly_ops \<Rightarrow> 'n wr_item \<Rightarrow> bytes \<Rightarrow> nc_session \<Rightarrow> wire \<Rightarrow> (bool \<times> bytes \<times> nc_session \<times> wire) option"
where
  "write_item L it warg s w =
     (let put = (\<lambda>b x. case nc_write_clb warg (Some b) x s w of None \<Rightarrow> None
                  | Some (_, warg', s', w') \<Rightarrow> Some (True, warg', s', w'))
      in case it of
        Put b \<Rightarrow> put b False
      | Put_xml b \<Rightarrow> put b True
      | Printf b \<Rightarrow> if can_alloc w (length b + 1) then put b False else Some (False, warg, s, w)
      | Print n fl \<Rightarrow>
          (case print_pieces (fst (ly_print L n fl)) warg s w of None \<Rightarrow> None
           | Some (ok, warg', s', w') \<Rightarrow> Some (ok \<and> snd (ly_print L n fl), warg', s', w')))"

fun write_items ::
  "'n ly_ops \<Rightarrow> 'n wr_item list \<Rightarrow> bytes \<Rightarrow> nc_session \<Rightarrow> wire \<Rightarrow> (bool \<times> bytes \<times> nc_session \<times> wire) option"
where
  "write_items L [] warg s w = Some (True, warg, s, w)"
| "write_items L (it # its) warg s w =
     (case write_item L it warg s w of None \<Rightarrow> None
      | Some (ok, warg', s', w') \<Rightarrow>
          if \<not> ok then Some (False, warg', s', w') else write_items L its warg' s' w')"

definition bump_msgid :: "'n out_msg \<Rightarrow> nc_session \<Rightarrow> nc_session" where
  "bump_msgid m s = (case m of Out_rpc _ _ _ \<Rightarrow> s\<lparr>msgid := msgid s + 1\<rparr> | _ \<Rightarrow> s)"

definition nc_write_msg_io ::
  "'n ly_ops \<Rightarrow> nc_session \<Rightarrow> wire \<Rightarrow> 'n out_msg \<Rightarrow> (nc_msg_type \<times> nc_session \<times> wire) option"
where
  "nc_write_msg_io L s w m =
     (if \<not> live s then Some (NC_MSG_ERROR, s, w)
      else case io_lock w of None \<Rightarrow> None
      | Some (lr, w0) \<Rightarrow>
          if lr < 0 then Some (NC_MSG_ERROR, s, w0)
          else if lr = 0 then Some (NC_MSG_WOULDBLOCK, s, w0)
          else case msg_plan L s m of None \<Rightarrow> None
            | Some Plan_error \<Rightarrow> Some (NC_MSG_ERROR, s, io_unlock w0)
            | Some Plan_end_error \<Rightarrow>
                (case nc_write_clb [] None False s w0 of None \<Rightarrow> None
                 | Some (_, _, s1, w1) \<Rightarrow> Some (NC_MSG_ERROR, s1, io_unlock w1))
            | Some (Plan its) \<Rightarrow>
                (case write_items L its [] s w0 of None \<Rightarrow> None
                 | Some (ok, warg, s1, w1) \<Rightarrow>
                     if \<not> ok then Some (NC_MSG_ERROR, s1, io_unlock w1)
                     else case nc_write_clb warg None False (bump_msgid m s1) w1 of None \<Rightarrow> None
                       | Some (_, _, s2, w2) \<Rightarrow>
                           Some (if live s2 then out_type m else NC_MSG_ERROR, s2, io_unlock w2)))"

section \<open>What is sent\<close>

fun item_text :: "'n ly_ops \<Rightarrow> 'n wr_item \<Rightarrow> bytes" where
  "item_text L (Put b) = b"
| "item_text L (Put_xml b) = concat (map xml_escape b)"
| "item_text L (Printf b) = b"
| "item_text L (Print n fl) = concat (fst (ly_print L n fl))"

definition items_text :: "'n ly_ops \<Rightarrow> 'n wr_item list \<Rightarrow> bytes" where
  "items_text L its = concat (map (item_text L) its)"

text \<open>No single piece has 2^31 bytes, the allocations succeed and the printer does not fail by
  itself.\<close>

fun item_ok :: "'n ly_ops \<Rightarrow> (nat \<Rightarrow> bool) \<Rightarrow> 'n wr_item \<Rightarrow> bool" where
  "item_ok L alloc (Put b) = (length b < 2 ^ 31)"
| "item_ok L alloc (Put_xml b) = (length b < 2 ^ 31)"
| "item_ok L alloc (Printf b) = (length b < 2 ^ 31 \<and> alloc (length b + 1))"
| "item_ok L alloc (Print n fl) =
     (list_all (\<lambda>p. length p < 2 ^ 31) (fst (ly_print L n fl)) \<and> snd (ly_print L n fl))"

text \<open>\<open>clb_run\<close>: the callback consumed \<open>data\<close> without an error and the transport can still take
  what is in the buffer and \<open>k\<close> bytes more.\<close>

definition clb_run :: "nat \<Rightarrow> nc_session \<Rightarrow> wire \<Rightarrow> bytes \<Rightarrow> bytes \<Rightarrow> bytes \<Rightarrow> wire \<Rightarrow> bool" where
  "clb_run k s w warg data warg' w' \<longleftrightarrow>
     clb_post s w warg data 0 warg' s w' \<and> wr_supplied s w' (24 * length warg' + k)"

lemma clb_run_nil:
  "length warg \<le> WRITE_BUFSIZE \<Longrightarrow> wr_supplied s w (24 * length warg + k) \<Longrightarrow> clb_run k s w warg [] warg w"
  by (simp add: clb_run_def clb_post_nil)

lemma clb_run_seq:
  assumes "clb_run (24 * length d2 + k) s w warg d1 warg1 w1" and "clb_run k s w1 warg1 d2 warg2 w2"
  shows "clb_run k s w warg (d1 @ d2) warg2 w2"
  using assms clb_post_seq [of s w warg d1 0 warg1 s w1 d2 0 warg2 s w2 0] by (simp add: clb_run_def)

lemma clb_run_bound: "clb_run k s w warg d warg' w' \<Longrightarrow> length warg' \<le> WRITE_BUFSIZE"
  by (simp add: clb_run_def clb_post_def)

lemma nc_write_clb_run:
  assumes "wr_supplied s w (24 * (length warg + length (clb_input x buf)) + k)"
    and "length warg \<le> WRITE_BUFSIZE" and "length buf < 2 ^ 31"
  shows "\<exists>r warg' w'. nc_write_clb warg (Some buf) x s w = Some (r, warg', s, w') \<and> 0 \<le> r \<and>
           clb_run k s w warg (clb_input x buf) warg' w'"
proof -
  obtain r warg' w' where r: "nc_write_clb warg (Some buf) x s w = Some (r, warg', s, w')" "0 \<le> r"
    "wr_supplied s w' (24 * length warg' + k)"
    using nc_write_clb_total [OF assms] by blast
  have "clb_post s w warg (clb_input x buf) r warg' s w'" using nc_write_clb_spec [OF r(1) assms(2,3)] .
  then have "clb_post s w warg (clb_input x buf) 0 warg' s w'" using r(2) by (simp add: clb_post_def)
  then show ?thesis using r by (auto simp: clb_run_def)
qed

lemma print_pieces_run:
  assumes "wr_supplied s w (24 * (length warg + length (concat ps)) + k)"
    and "length warg \<le> WRITE_BUFSIZE" and "list_all (\<lambda>p. length p < 2 ^ 31) ps"
  shows "\<exists>warg' w'. print_pieces ps warg s w = Some (True, warg', s, w') \<and>
           clb_run k s w warg (concat ps) warg' w'"
  using assms
proof (induction ps arbitrary: warg w)
  case Nil
  then show ?case using clb_run_nil by auto
next
  case (Cons p ps)
  let ?k = "24 * length (concat ps) + k"
  have "wr_supplied s w (24 * (length warg + length (clb_input False p)) + ?k)"
    using Cons.prems(1) by (simp add: clb_input_def algebra_simps)
  then obtain r warg1 w1 where 1: "nc_write_clb warg (Some p) False s w = Some (r, warg1, s, w1)" "0 \<le> r"
    "clb_run ?k s w warg p warg1 w1"
    using nc_write_clb_run [of s w warg False p ?k] Cons.prems(2,3) by (auto simp: clb_input_def)
  have "wr_supplied s w1 (24 * (length warg1 + length (concat ps)) + k)"
    using 1(3) by (simp add: clb_run_def algebra_simps)
  then obtain warg' w' where 2: "print_pieces ps warg1 s w1 = Some (True, warg', s, w')"
    "clb_run k s w1 warg1 (concat ps) warg' w'"
    using Cons.IH [where w = w1, OF _ clb_run_bound [OF 1(3)]] Cons.prems(3) by auto
  have "nc_write_xmlclb warg p s w = Some (int (length p), warg1, s, w1)"
    using 1(1,2) by (simp add: nc_write_xmlclb_def)
  then show ?case using 2 clb_run_seq [OF 1(3) 2(2)] by simp
qed

lemma write_item_run:
  assumes "wr_supplied s w (24 * (length warg + length (item_text L it)) + k)"
    and "length warg \<le> WRITE_BUFSIZE" and "item_ok L (can_alloc w) it"
  shows "\<exists>warg' w'. write_item L it warg s w = Some (True, warg', s, w') \<and>
           clb_run k s w warg (item_text L it) warg' w'"
proof (cases it)
  case (Put b)
  then show ?thesis
    using nc_write_clb_run [of s w warg False b k] assms by (auto simp: write_item_def clb_input_def)
next
  case (Put_xml b)
  then show ?thesis
    using nc_write_clb_run [of s w warg True b k] assms by (auto simp: write_item_def clb_input_def)
next
  case (Printf b)
  then show ?thesis
    using nc_write_clb_run [of s w warg False b k] assms by (auto simp: write_item_def clb_input_def)
next
  case (Print n fl)
  then show ?thesis
    using print_pieces_run [of s w warg "fst (ly_print L n fl)" k] assms by (auto simp: write_item_def)
qed

lemma write_items_run:
  assumes "wr_supplied s w (24 * (length warg + length (items_text L its)) + k)"
    and "length warg \<le> WRITE_BUFSIZE" and "list_all (item_ok L (can_alloc w)) its"
  shows "\<exists>warg' w'. write_items L its warg s w = Some (True, warg', s, w') \<and>
           clb_run k s w warg (items_text L its) warg' w'"
  using assms
proof (induction its arbitrary: warg w)
  case Nil
  then show ?case using clb_run_nil by (auto simp: items_text_def)
next
  case (Cons it its)
  let ?k = "24 * length (items_text L its) + k"
  have "wr_supplied s w (24 * (length warg + length (item_text L it)) + ?k)"
    using Cons.prems(1) by (simp add: items_text_def algebra_simps)
  then obtain warg1 w1 where 1: "write_item L it warg s w = Some (True, warg1, s, w1)"
    "clb_run ?k s w warg (item_text L it) warg1 w1"
    using write_item_run [of s w warg L it ?k] Cons.prems(2,3) by auto
  have "wr_supplied s w1 (24 * (length warg1 + length (items_text L its)) + k)"
    using 1(2) by (simp add: clb_run_def algebra_simps)
  moreover have "can_alloc w1 = can_alloc w"
    using 1(2) wr_frameD(7) by (auto simp: clb_run_def clb_post_def)
  ultimately obtain warg' w' where 2: "write_items L its warg1 s w1 = Some (True, warg', s, w')"
    "clb_run k s w1 warg1 (items_text L its) warg' w'"
    using Cons.IH [where w = w1, OF _ clb_run_bound [OF 1(2)]] Cons.prems(3) by auto
  show ?case using 1(1) 2(1) clb_run_seq [OF 1(2) 2(2)] by (simp add: items_text_def)
qed

lemma nc_write_clb_end_run:
  assumes "wr_supplied s w (24 * length warg + (6 + k))" and "length warg \<le> WRITE_BUFSIZE"
  shows "\<exists>r w' cs. nc_write_clb warg None x s w = Some (r, [], s, w') \<and> wr_frame w w' \<and> oob w' = oob w \<and>
           concat cs = warg \<and> (\<forall>c \<in> set cs. c \<noteq> [] \<and> length c < 2 ^ 31) \<and>
           tx w' = tx w @ concat (map (frame1 (version s)) cs) @ frame_end (version s)"
proof -
  obtain r1 w1 where 1: "nc_write_clb_flush warg s w = Some (r1, [], s, w1)" "0 \<le> r1" "wr_supplied s w1 (6 + k)"
    using nc_write_clb_flush_total [OF assms] by blast
  obtain r2 w2 where 2: "nc_write_endtag s w1 = Some (r2, s, w2)" "0 \<le> r2" "wr_supplied s w2 k"
    using nc_write_endtag_total [OF 1(3)] by blast
  have p1: "clb_post s w warg [] r1 [] s w1" using nc_write_clb_flush_spec [OF 1(1) assms(2)] by simp
  have p2: "wr_post s w1 (frame_end (version s)) r2 s w2" using nc_write_endtag_spec [OF 2(1)] .
  obtain cs where "concat cs = warg" "\<forall>c \<in> set cs. c \<noteq> [] \<and> length c < 2 ^ 31"
    "tx w1 = tx w @ concat (map (frame1 (version s)) cs)"
    using p1 1(2) by (auto simp: clb_post_def)
  moreover have "tx w2 = tx w1 @ frame_end (version s)" "wr_frame w w2" "oob w2 = oob w"
    using p1 p2 2(2) wr_frame_trans by (auto simp: clb_post_def wr_post_def)
  moreover have "nc_write_clb warg None x s w = Some (r1 + r2, [], s, w2)"
    using 1 2 by (simp add: nc_write_clb_def)
  ultimately show ?thesis by (intro exI [of _ "r1 + r2"] exI [of _ w2] exI [of _ cs]) simp
qed

text \<open>
  \<open>framed v text out\<close>: \<open>out\<close> is \<open>text\<close> in the framing of version \<open>v\<close>, cut into non-empty pieces.
\<close>

definition framed :: "nc_version \<Rightarrow> bytes \<Rightarrow> bytes \<Rightarrow> bool" where
  "framed v text out \<longleftrightarrow>
     (\<exists>cs. concat cs = text \<and> (\<forall>c \<in> set cs. c \<noteq> [] \<and> length c < 2 ^ 31) \<and>
           out = concat (map (frame1 v) cs) @ frame_end v)"

lemma bump_msgid_simps [simp]:
  "live (bump_msgid m s) = live s" "version (bump_msgid m s) = version s" "ti_type (bump_msgid m s) = ti_type s"
  by (auto simp: bump_msgid_def live_def split: out_msg.split)

lemma wr_supplied_bump [simp]: "wr_supplied (bump_msgid m s) w n = wr_supplied s w n"
  by (simp add: wr_supplied_def conn_supplied_def)

lemma nc_write_msg_io_run:
  assumes "msg_plan L s m = Some (Plan its)" and "list_all (item_ok L (can_alloc w)) its"
    and "lock_sched w = LK_OK # lks" and "wr_supplied s w (24 * length (items_text L its) + 6)"
  shows "\<exists>w' out. nc_write_msg_io L s w m = Some (out_type m, bump_msgid m s, w') \<and>
           tx w' = tx w @ out \<and> framed (version s) (items_text L its) out \<and>
           \<not> io_held w' \<and> oob w' = oob w \<and> rx w' = rx w"
proof -
  let ?w0 = "w\<lparr>lock_sched := lks, io_held := True\<rparr>"
  let ?s = "bump_msgid m s"
  have lk: "io_lock w = Some (1, ?w0)" using assms(3) by (simp add: io_lock_def nc_session_io_lock_def Let_def)
  have "wr_supplied s ?w0 (24 * (length [] + length (items_text L its)) + 6)"
    using assms(4) by (simp add: wr_supplied_def conn_supplied_def cong: nc_ti.case_cong)
  then obtain warg w1 where 1: "write_items L its [] s ?w0 = Some (True, warg, s, w1)"
    "clb_run 6 s ?w0 [] (items_text L its) warg w1"
    using write_items_run [of s ?w0 "[]" L its 6] assms(2) by auto
  then obtain cs1 where c1: "concat cs1 @ warg = items_text L its" "\<forall>c \<in> set cs1. c \<noteq> [] \<and> length c < 2 ^ 31"
    "tx w1 = tx w @ concat (map (frame1 (version s)) cs1)" "wr_frame ?w0 w1" "oob w1 = oob w"
    "length warg \<le> WRITE_BUFSIZE" "wr_supplied ?s w1 (24 * length warg + (6 + 0))"
    by (auto simp: clb_run_def clb_post_def)
  obtain r w2 cs2 where c2: "nc_write_clb warg None False ?s w1 = Some (r, [], ?s, w2)" "wr_frame w1 w2"
    "oob w2 = oob w1" "concat cs2 = warg" "\<forall>c \<in> set cs2. c \<noteq> [] \<and> length c < 2 ^ 31"
    "tx w2 = tx w1 @ concat (map (frame1 (version s)) cs2) @ frame_end (version s)"
    using nc_write_clb_end_run [OF c1(7,6), of False] by auto
  let ?out = "concat (map (frame1 (version s)) (cs1 @ cs2)) @ frame_end (version s)"
  have "live s" using assms(4) by (simp add: wr_supplied_def)
  then have "nc_write_msg_io L s w m = Some (out_type m, ?s, io_unlock w2)"
    using lk assms(1) 1(1) c2(1) by (simp add: nc_write_msg_io_def)
  moreover have "framed (version s) (items_text L its) ?out"
    unfolding framed_def using c1(1,2) c2(4,5) by (intro exI [of _ "cs1 @ cs2"]) auto
  moreover have "tx (io_unlock w2) = tx w @ ?out" using c1(3) c2(6) by simp
  moreover have "rx w2 = rx w" using wr_frameD(1) [OF c1(4)] wr_frameD(1) [OF c2(2)] by simp
  ultimately show ?thesis using c1(5) c2(3) by auto
qed

section \<open>Round trip\<close>

lemma frame_dec_framed:
  assumes "framed v text out" and "text \<noteq> []" and "v = NC_VERSION_10 \<Longrightarrow> tag_clear NC_VERSION_10_ENDTAG text"
  shows "frame_dec v (out @ rest) = Some (Frame_ok text rest)"
proof -
  obtain cs where cs: "concat cs = text" "\<forall>c \<in> set cs. c \<noteq> [] \<and> length c < 2 ^ 31"
    "out = concat (map (frame1 v) cs) @ frame_end v"
    using assms(1) unfolding framed_def by blast
  show ?thesis
  proof (cases v)
    case NC_VERSION_10
    then have "frame1 v = (\<lambda>b. b)" by (simp add: frame1_def fun_eq_iff)
    then have "out = enc10 text" using cs NC_VERSION_10 by (simp add: frame_end_def enc10_def)
    then show ?thesis using dec10_enc10 assms(3) NC_VERSION_10 by (simp add: frame_dec_def)
  next
    case NC_VERSION_11
    have "frame1 v = enc_chunk" using NC_VERSION_11 by (simp add: frame1_def fun_eq_iff)
    moreover have "cs \<noteq> []" using cs(1) assms(2) by auto
    moreover have "\<forall>c \<in> set cs. c \<noteq> [] \<and> length c < 2 ^ 64" using cs(2) by fastforce
    ultimately show ?thesis
      using dec_chunks_enc_None [of cs rest] cs NC_VERSION_11 by (simp add: frame_dec_def frame_end_def)
  qed
qed

text \<open>C1: what one side sends, the other side reads. For any message kind, when libyang prints
  the message (pieces, at most 2^31 bytes each), the transport accepts the data and no
  allocation fails, \<^verbatim>\<open>nc_write_msg_io\<close> reports the message type, releases the IO lock, overruns
  no buffer and appends a byte string to the output; any session of the same protocol version
  that receives this byte string, whatever follows it, gets exactly the message text from
  \<^verbatim>\<open>nc_read_msg_io\<close> and leaves what follows unread. For end-of-message framing the text must be
  clear of the end tag; for chunked framing there is no restriction.\<close>

theorem message_roundtrip:
  assumes "msg_plan L s m = Some (Plan its)" and "list_all (item_ok L (can_alloc w)) its"
    and "lock_sched w = LK_OK # lks" and "wr_supplied s w (24 * length (items_text L its) + 6)"
    and "items_text L its \<noteq> []" and "NUL \<notin> set (items_text L its)"
    and "version s = NC_VERSION_10 \<longrightarrow> tag_clear NC_VERSION_10_ENDTAG (items_text L its)"
  shows "\<exists>w' out. nc_write_msg_io L s w m = Some (out_type m, bump_msgid m s, w') \<and>
           tx w' = tx w @ out \<and> \<not> io_held w' \<and> oob w' = oob w \<and>
           (\<forall>s2 w2 rest lks2.
              version s2 = version s \<and> rx w2 = out @ rest \<and> length (rx w2) < 2 ^ 31 \<and>
              lock_sched w2 = LK_OK # lks2 \<and> ly_in_ok w2 \<and> (\<forall>n. can_alloc w2 n) \<and>
              supplied s2 w2 NC_READ_INACT_TIMEOUT_MS
                (timespec_add_msec (mono_now w2) NC_READ_ACT_TIMEOUT_MS) (length (rx w2)) \<longrightarrow>
              (\<exists>w2'. nc_read_msg_io s2 w2 False = Some (1, Some (items_text L its), s2, w2') \<and>
                     rx w2' = rest \<and> \<not> io_held w2'))"
proof -
  obtain w' out where o: "nc_write_msg_io L s w m = Some (out_type m, bump_msgid m s, w')"
    "tx w' = tx w @ out" "framed (version s) (items_text L its) out" "\<not> io_held w'" "oob w' = oob w"
    using nc_write_msg_io_run [OF assms(1-4)] by blast
  have "frame_dec (version s) (out @ rest) = Some (Frame_ok (items_text L its) rest)" for rest
    using frame_dec_framed [OF o(3) assms(5)] assms(7) by blast
  then have "\<exists>w2'. nc_read_msg_io s2 w2 False = Some (1, Some (items_text L its), s2, w2') \<and>
                     rx w2' = rest \<and> \<not> io_held w2'"
    if "version s2 = version s" "rx w2 = out @ rest" "length (rx w2) < 2 ^ 31"
      "lock_sched w2 = LK_OK # lks2" "ly_in_ok w2" "\<forall>n. can_alloc w2 n"
      "supplied s2 w2 NC_READ_INACT_TIMEOUT_MS
         (timespec_add_msec (mono_now w2) NC_READ_ACT_TIMEOUT_MS) (length (rx w2))" for s2 w2 rest lks2
    using nc_read_msg_io_returns [of s2 w2 "items_text L its" rest lks2] that assms(6) by auto
  then show ?thesis using o by blast
qed

text \<open>A printer for the concrete instances: a node is its text, printed in two pieces.\<close>

definition demo_ly :: "string ly_ops" where
  "demo_ly = \<lparr>ly_print = (\<lambda>n _. ([take 3 n, drop 3 n], True)), ly_new_opaq = (\<lambda>_ name _. Some name),
     ly_insert = (\<lambda>p cs. p @ concat cs), ly_children = (\<lambda>n. [n]), ly_attrs = (\<lambda>t _. t)\<rparr>"

definition demo_out_wire :: wire where
  "demo_out_wire = (demo_wire [])
     \<lparr>wr_sched := replicate 3000 \<lparr>wr = IO_count 99, wr_errno = EOTHER, wr_closed = False, wr_eof = False,
                               wr_ssl = SSL_ERROR_UNKNOWN\<rparr>,
      conn_sched := replicate 3000 (Poll_ret 0 (Revents False False False False))\<rparr>"

lemma demo_out_supplied: "n \<le> 3000 \<Longrightarrow> wr_supplied (demo_session v) demo_out_wire n"
  by (simp add: wr_supplied_def conn_supplied_def demo_session_def demo_out_wire_def demo_wire_def nc_new_session_def
      live_def list_all_iff wr_good_def write_call_def wr_count_def wr_ready_def conn_good_def)

definition demo_rpc :: "string out_msg" where
  "demo_rpc = Out_rpc ''<get/>'' False None"

theorem message_roundtrip_witness:
  "\<exists>w' out. nc_write_msg_io demo_ly (demo_session NC_VERSION_11) demo_out_wire demo_rpc
              = Some (NC_MSG_RPC, (demo_session NC_VERSION_11)\<lparr>msgid := 1\<rparr>, w') \<and> tx w' = out \<and> \<not> oob w'"
proof -
  let ?s = "demo_session NC_VERSION_11"
  let ?its = "rpc_items ?s ''<get/>'' False None"
  have 1: "msg_plan demo_ly ?s demo_rpc = Some (Plan ?its)" by (simp add: msg_plan_def demo_rpc_def)
  have 2: "list_all (item_ok demo_ly (can_alloc demo_out_wire)) ?its"
    by (simp add: rpc_items_def demo_ly_def demo_out_wire_def demo_wire_def) code_simp
  have 3: "lock_sched demo_out_wire = LK_OK # []" by (simp add: demo_out_wire_def demo_wire_def)
  have "24 * length (items_text demo_ly ?its) + 6 \<le> 3000" by code_simp
  then have 4: "wr_supplied ?s demo_out_wire (24 * length (items_text demo_ly ?its) + 6)" by (rule demo_out_supplied)
  have 5: "items_text demo_ly ?its \<noteq> []" by code_simp
  have 6: "NUL \<notin> set (items_text demo_ly ?its)" by code_simp
  have 7: "version ?s = NC_VERSION_10 \<longrightarrow> tag_clear NC_VERSION_10_ENDTAG (items_text demo_ly ?its)"
    by (simp add: demo_session_def nc_new_session_def)
  have b: "bump_msgid demo_rpc ?s = ?s\<lparr>msgid := 1\<rparr>" "out_type demo_rpc = NC_MSG_RPC" "\<not> oob demo_out_wire"
    by (simp_all add: bump_msgid_def demo_rpc_def demo_session_def nc_new_session_def demo_out_wire_def demo_wire_def)
  show ?thesis using message_roundtrip [OF 1 2 3 4 5 6 7] b(3) unfolding b(1,2) by auto
qed

section \<open>Sending over any transport\<close>

fun item_small :: "'n ly_ops \<Rightarrow> 'n wr_item \<Rightarrow> bool" where
  "item_small L (Print n fl) = list_all (\<lambda>p. length p < 2 ^ 31) (fst (ly_print L n fl))"
| "item_small L (Put b) = (length b < 2 ^ 31)"
| "item_small L (Put_xml b) = (length b < 2 ^ 31)"
| "item_small L (Printf b) = (length b < 2 ^ 31)"

text \<open>\<open>wr_safe\<close>: what holds after any sequence of calls of the callback, failing ones included.\<close>

definition wr_safe :: "nc_session \<Rightarrow> wire \<Rightarrow> bytes \<Rightarrow> nc_session \<Rightarrow> wire \<Rightarrow> bool" where
  "wr_safe s w warg' s' w' \<longleftrightarrow>
     wr_frame w w' \<and> oob w' = oob w \<and> length warg' \<le> WRITE_BUFSIZE \<and>
     (s' = s \<or> s' = invalidate NC_SESSION_TERM_DROPPED s)"

lemma wr_safe_refl: "length warg \<le> WRITE_BUFSIZE \<Longrightarrow> wr_safe s w warg s w"
  by (simp add: wr_safe_def)

lemma wr_safe_trans: "wr_safe s w warg1 s1 w1 \<Longrightarrow> wr_safe s1 w1 warg2 s2 w2 \<Longrightarrow> wr_safe s w warg2 s2 w2"
  using wr_frame_trans by (auto simp: wr_safe_def invalidate_def)

lemma clb_post_safe: "clb_post s w warg data r warg' s' w' \<Longrightarrow> wr_safe s w warg' s' w'"
  by (auto simp: clb_post_def wr_safe_def split: if_splits)

lemma nc_write_clb_safe:
  assumes "nc_write_clb warg bufo x s w = Some (r, warg', s', w')" and "length warg \<le> WRITE_BUFSIZE"
    and "\<And>b. bufo = Some b \<Longrightarrow> length b < 2 ^ 31"
  shows "wr_safe s w warg' s' w'"
proof (cases bufo)
  case (Some b)
  then show ?thesis using nc_write_clb_spec [of warg b x s w r warg' s' w'] assms clb_post_safe by blast
next
  case None
  obtain c warg1 s1 w1 where fl: "nc_write_clb_flush warg s w = Some (c, warg1, s1, w1)"
    using assms(1) None by (auto simp: nc_write_clb_def split: option.splits)
  have f: "wr_safe s w warg1 s1 w1" using nc_write_clb_flush_spec [OF fl assms(2)] clb_post_safe by blast
  show ?thesis
  proof (cases "c = -1")
    case True
    then show ?thesis using assms(1) None fl f by (simp add: nc_write_clb_def)
  next
    case False
    then obtain c2 where e: "nc_write_endtag s1 w1 = Some (c2, s', w')" "warg' = warg1"
      using assms(1) None fl by (auto simp: nc_write_clb_def split: option.splits if_splits)
    have "wr_safe s1 w1 warg1 s' w'"
      using nc_write_endtag_spec [OF e(1)] f by (auto simp: wr_post_def wr_safe_def)
    then show ?thesis using f e(2) wr_safe_trans by blast
  qed
qed

lemma print_pieces_safe:
  assumes "print_pieces ps warg s w = Some (ok, warg', s', w')" and "length warg \<le> WRITE_BUFSIZE"
    and "list_all (\<lambda>p. length p < 2 ^ 31) ps"
  shows "wr_safe s w warg' s' w'"
  using assms
proof (induction ps warg s w rule: print_pieces.induct)
  case (1 warg s w)
  then show ?case by (simp add: wr_safe_refl)
next
  case (2 p ps warg s w)
  obtain r warg1 s1 w1 where x: "nc_write_xmlclb warg p s w = Some (r, warg1, s1, w1)"
    using "2.prems"(1) by (auto split: option.splits)
  then obtain r1 where "nc_write_clb warg (Some p) False s w = Some (r1, warg1, s1, w1)"
    by (auto simp: nc_write_xmlclb_def split: option.splits)
  then have 1: "wr_safe s w warg1 s1 w1" using nc_write_clb_safe "2.prems"(2,3) by fastforce
  show ?case
  proof (cases "r < 0")
    case True
    then show ?thesis using "2.prems"(1) x 1 by auto
  next
    case False
    then have "wr_safe s1 w1 warg' s' w'"
      using "2.IH" [OF x refl refl refl False] "2.prems"(1,3) x 1 by (simp add: wr_safe_def)
    then show ?thesis using 1 wr_safe_trans by blast
  qed
qed

lemma write_item_safe:
  assumes "write_item L it warg s w = Some (ok, warg', s', w')" and "length warg \<le> WRITE_BUFSIZE"
    and "item_small L it"
  shows "wr_safe s w warg' s' w'"
  using assms nc_write_clb_safe [of warg _ _ s w _ warg' s' w']
    print_pieces_safe [of _ warg s w _ warg' s' w'] wr_safe_refl [of warg s w]
  by (cases it) (fastforce simp: write_item_def split: option.splits if_splits)+

lemma write_items_safe:
  assumes "write_items L its warg s w = Some (ok, warg', s', w')" and "length warg \<le> WRITE_BUFSIZE"
    and "list_all (item_small L) its"
  shows "wr_safe s w warg' s' w'"
  using assms
proof (induction L its warg s w rule: write_items.induct)
  case (1 L warg s w)
  then show ?case by (simp add: wr_safe_refl)
next
  case (2 L it its warg s w)
  obtain ok1 warg1 s1 w1 where x: "write_item L it warg s w = Some (ok1, warg1, s1, w1)"
    using "2.prems"(1) by (auto split: option.splits)
  have 1: "wr_safe s w warg1 s1 w1" using write_item_safe [OF x] "2.prems"(2,3) by simp
  show ?case
  proof (cases ok1)
    case False
    then show ?thesis using "2.prems"(1) x 1 by auto
  next
    case True
    then have "wr_safe s1 w1 warg' s' w'"
      using "2.IH" [OF x refl refl refl] "2.prems"(1,3) x 1 by (simp add: wr_safe_def)
    then show ?thesis using 1 wr_safe_trans by blast
  qed
qed

text \<open>What a call of \<^verbatim>\<open>nc_write_msg_io\<close> has done, on every path.\<close>

definition send_post :: "nc_session \<Rightarrow> wire \<Rightarrow> 'n out_msg \<Rightarrow> nc_msg_type \<Rightarrow> nc_session \<Rightarrow> wire \<Rightarrow> bool" where
  "send_post s w m t s' w' \<longleftrightarrow>
     t \<in> {out_type m, NC_MSG_ERROR, NC_MSG_WOULDBLOCK} \<and> \<not> io_held w' \<and> oob w' = oob w \<and> rx w' = rx w \<and>
     (t = NC_MSG_WOULDBLOCK \<longrightarrow> s' = s \<and> tx w' = tx w) \<and> (t = out_type m \<longrightarrow> live s') \<and>
     s' \<in> {s, bump_msgid m s, invalidate NC_SESSION_TERM_DROPPED s,
           bump_msgid m (invalidate NC_SESSION_TERM_DROPPED s),
           invalidate NC_SESSION_TERM_DROPPED (bump_msgid m s)}"

lemma bump_invalidate:
  "invalidate NC_SESSION_TERM_DROPPED (bump_msgid m (invalidate NC_SESSION_TERM_DROPPED s)) =
     bump_msgid m (invalidate NC_SESSION_TERM_DROPPED s)"
  by (auto simp: bump_msgid_def invalidate_def split: out_msg.split)

lemma wr_safe_send_post:
  assumes "wr_safe s w0 warg s' w1" and "rx w0 = rx w" and "oob w0 = oob w"
    and "out_type m \<notin> {NC_MSG_ERROR, NC_MSG_WOULDBLOCK}"
  shows "send_post s w m NC_MSG_ERROR s' (io_unlock w1)"
  using assms wr_frameD(1) [of w0 w1] by (auto simp: wr_safe_def send_post_def)

lemma write_plan_post:
  assumes "write_items L its [] s w0 = Some (True, warg, s1, w1)" and "list_all (item_small L) its"
    and "nc_write_clb warg None False (bump_msgid m s1) w1 = Some (r, warg2, s', w2)"
    and "rx w0 = rx w" and "oob w0 = oob w" and "out_type m \<notin> {NC_MSG_ERROR, NC_MSG_WOULDBLOCK}"
  shows "send_post s w m (if live s' then out_type m else NC_MSG_ERROR) s' (io_unlock w2)"
proof -
  have safe1: "wr_safe s w0 warg s1 w1" by (rule write_items_safe [OF assms(1) _ assms(2)]) simp
  have "wr_safe (bump_msgid m s1) w1 warg2 s' w2"
    using nc_write_clb_safe [OF assms(3)] safe1 by (simp add: wr_safe_def)
  moreover have "rx w2 = rx w0" if "wr_frame w1 w2" "wr_frame w0 w1"
    using wr_frameD(1) [OF that(1)] wr_frameD(1) [OF that(2)] by simp
  ultimately show ?thesis
    using safe1 assms(4-6) bump_invalidate [of m s] by (auto simp: wr_safe_def send_post_def)
qed

lemma nc_write_msg_io_contract:
  assumes "nc_write_msg_io L s w m = Some (t, s', w')" and "\<not> io_held w"
    and "\<forall>its. msg_plan L s m = Some (Plan its) \<longrightarrow> list_all (item_small L) its"
    and "out_type m \<notin> {NC_MSG_ERROR, NC_MSG_WOULDBLOCK}"
  shows "send_post s w m t s' w'"
proof (cases "live s")
  case False
  then show ?thesis using assms by (auto simp: nc_write_msg_io_def send_post_def)
next
  case True
  obtain lr w0 where lk: "io_lock w = Some (lr, w0)"
    using assms(1) True by (auto simp: nc_write_msg_io_def split: option.splits)
  have lk': "rx w0 = rx w" "oob w0 = oob w" "tx w0 = tx w" "lr < 1 \<Longrightarrow> \<not> io_held w0"
    using lk assms(2) by (auto elim: io_lock_cases)
  show ?thesis
  proof (cases "lr < 1")
    case less: True
    then show ?thesis
      using assms(1,4) True lk lk' by (auto simp: nc_write_msg_io_def send_post_def split: if_splits)
  next
    case False
    then obtain p where p: "msg_plan L s m = Some p"
      using assms(1) True lk by (auto simp: nc_write_msg_io_def split: option.splits)
    show ?thesis
    proof (cases p)
      case Plan_error
      then show ?thesis using assms(1,4) True lk lk' False p by (auto simp: nc_write_msg_io_def send_post_def)
    next
      case Plan_end_error
      then obtain r warg w1 where c: "nc_write_clb [] None False s w0 = Some (r, warg, s', w1)"
        "t = NC_MSG_ERROR" "w' = io_unlock w1"
        using assms(1) True lk False p by (auto simp: nc_write_msg_io_def split: option.splits)
      then show ?thesis using wr_safe_send_post [OF nc_write_clb_safe [OF c(1)] lk'(1,2) assms(4)] by simp
    next
      case (Plan its)
      then have small: "list_all (item_small L) its" using p assms(3) by simp
      obtain ok warg s1 w1 where it: "write_items L its [] s w0 = Some (ok, warg, s1, w1)"
        using assms(1) True lk False p Plan by (auto simp: nc_write_msg_io_def split: option.splits)
      show ?thesis
      proof (cases ok)
        case notok: False
        then have "t = NC_MSG_ERROR" "s' = s1" "w' = io_unlock w1"
          using assms(1) True lk False p Plan it by (auto simp: nc_write_msg_io_def)
        then show ?thesis using wr_safe_send_post [OF write_items_safe [OF it _ small] lk'(1,2) assms(4)] by simp
      next
        case ok: True
        then obtain r warg2 w2 where e: "nc_write_clb warg None False (bump_msgid m s1) w1 = Some (r, warg2, s', w2)"
          "t = (if live s' then out_type m else NC_MSG_ERROR)" "w' = io_unlock w2"
          using assms(1) True lk False p Plan it by (auto simp: nc_write_msg_io_def split: option.splits)
        have "write_items L its [] s w0 = Some (True, warg, s1, w1)" using it ok by simp
        from write_plan_post [OF this small e(1) lk'(1,2) assms(4)] show ?thesis by (simp only: e(2,3))
      qed
    qed
  qed
qed

text \<open>C8: safety of sending. Over any transport, for any message whose pieces are shorter than
  2^31 bytes: \<^verbatim>\<open>nc_write_msg_io\<close> returns the type of the message, an error or would-block; the IO
  lock is free afterwards; the 1024-byte write buffer and the chunk header buffer are never
  overrun; received data is not touched; nothing is sent when the lock was not obtained; the
  session only changes by counting the message-id up or by being marked as dropped, and it is
  still usable whenever the type of the message is returned.\<close>

theorem nc_write_msg_io_safe:
  assumes "nc_write_msg_io L s w m = Some (t, s', w')" and "\<not> io_held w"
    and "\<forall>its. msg_plan L s m = Some (Plan its) \<longrightarrow> list_all (item_small L) its"
    and "out_type m \<notin> {NC_MSG_ERROR, NC_MSG_WOULDBLOCK}"
  shows "t \<in> {out_type m, NC_MSG_ERROR, NC_MSG_WOULDBLOCK} \<and> \<not> io_held w' \<and> oob w' = oob w \<and> rx w' = rx w \<and>
         (t = NC_MSG_WOULDBLOCK \<longrightarrow> s' = s \<and> tx w' = tx w) \<and> (t = out_type m \<longrightarrow> live s') \<and>
         s' \<in> {s, bump_msgid m s, invalidate NC_SESSION_TERM_DROPPED s,
               bump_msgid m (invalidate NC_SESSION_TERM_DROPPED s),
               invalidate NC_SESSION_TERM_DROPPED (bump_msgid m s)}"
  by (rule nc_write_msg_io_contract [OF assms, unfolded send_post_def])

theorem nc_write_msg_io_safe_witness:
  "\<exists>s' w'. nc_write_msg_io demo_ly (demo_session NC_VERSION_11) (demo_out_wire\<lparr>lock_sched := [LK_EBUSY]\<rparr>) demo_rpc
              = Some (NC_MSG_WOULDBLOCK, s', w') \<and> \<not> io_held w' \<and> tx w' = []"
proof -
  let ?s = "demo_session NC_VERSION_11"
  let ?w = "demo_out_wire\<lparr>lock_sched := [LK_EBUSY]\<rparr>"
  obtain w' where r: "nc_write_msg_io demo_ly ?s ?w demo_rpc = Some (NC_MSG_WOULDBLOCK, ?s, w')"
    by (simp add: nc_write_msg_io_def demo_session_def nc_new_session_def live_def io_lock_def nc_session_io_lock_def Let_def)
  have small: "list_all (item_small demo_ly) (rpc_items ?s ''<get/>'' False None)" by code_simp
  have 2: "\<not> io_held ?w" "tx ?w = []" by (simp_all add: demo_out_wire_def demo_wire_def)
  have 3: "\<forall>its. msg_plan demo_ly ?s demo_rpc = Some (Plan its) \<longrightarrow> list_all (item_small demo_ly) its"
    using small by (simp add: msg_plan_def demo_rpc_def)
  have 4: "out_type demo_rpc \<notin> {NC_MSG_ERROR, NC_MSG_WOULDBLOCK}" by (simp add: demo_rpc_def)
  show ?thesis using nc_write_msg_io_safe [OF r 2(1) 3 4] r 2(2) by auto
qed


end
