(* ===== verification/NC_ServerMessages.thy ===== *)
theory NC_ServerMessages
  imports NC_WriteMsg
begin

text \<open>
  \<^verbatim>\<open>messages_server.c\<close>: rpc-error trees (\<^verbatim>\<open>nc_err\<close> and the functions that edit and read them),
  replies and notifications. An rpc-error is a tree of opaque libyang nodes; libyang's
  operations on such nodes are the parameter \<open>oq_ops\<close>, and \<open>oq_laws\<close> states what its
  documentation says of them.
\<close>

section \<open>Error tags and types\<close>

datatype nc_err_tag = NC_ERR_UNKNOWN | NC_ERR_IN_USE | NC_ERR_INVALID_VALUE | NC_ERR_TOO_BIG
  | NC_ERR_MISSING_ATTR | NC_ERR_BAD_ATTR | NC_ERR_UNKNOWN_ATTR | NC_ERR_MISSING_ELEM
  | NC_ERR_BAD_ELEM | NC_ERR_UNKNOWN_ELEM | NC_ERR_UNKNOWN_NS | NC_ERR_ACCESS_DENIED
  | NC_ERR_LOCK_DENIED | NC_ERR_RES_DENIED | NC_ERR_ROLLBACK_FAILED | NC_ERR_DATA_EXISTS
  | NC_ERR_DATA_MISSING | NC_ERR_OP_NOT_SUPPORTED | NC_ERR_OP_FAILED | NC_ERR_MALFORMED_MSG

datatype nc_err_type = NC_ERR_TYPE_UNKNOWN | NC_ERR_TYPE_TRAN | NC_ERR_TYPE_RPC
  | NC_ERR_TYPE_PROT | NC_ERR_TYPE_APP

fun nc_err_tag2str :: "nc_err_tag \<Rightarrow> string option" where
  "nc_err_tag2str NC_ERR_IN_USE = Some ''in-use''"
| "nc_err_tag2str NC_ERR_INVALID_VALUE = Some ''invalid-value''"
| "nc_err_tag2str NC_ERR_ACCESS_DENIED = Some ''access-denied''"
| "nc_err_tag2str NC_ERR_ROLLBACK_FAILED = Some ''rollback-failed''"
| "nc_err_tag2str NC_ERR_OP_NOT_SUPPORTED = Some ''operation-not-supported''"
| "nc_err_tag2str NC_ERR_TOO_BIG = Some ''too-big''"
| "nc_err_tag2str NC_ERR_RES_DENIED = Some ''resource-denied''"
| "nc_err_tag2str NC_ERR_MISSING_ATTR = Some ''missing-attribute''"
| "nc_err_tag2str NC_ERR_BAD_ATTR = Some ''bad-attribute''"
| "nc_err_tag2str NC_ERR_UNKNOWN_ATTR = Some ''unknown-attribute''"
| "nc_err_tag2str NC_ERR_MISSING_ELEM = Some ''missing-element''"
| "nc_err_tag2str NC_ERR_BAD_ELEM = Some ''bad-element''"
| "nc_err_tag2str NC_ERR_UNKNOWN_ELEM = Some ''unknown-element''"
| "nc_err_tag2str NC_ERR_UNKNOWN_NS = Some ''unknown-namespace''"
| "nc_err_tag2str NC_ERR_LOCK_DENIED = Some ''lock-denied''"
| "nc_err_tag2str NC_ERR_DATA_EXISTS = Some ''data-exists''"
| "nc_err_tag2str NC_ERR_DATA_MISSING = Some ''data-missing''"
| "nc_err_tag2str NC_ERR_OP_FAILED = Some ''operation-failed''"
| "nc_err_tag2str NC_ERR_MALFORMED_MSG = Some ''malformed-message''"
| "nc_err_tag2str NC_ERR_UNKNOWN = None"

definition nc_err_str2tag :: "string \<Rightarrow> nc_err_tag" where
  "nc_err_str2tag str =
     (if str = ''in-use'' then NC_ERR_IN_USE
      else if str = ''invalid-value'' then NC_ERR_INVALID_VALUE
      else if str = ''access-denied'' then NC_ERR_ACCESS_DENIED
      else if str = ''rollback-failed'' then NC_ERR_ROLLBACK_FAILED
      else if str = ''operation-not-supported'' then NC_ERR_OP_NOT_SUPPORTED
      else if str = ''too-big'' then NC_ERR_TOO_BIG
      else if str = ''resource-denied'' then NC_ERR_RES_DENIED
      else if str = ''missing-attribute'' then NC_ERR_MISSING_ATTR
      else if str = ''bad-attribute'' then NC_ERR_BAD_ATTR
      else if str = ''unknown-attribute'' then NC_ERR_UNKNOWN_ATTR
      else if str = ''missing-element'' then NC_ERR_MISSING_ELEM
      else if str = ''bad-element'' then NC_ERR_BAD_ELEM
      else if str = ''unknown-element'' then NC_ERR_UNKNOWN_ELEM
      else if str = ''unknown-namespace'' then NC_ERR_UNKNOWN_NS
      else if str = ''lock-denied'' then NC_ERR_LOCK_DENIED
      else if str = ''data-exists'' then NC_ERR_DATA_EXISTS
      else if str = ''data-missing'' then NC_ERR_DATA_MISSING
      else if str = ''operation-failed'' then NC_ERR_OP_FAILED
      else if str = ''malformed-message'' then NC_ERR_MALFORMED_MSG
      else NC_ERR_UNKNOWN)"

fun nc_err_type2str :: "nc_err_type \<Rightarrow> string option" where
  "nc_err_type2str NC_ERR_TYPE_TRAN = Some ''transport''"
| "nc_err_type2str NC_ERR_TYPE_RPC = Some ''rpc''"
| "nc_err_type2str NC_ERR_TYPE_PROT = Some ''protocol''"
| "nc_err_type2str NC_ERR_TYPE_APP = Some ''application''"
| "nc_err_type2str NC_ERR_TYPE_UNKNOWN = None"

definition nc_err_str2type :: "string \<Rightarrow> nc_err_type" where
  "nc_err_str2type str =
     (if str = ''transport'' then NC_ERR_TYPE_TRAN
      else if str = ''rpc'' then NC_ERR_TYPE_RPC
      else if str = ''protocol'' then NC_ERR_TYPE_PROT
      else if str = ''application'' then NC_ERR_TYPE_APP
      else NC_ERR_TYPE_UNKNOWN)"

text \<open>
  The contract of a pair of conversions between an enumeration and its names: every value but
  one has a name, and a string that is no name reads as the exceptional value.
\<close>

locale enum_codec =
  fixes enc :: "'e \<Rightarrow> string option" and dec :: "string \<Rightarrow> 'e" and unknown :: 'e
  assumes enc_unknown: "enc e = None \<longleftrightarrow> e = unknown"
    and dec_enc: "enc e = Some s \<Longrightarrow> dec s = e"
    and enc_dec: "dec s \<noteq> unknown \<Longrightarrow> enc (dec s) = Some s"
begin

lemma enc_inj: "enc e = enc e' \<Longrightarrow> e = e'"
  using dec_enc enc_unknown by (cases "enc e") metis+

lemma dec_iff: "e \<noteq> unknown \<Longrightarrow> dec s = e \<longleftrightarrow> enc e = Some s"
  using dec_enc enc_dec by blast

end

lemma if_named: "(c \<Longrightarrow> P a) \<Longrightarrow> P b \<Longrightarrow> P (if c then a else b)"
  by simp

lemma nc_err_str2tag_named: "nc_err_tag2str (nc_err_str2tag s) = Some s \<or> nc_err_str2tag s = NC_ERR_UNKNOWN"
proof -
  define ok where "ok e \<longleftrightarrow> nc_err_tag2str e = Some s \<or> e = NC_ERR_UNKNOWN" for e
  have "ok (nc_err_str2tag s)" unfolding nc_err_str2tag_def by (intro if_named [where P = ok]) (simp_all add: ok_def)
  then show ?thesis by (simp add: ok_def)
qed

lemma nc_err_tag2str_read: "e = NC_ERR_UNKNOWN \<or> (\<exists>s. nc_err_tag2str e = Some s \<and> nc_err_str2tag s = e)"
  by (cases e; simp; code_simp)

interpretation tag_codec: enum_codec nc_err_tag2str nc_err_str2tag NC_ERR_UNKNOWN
proof
  show u: "nc_err_tag2str e = None \<longleftrightarrow> e = NC_ERR_UNKNOWN" for e by (cases e) simp_all
  show "nc_err_tag2str e = Some s \<Longrightarrow> nc_err_str2tag s = e" for e s
    using nc_err_tag2str_read [of e] u [of e] by auto
  show "nc_err_str2tag s \<noteq> NC_ERR_UNKNOWN \<Longrightarrow> nc_err_tag2str (nc_err_str2tag s) = Some s" for s
    using nc_err_str2tag_named [of s] by blast
qed

lemma nc_err_str2type_named: "nc_err_type2str (nc_err_str2type s) = Some s \<or> nc_err_str2type s = NC_ERR_TYPE_UNKNOWN"
proof -
  define ok where "ok e \<longleftrightarrow> nc_err_type2str e = Some s \<or> e = NC_ERR_TYPE_UNKNOWN" for e
  have "ok (nc_err_str2type s)" unfolding nc_err_str2type_def by (intro if_named [where P = ok]) (simp_all add: ok_def)
  then show ?thesis by (simp add: ok_def)
qed

lemma nc_err_type2str_read: "e = NC_ERR_TYPE_UNKNOWN \<or> (\<exists>s. nc_err_type2str e = Some s \<and> nc_err_str2type s = e)"
  by (cases e; simp; code_simp)

interpretation type_codec: enum_codec nc_err_type2str nc_err_str2type NC_ERR_TYPE_UNKNOWN
proof
  show u: "nc_err_type2str e = None \<longleftrightarrow> e = NC_ERR_TYPE_UNKNOWN" for e by (cases e) simp_all
  show "nc_err_type2str e = Some s \<Longrightarrow> nc_err_str2type s = e" for e s
    using nc_err_type2str_read [of e] u [of e] by auto
  show "nc_err_str2type s \<noteq> NC_ERR_TYPE_UNKNOWN \<Longrightarrow> nc_err_type2str (nc_err_str2type s) = Some s" for s
    using nc_err_str2type_named [of s] by blast
qed

section \<open>Opaque trees\<close>

text \<open>
  What the sources use of libyang's opaque nodes. The name, value and children are fields of the
  node. \<open>lyd_new_opaq2 p n v\<close> creates a node in the base namespace, with no parent or as a child
  of \<open>p\<close> (then the result is \<open>p\<close> with that child). Children are changed in place in the code;
  \<open>oq_put p i c\<close> is \<open>p\<close> with its \<open>i\<close>th child changed to \<open>c\<close>.
\<close>

record 'n oq_ops =
  oq_name :: "'n \<Rightarrow> string"
  oq_value :: "'n \<Rightarrow> string"
  oq_kids :: "'n \<Rightarrow> 'n list"
  lyd_new_opaq2 :: "'n option \<Rightarrow> string \<Rightarrow> string option \<Rightarrow> 'n option"
  lyd_find_sibling_opaq_next :: "'n list \<Rightarrow> string \<Rightarrow> nat option"
  lyd_free_child :: "'n \<Rightarrow> nat \<Rightarrow> 'n"
  lyd_new_attr :: "'n \<Rightarrow> string \<Rightarrow> string \<Rightarrow> 'n option"
  lyd_insert_child :: "'n \<Rightarrow> 'n \<Rightarrow> 'n"
  oq_put :: "'n \<Rightarrow> nat \<Rightarrow> 'n \<Rightarrow> 'n"

definition oq_laws :: "'n oq_ops \<Rightarrow> bool" where
  "oq_laws L \<longleftrightarrow>
     (\<forall>n v t. lyd_new_opaq2 L None n v = Some t \<longrightarrow>
        oq_name L t = n \<and> oq_kids L t = [] \<and> (\<forall>x. v = Some x \<longrightarrow> oq_value L t = x)) \<and>
     (\<forall>p n v t. lyd_new_opaq2 L (Some p) n v = Some t \<longrightarrow>
        oq_name L t = oq_name L p \<and> oq_value L t = oq_value L p \<and>
        (\<exists>c. oq_kids L t = oq_kids L p @ [c] \<and> oq_name L c = n \<and> oq_kids L c = [] \<and>
             (\<forall>x. v = Some x \<longrightarrow> oq_value L c = x))) \<and>
     (\<forall>cs n. lyd_find_sibling_opaq_next L cs n = find_idx (\<lambda>c. oq_name L c = n) cs) \<and>
     (\<forall>p i. i < length (oq_kids L p) \<longrightarrow>
        oq_kids L (lyd_free_child L p i) = take i (oq_kids L p) @ drop (Suc i) (oq_kids L p) \<and>
        oq_name L (lyd_free_child L p i) = oq_name L p \<and> oq_value L (lyd_free_child L p i) = oq_value L p) \<and>
     (\<forall>t n v t'. lyd_new_attr L t n v = Some t' \<longrightarrow>
        oq_name L t' = oq_name L t \<and> oq_value L t' = oq_value L t \<and> oq_kids L t' = oq_kids L t) \<and>
     (\<forall>p c. oq_kids L (lyd_insert_child L p c) = oq_kids L p @ [c] \<and>
        oq_name L (lyd_insert_child L p c) = oq_name L p \<and> oq_value L (lyd_insert_child L p c) = oq_value L p) \<and>
     (\<forall>p i c. oq_kids L (oq_put L p i c) = (oq_kids L p)[i := c] \<and>
        oq_name L (oq_put L p i c) = oq_name L p \<and> oq_value L (oq_put L p i c) = oq_value L p)"

text \<open>libyang does not run out of memory.\<close>

definition oq_alloc :: "'n oq_ops \<Rightarrow> bool" where
  "oq_alloc L \<longleftrightarrow> (\<forall>p n v. lyd_new_opaq2 L p n v \<noteq> None) \<and> (\<forall>t n v. lyd_new_attr L t n v \<noteq> None)"

section \<open>Editing an rpc-error\<close>

text \<open>Every function takes the error tree and returns its C result and the tree as it is afterwards.
  Removing the previous node of a name, the first step of the setters:\<close>

definition oq_drop :: "'n oq_ops \<Rightarrow> 'n \<Rightarrow> string \<Rightarrow> 'n" where
  "oq_drop L p n =
     (case lyd_find_sibling_opaq_next L (oq_kids L p) n of None \<Rightarrow> p | Some i \<Rightarrow> lyd_free_child L p i)"

text \<open>Adding a child, and the value of the first child of a name.\<close>

definition oq_add :: "'n oq_ops \<Rightarrow> 'n \<Rightarrow> string \<Rightarrow> string \<Rightarrow> int \<times> 'n" where
  "oq_add L p n v = (case lyd_new_opaq2 L (Some p) n (Some v) of None \<Rightarrow> (-1, p) | Some p' \<Rightarrow> (0, p'))"

definition oq_get :: "'n oq_ops \<Rightarrow> 'n \<Rightarrow> string \<Rightarrow> string option" where
  "oq_get L p n =
     map_option (\<lambda>i. oq_value L (oq_kids L p ! i)) (lyd_find_sibling_opaq_next L (oq_kids L p) n)"

definition nc_err_get_type :: "'n oq_ops \<Rightarrow> 'n option \<Rightarrow> nc_err_type" where
  "nc_err_get_type L eo =
     (case eo of None \<Rightarrow> NC_ERR_TYPE_UNKNOWN
      | Some err \<Rightarrow> (case oq_get L err ''error-type'' of None \<Rightarrow> NC_ERR_TYPE_UNKNOWN | Some v \<Rightarrow> nc_err_str2type v))"

definition nc_err_get_tag :: "'n oq_ops \<Rightarrow> 'n option \<Rightarrow> nc_err_tag" where
  "nc_err_get_tag L eo =
     (case eo of None \<Rightarrow> NC_ERR_UNKNOWN
      | Some err \<Rightarrow> (case oq_get L err ''error-tag'' of None \<Rightarrow> NC_ERR_UNKNOWN | Some v \<Rightarrow> nc_err_str2tag v))"

definition nc_err_set_app_tag :: "'n oq_ops \<Rightarrow> 'n \<Rightarrow> string option \<Rightarrow> int \<times> 'n" where
  "nc_err_set_app_tag L err vo =
     (case vo of None \<Rightarrow> (-1, err) | Some v \<Rightarrow> oq_add L (oq_drop L err ''error-app-tag'') ''error-app-tag'' v)"

definition nc_err_get_app_tag :: "'n oq_ops \<Rightarrow> 'n option \<Rightarrow> string option" where
  "nc_err_get_app_tag L eo = (case eo of None \<Rightarrow> None | Some err \<Rightarrow> oq_get L err ''error-app-tag'')"

definition nc_err_set_path :: "'n oq_ops \<Rightarrow> 'n \<Rightarrow> string option \<Rightarrow> int \<times> 'n" where
  "nc_err_set_path L err vo =
     (case vo of None \<Rightarrow> (-1, err) | Some v \<Rightarrow> oq_add L (oq_drop L err ''error-path'') ''error-path'' v)"

definition nc_err_get_path :: "'n oq_ops \<Rightarrow> 'n option \<Rightarrow> string option" where
  "nc_err_get_path L eo = (case eo of None \<Rightarrow> None | Some err \<Rightarrow> oq_get L err ''error-path'')"

text \<open>The message gets a language attribute; when that fails the new node is freed again.\<close>

definition nc_err_set_msg :: "'n oq_ops \<Rightarrow> 'n \<Rightarrow> string option \<Rightarrow> string option \<Rightarrow> int \<times> 'n" where
  "nc_err_set_msg L err mo lang =
     (case mo of None \<Rightarrow> (-1, err)
      | Some m \<Rightarrow>
          (case oq_add L (oq_drop L err ''error-message'') ''error-message'' m of
             (r, e) \<Rightarrow>
               if r \<noteq> 0 then (-1, e)
               else let k = length (oq_kids L e) - 1 in
                 (case lang of None \<Rightarrow> (0, e)
                  | Some l \<Rightarrow>
                      (case lyd_new_attr L (oq_kids L e ! k) ''xml:lang'' l of
                         None \<Rightarrow> (-1, lyd_free_child L e k)
                       | Some c \<Rightarrow> (0, oq_put L e k c)))))"

definition nc_err_get_msg :: "'n oq_ops \<Rightarrow> 'n option \<Rightarrow> string option" where
  "nc_err_get_msg L eo = (case eo of None \<Rightarrow> None | Some err \<Rightarrow> oq_get L err ''error-message'')"

text \<open>Work on the \<^verbatim>\<open>error-info\<close> child, which is created when it is missing.\<close>

definition with_info :: "'n oq_ops \<Rightarrow> 'n \<Rightarrow> ('n \<Rightarrow> int \<times> 'n) \<Rightarrow> int \<times> 'n" where
  "with_info L err work =
     (let at = (\<lambda>e i. case work (oq_kids L e ! i) of (r, info) \<Rightarrow> (r, oq_put L e i info)) in
      case lyd_find_sibling_opaq_next L (oq_kids L err) ''error-info'' of
        Some i \<Rightarrow> at err i
      | None \<Rightarrow>
          (case lyd_new_opaq2 L (Some err) ''error-info'' None of
             None \<Rightarrow> (-1, err)
           | Some e \<Rightarrow> at e (length (oq_kids L e) - 1)))"

definition nc_err_set_sid :: "'n oq_ops \<Rightarrow> 'n \<Rightarrow> u32 \<Rightarrow> int \<times> 'n" where
  "nc_err_set_sid L err sid =
     with_info L err (\<lambda>info. oq_add L (oq_drop L info ''session-id'') ''session-id'' (dec_str (unat sid)))"

definition nc_err_add_bad_attr :: "'n oq_ops \<Rightarrow> 'n \<Rightarrow> string option \<Rightarrow> int \<times> 'n" where
  "nc_err_add_bad_attr L err vo =
     (case vo of None \<Rightarrow> (-1, err) | Some v \<Rightarrow> with_info L err (\<lambda>info. oq_add L info ''bad-attribute'' v))"

definition nc_err_add_bad_elem :: "'n oq_ops \<Rightarrow> 'n \<Rightarrow> string option \<Rightarrow> int \<times> 'n" where
  "nc_err_add_bad_elem L err vo =
     (case vo of None \<Rightarrow> (-1, err) | Some v \<Rightarrow> with_info L err (\<lambda>info. oq_add L info ''bad-element'' v))"

definition nc_err_add_bad_ns :: "'n oq_ops \<Rightarrow> 'n \<Rightarrow> string option \<Rightarrow> int \<times> 'n" where
  "nc_err_add_bad_ns L err vo =
     (case vo of None \<Rightarrow> (-1, err) | Some v \<Rightarrow> with_info L err (\<lambda>info. oq_add L info ''bad-namespace'' v))"

definition nc_err_add_info_other :: "'n oq_ops \<Rightarrow> 'n \<Rightarrow> 'n option \<Rightarrow> int \<times> 'n" where
  "nc_err_add_info_other L err oo =
     (case oo of None \<Rightarrow> (-1, err) | Some other \<Rightarrow> with_info L err (\<lambda>info. (0, lyd_insert_child L info other)))"

section \<open>Building an rpc-error\<close>

text \<open>The variable arguments of \<^verbatim>\<open>nc_err\<close>: the error type, up to two strings, a session-id. Which of
  them are read depends on the tag.\<close>

record err_args =
  ea_type :: nc_err_type
  ea_arg1 :: "string option"
  ea_arg2 :: "string option"
  ea_sid :: u32

text \<open>The first switch: the type of the error, \<open>None\<close> when the tag does not allow the type given.\<close>

definition err_type :: "nc_err_tag \<Rightarrow> nc_err_type \<Rightarrow> nc_err_type option" where
  "err_type tag t =
     (case tag of
        NC_ERR_UNKNOWN \<Rightarrow> None
      | NC_ERR_TOO_BIG \<Rightarrow> Some t
      | NC_ERR_RES_DENIED \<Rightarrow> Some t
      | NC_ERR_MISSING_ATTR \<Rightarrow> if t = NC_ERR_TYPE_TRAN then None else Some t
      | NC_ERR_BAD_ATTR \<Rightarrow> if t = NC_ERR_TYPE_TRAN then None else Some t
      | NC_ERR_UNKNOWN_ATTR \<Rightarrow> if t = NC_ERR_TYPE_TRAN then None else Some t
      | NC_ERR_OP_FAILED \<Rightarrow> if t = NC_ERR_TYPE_TRAN then None else Some t
      | NC_ERR_LOCK_DENIED \<Rightarrow> Some NC_ERR_TYPE_PROT
      | NC_ERR_DATA_EXISTS \<Rightarrow> Some NC_ERR_TYPE_APP
      | NC_ERR_DATA_MISSING \<Rightarrow> Some NC_ERR_TYPE_APP
      | NC_ERR_MALFORMED_MSG \<Rightarrow> Some NC_ERR_TYPE_RPC
      | _ \<Rightarrow> if t \<noteq> NC_ERR_TYPE_PROT \<and> t \<noteq> NC_ERR_TYPE_APP then None else Some t)"

text \<open>The second switch: the default message.\<close>

fun err_msg :: "nc_err_tag \<Rightarrow> string option" where
  "err_msg NC_ERR_IN_USE = Some ''The request requires a resource that already is in use.''"
| "err_msg NC_ERR_INVALID_VALUE = Some ''The request specifies an unacceptable value for one or more parameters.''"
| "err_msg NC_ERR_TOO_BIG = Some ''The request or response (that would be generated) is too large for the implementation to handle.''"
| "err_msg NC_ERR_MISSING_ATTR = Some ''An expected attribute is missing.''"
| "err_msg NC_ERR_BAD_ATTR = Some ''An attribute value is not correct.''"
| "err_msg NC_ERR_UNKNOWN_ATTR = Some ''An unexpected attribute is present.''"
| "err_msg NC_ERR_MISSING_ELEM = Some ''An expected element is missing.''"
| "err_msg NC_ERR_BAD_ELEM = Some ''An element value is not correct.''"
| "err_msg NC_ERR_UNKNOWN_ELEM = Some ''An unexpected element is present.''"
| "err_msg NC_ERR_UNKNOWN_NS = Some ''An unexpected namespace is present.''"
| "err_msg NC_ERR_ACCESS_DENIED = Some ''Access to the requested protocol operation or data model is denied because authorization failed.''"
| "err_msg NC_ERR_LOCK_DENIED = Some ''Access to the requested lock is denied because the lock is currently held by another entity.''"
| "err_msg NC_ERR_RES_DENIED = Some ''Request could not be completed because of insufficient resources.''"
| "err_msg NC_ERR_ROLLBACK_FAILED = Some ''Request to roll back some configuration change was not completed for some reason.''"
| "err_msg NC_ERR_DATA_EXISTS = Some ''Request could not be completed because the relevant data model content already exists.''"
| "err_msg NC_ERR_DATA_MISSING = Some ''Request could not be completed because the relevant data model content does not exist.''"
| "err_msg NC_ERR_OP_NOT_SUPPORTED = Some ''Request could not be completed because the requested operation is not supported by this implementation.''"
| "err_msg NC_ERR_OP_FAILED = Some ''Request could not be completed because the requested operation failed for a non-specific reason.''"
| "err_msg NC_ERR_MALFORMED_MSG = Some ''A message could not be handled because it failed to be parsed correctly.''"
| "err_msg NC_ERR_UNKNOWN = None"

text \<open>The third switch: the error-info; the results of the calls are not looked at.\<close>

definition err_info :: "'n oq_ops \<Rightarrow> nc_err_tag \<Rightarrow> err_args \<Rightarrow> 'n \<Rightarrow> 'n" where
  "err_info L tag a err =
     (if tag \<in> {NC_ERR_MISSING_ATTR, NC_ERR_BAD_ATTR, NC_ERR_UNKNOWN_ATTR}
      then snd (nc_err_add_bad_elem L (snd (nc_err_add_bad_attr L err (ea_arg1 a))) (ea_arg2 a))
      else if tag \<in> {NC_ERR_MISSING_ELEM, NC_ERR_BAD_ELEM, NC_ERR_UNKNOWN_ELEM}
      then snd (nc_err_add_bad_elem L err (ea_arg1 a))
      else if tag = NC_ERR_UNKNOWN_NS
      then snd (nc_err_add_bad_ns L (snd (nc_err_add_bad_elem L err (ea_arg1 a))) (ea_arg2 a))
      else if tag = NC_ERR_LOCK_DENIED then snd (nc_err_set_sid L err (ea_sid a))
      else err)"

definition nc_err :: "'n oq_ops \<Rightarrow> nc_err_tag \<Rightarrow> err_args \<Rightarrow> 'n option" where
  "nc_err L tag a =
     (if tag = NC_ERR_UNKNOWN then None
      else case lyd_new_opaq2 L None ''rpc-error'' None of None \<Rightarrow> None
      | Some e0 \<Rightarrow>
        (case err_type tag (ea_type a) of None \<Rightarrow> None
         | Some type \<Rightarrow>
          (case lyd_new_opaq2 L (Some e0) ''error-type'' (nc_err_type2str type) of None \<Rightarrow> None
           | Some e1 \<Rightarrow>
            (case lyd_new_opaq2 L (Some e1) ''error-tag'' (nc_err_tag2str tag) of None \<Rightarrow> None
             | Some e2 \<Rightarrow>
              (case lyd_new_opaq2 L (Some e2) ''error-severity'' (Some ''error'') of None \<Rightarrow> None
               | Some e3 \<Rightarrow> Some (err_info L tag a (snd (nc_err_set_msg L e3 (err_msg tag) (Some ''en'')))))))))"

section \<open>Replies and notifications\<close>

text \<open>\<open>data_ok\<close> tells whether the data node is that of an RPC or action; \<open>dup\<close> is the copy libyang
  makes (\<^verbatim>\<open>lyd_dup_single\<close>). The flag records whether freeing the reply frees the data.\<close>

record 'n server_reply =
  srp :: "'n nc_server_reply"
  srp_free :: bool

definition nc_server_reply_ok :: "bool \<Rightarrow> 'n server_reply option" where
  "nc_server_reply_ok alloc = (if \<not> alloc then None else Some \<lparr>srp = Reply_ok, srp_free = False\<rparr>)"

definition nc_server_reply_data ::
  "('n \<Rightarrow> bool) \<Rightarrow> ('n \<Rightarrow> 'n option) \<Rightarrow> bool \<Rightarrow> 'n option \<Rightarrow> nc_wd_mode \<Rightarrow> nc_paramtype \<Rightarrow> 'n server_reply option"
where
  "nc_server_reply_data data_ok dup alloc datao wd pt =
     (case datao of None \<Rightarrow> None
      | Some data \<Rightarrow>
          if \<not> data_ok data then None
          else if \<not> alloc then None
          else case (if pt = NC_PARAMTYPE_DUP_AND_FREE then dup data else Some data) of
                 None \<Rightarrow> None
               | Some d \<Rightarrow> Some \<lparr>srp = Reply_data d wd, srp_free = (pt \<noteq> NC_PARAMTYPE_CONST)\<rparr>)"

definition nc_server_reply_err :: "bool \<Rightarrow> 'n option \<Rightarrow> 'n server_reply option" where
  "nc_server_reply_err alloc erro =
     (case erro of None \<Rightarrow> None
      | Some err \<Rightarrow> if \<not> alloc then None else Some \<lparr>srp = Reply_error err, srp_free = True\<rparr>)"

text \<open>The nodes a reply frees with itself.\<close>

definition nc_server_reply_free :: "'n server_reply option \<Rightarrow> 'n list" where
  "nc_server_reply_free ro =
     (case ro of None \<Rightarrow> []
      | Some r \<Rightarrow> (case srp r of Reply_data d _ \<Rightarrow> if srp_free r then [d] else []
                    | Reply_error e \<Rightarrow> [e] | _ \<Rightarrow> []))"

record 'n nc_server_notif =
  ntf_eventtime :: "string option"
  ntf :: 'n
  ntf_free :: bool

definition nc_server_notif_new ::
  "('n \<Rightarrow> bool) \<Rightarrow> ('n \<Rightarrow> 'n option) \<Rightarrow> bool \<Rightarrow> bool \<Rightarrow> 'n option \<Rightarrow> string option \<Rightarrow> nc_paramtype \<Rightarrow>
   'n nc_server_notif option"
where
  "nc_server_notif_new has_notif dup alloc str_alloc evo tmo pt =
     (case (evo, tmo) of
        (Some ev, Some tm) \<Rightarrow>
          if \<not> has_notif ev then None
          else if \<not> alloc then None
          else if pt = NC_PARAMTYPE_DUP_AND_FREE
          then (case dup ev of None \<Rightarrow> None
                | Some d \<Rightarrow> Some \<lparr>ntf_eventtime = (if str_alloc then Some tm else None), ntf = d, ntf_free = True\<rparr>)
          else Some \<lparr>ntf_eventtime = Some tm, ntf = ev, ntf_free = (pt \<noteq> NC_PARAMTYPE_CONST)\<rparr>
      | _ \<Rightarrow> None)"

definition nc_server_notif_free :: "'n nc_server_notif option \<Rightarrow> 'n list \<times> string list" where
  "nc_server_notif_free no =
     (case no of None \<Rightarrow> ([], [])
      | Some n \<Rightarrow> if ntf_free n then ([ntf n], case ntf_eventtime n of None \<Rightarrow> [] | Some t \<Rightarrow> [t]) else ([], []))"

definition nc_server_notif_get_time :: "'n nc_server_notif option \<Rightarrow> string option" where
  "nc_server_notif_get_time no = (case no of None \<Rightarrow> None | Some n \<Rightarrow> ntf_eventtime n)"

text \<open>Further errors are linked after the first; \<open>insert_sibling\<close> and \<open>last_sibling\<close> are libyang's.\<close>

definition nc_server_reply_add_err ::
  "('n \<Rightarrow> 'n \<Rightarrow> 'n) \<Rightarrow> 'n server_reply option \<Rightarrow> 'n option \<Rightarrow> int \<times> 'n server_reply option"
where
  "nc_server_reply_add_err insert_sibling ro erro =
     (case ro of None \<Rightarrow> (-1, None)
      | Some r \<Rightarrow>
          (case srp r of
             Reply_error e \<Rightarrow>
               (case erro of None \<Rightarrow> (-1, ro)
                | Some err \<Rightarrow> (0, Some (r\<lparr>srp := Reply_error (insert_sibling e err)\<rparr>)))
           | _ \<Rightarrow> (-1, ro)))"

definition nc_server_reply_get_last_err :: "('n \<Rightarrow> 'n) \<Rightarrow> 'n server_reply option \<Rightarrow> 'n option" where
  "nc_server_reply_get_last_err last_sibling ro =
     (case ro of None \<Rightarrow> None
      | Some r \<Rightarrow> (case srp r of Reply_error e \<Rightarrow> Some (last_sibling e) | _ \<Rightarrow> None))"

section \<open>An rpc-error as a list of fields\<close>

definition fields :: "'n oq_ops \<Rightarrow> 'n \<Rightarrow> (string \<times> string) list" where
  "fields L e = map (\<lambda>c. (oq_name L c, oq_value L c)) (oq_kids L e)"

fun drop_first :: "string \<Rightarrow> (string \<times> string) list \<Rightarrow> (string \<times> string) list" where
  "drop_first n [] = []"
| "drop_first n (f # fs) = (if fst f = n then fs else f # drop_first n fs)"

lemma map_of_drop_first:
  "distinct (map fst fs) \<Longrightarrow> map_of (drop_first n fs) m = (if m = n then None else map_of fs m)"
proof (induction fs)
  case (Cons f fs)
  then show ?case by (cases f) (force simp: map_of_eq_None_iff)
qed simp

lemma fst_drop_first: "set (map fst (drop_first n fs)) \<subseteq> set (map fst fs)"
  by (induction fs) auto

lemma distinct_drop_first:
  "distinct (map fst fs) \<Longrightarrow> distinct (map fst (drop_first n fs)) \<and> n \<notin> set (map fst (drop_first n fs))"
proof (induction fs)
  case (Cons f fs)
  then show ?case using fst_drop_first [of n fs] by auto
qed simp

lemma drop_first_absent: "n \<notin> set (map fst fs) \<Longrightarrow> drop_first n fs = fs"
  by (induction fs) auto

lemma drop_first_idx:
  "find_idx P xs = Some i \<Longrightarrow> (\<forall>x \<in> set xs. P x = (fst (f x) = n)) \<Longrightarrow>
     map f (take i xs @ drop (Suc i) xs) = drop_first n (map f xs)"
proof (induction xs arbitrary: i)
  case (Cons x xs)
  then show ?case by (cases "P x") auto
qed simp

definition info_fields :: "'n oq_ops \<Rightarrow> 'n \<Rightarrow> (string \<times> string) list" where
  "info_fields L e =
     (case find_idx (\<lambda>c. oq_name L c = ''error-info'') (oq_kids L e) of
        None \<Rightarrow> [] | Some i \<Rightarrow> fields L (oq_kids L e ! i))"

definition err_wf :: "'n oq_ops \<Rightarrow> 'n \<Rightarrow> bool" where
  "err_wf L e \<longleftrightarrow> distinct (map fst (fields L e))"

lemma fields_find: "find_idx (\<lambda>c. oq_name L c = n) (oq_kids L e) = None \<longleftrightarrow> n \<notin> set (map fst (fields L e))"
  by (auto simp: find_idx_None fields_def)

text \<open>The laws of libyang, one by one.\<close>

lemma oq_put_law:
  assumes "oq_laws L"
  shows "oq_kids L (oq_put L p i c) = (oq_kids L p)[i := c]" "oq_name L (oq_put L p i c) = oq_name L p"
  using assms by (simp_all add: oq_laws_def)

lemma oq_find_law: "oq_laws L \<Longrightarrow> lyd_find_sibling_opaq_next L cs m = find_idx (\<lambda>c. oq_name L c = m) cs"
  by (simp add: oq_laws_def)

lemma oq_new_law:
  assumes "oq_laws L" and "oq_alloc L"
  shows "\<exists>p' c. lyd_new_opaq2 L (Some p) n v = Some p' \<and> oq_name L p' = oq_name L p \<and>
    oq_value L p' = oq_value L p \<and> oq_kids L p' = oq_kids L p @ [c] \<and> oq_name L c = n \<and> oq_kids L c = [] \<and>
    (\<forall>x. v = Some x \<longrightarrow> oq_value L c = x)"
proof -
  obtain p' where p: "lyd_new_opaq2 L (Some p) n v = Some p'"
    using assms(2) unfolding oq_alloc_def by blast
  have "\<forall>p n v t. lyd_new_opaq2 L (Some p) n v = Some t \<longrightarrow>
        oq_name L t = oq_name L p \<and> oq_value L t = oq_value L p \<and>
        (\<exists>c. oq_kids L t = oq_kids L p @ [c] \<and> oq_name L c = n \<and> oq_kids L c = [] \<and>
             (\<forall>x. v = Some x \<longrightarrow> oq_value L c = x))"
    using assms(1) by (simp add: oq_laws_def)
  from this [rule_format, OF p] p show ?thesis by auto
qed

lemma oq_get_fields:
  assumes "oq_laws L"
  shows "oq_get L e n = map_of (fields L e) n"
proof -
  have "map_option (\<lambda>i. oq_value L (cs ! i)) (find_idx (\<lambda>c. oq_name L c = n) cs)
      = map_of (map (\<lambda>c. (oq_name L c, oq_value L c)) cs) n" for cs
    by (induction cs) (auto simp: option.map_comp comp_def)
  then show ?thesis by (simp add: oq_get_def oq_find_law [OF assms] fields_def)
qed

lemma oq_add_fields:
  assumes "oq_laws L" and "oq_alloc L"
  obtains p' where "oq_add L p n v = (0, p')" "fields L p' = fields L p @ [(n, v)]"
    "oq_name L p' = oq_name L p" "oq_value L p' = oq_value L p"
    "\<exists>c. oq_kids L p' = oq_kids L p @ [c] \<and> oq_name L c = n \<and> oq_value L c = v"
proof -
  obtain p' c where "lyd_new_opaq2 L (Some p) n (Some v) = Some p'" "oq_name L p' = oq_name L p"
    "oq_value L p' = oq_value L p" "oq_kids L p' = oq_kids L p @ [c]" "oq_name L c = n" "oq_value L c = v"
    using oq_new_law [OF assms, of p n "Some v"] by blast
  then show ?thesis using that [of p'] by (auto simp: oq_add_def fields_def)
qed

lemma oq_drop_fields:
  assumes "oq_laws L"
  shows "fields L (oq_drop L p n) = drop_first n (fields L p)" "oq_name L (oq_drop L p n) = oq_name L p"
    "oq_value L (oq_drop L p n) = oq_value L p"
proof -
  note f = oq_find_law [OF assms]
  have "fields L (oq_drop L p n) = drop_first n (fields L p) \<and> oq_name L (oq_drop L p n) = oq_name L p \<and>
      oq_value L (oq_drop L p n) = oq_value L p"
  proof (cases "find_idx (\<lambda>c. oq_name L c = n) (oq_kids L p)")
    case None
    then have "n \<notin> set (map fst (fields L p))" by (simp add: fields_find)
    then show ?thesis using None by (simp add: oq_drop_def f drop_first_absent)
  next
    case (Some i)
    then have "i < length (oq_kids L p)" using find_idx_Some_bound by blast
    then have "oq_kids L (lyd_free_child L p i) = take i (oq_kids L p) @ drop (Suc i) (oq_kids L p)"
      "oq_name L (lyd_free_child L p i) = oq_name L p" "oq_value L (lyd_free_child L p i) = oq_value L p"
      using assms by (auto simp: oq_laws_def)
    then show ?thesis
      using drop_first_idx [OF Some, of "\<lambda>c. (oq_name L c, oq_value L c)" n] Some
      by (simp add: oq_drop_def f fields_def)
  qed
  then show "fields L (oq_drop L p n) = drop_first n (fields L p)" "oq_name L (oq_drop L p n) = oq_name L p"
    "oq_value L (oq_drop L p n) = oq_value L p" by auto
qed

text \<open>Setting a field: the previous one of the name is dropped and the new one appended.\<close>

lemma set_field:
  assumes "oq_laws L" and "oq_alloc L"
  obtains e' where "oq_add L (oq_drop L e n) n v = (0, e')" "fields L e' = drop_first n (fields L e) @ [(n, v)]"
    "oq_name L e' = oq_name L e" "oq_value L e' = oq_value L e"
  using oq_add_fields [OF assms, of "oq_drop L e n" n v] oq_drop_fields [OF assms(1), of e n] by metis

lemma map_of_set_field:
  assumes "distinct (map fst fs)"
  shows "distinct (map fst (drop_first n fs @ [(n, v)]))"
    and "map_of (drop_first n fs @ [(n, v)]) m = (if m = n then Some v else map_of fs m)"
  using assms distinct_drop_first [of fs n] map_of_drop_first [OF assms, of n m]
  by (auto simp: map_add_def split: option.split)

lemma nc_err_set_msg_fields:
  assumes "oq_laws L" and "oq_alloc L"
  obtains e' where "nc_err_set_msg L e (Some m) lang = (0, e')"
    "fields L e' = drop_first ''error-message'' (fields L e) @ [(''error-message'', m)]" "oq_name L e' = oq_name L e"
proof -
  let ?n = "''error-message''"
  obtain e1 where e1: "oq_add L (oq_drop L e ?n) ?n m = (0, e1)" "fields L e1 = fields L (oq_drop L e ?n) @ [(?n, m)]"
    "oq_name L e1 = oq_name L (oq_drop L e ?n)"
    "\<exists>c. oq_kids L e1 = oq_kids L (oq_drop L e ?n) @ [c] \<and> oq_name L c = ?n \<and> oq_value L c = m"
    using oq_add_fields [OF assms, of "oq_drop L e ?n" ?n m] by metis
  note d = oq_drop_fields [OF assms(1), of e ?n]
  let ?k = "length (oq_kids L e1) - 1"
  show ?thesis
  proof (cases lang)
    case None
    then show ?thesis using that [of e1] e1 d by (simp add: nc_err_set_msg_def Let_def)
  next
    case (Some l)
    obtain c' where c': "lyd_new_attr L (oq_kids L e1 ! ?k) ''xml:lang'' l = Some c'"
      using assms(2) unfolding oq_alloc_def by blast
    then have cc: "oq_name L c' = oq_name L (oq_kids L e1 ! ?k)" "oq_value L c' = oq_value L (oq_kids L e1 ! ?k)"
      using assms(1) by (auto simp: oq_laws_def)
    note put = oq_put_law [OF assms(1)]
    have "fields L (oq_put L e1 ?k c') = fields L e1"
      using e1(4) cc by (auto simp: fields_def put nth_append list_update_append)
    then show ?thesis
      using that [of "oq_put L e1 ?k c'"] e1 d c' Some by (simp add: nc_err_set_msg_def Let_def put)
  qed
qed

lemma map_of_update_other:
  "i < length fs \<Longrightarrow> fst (fs ! i) = k \<Longrightarrow> n \<noteq> k \<Longrightarrow> map_of (fs[i := (k, v)]) n = map_of fs n"
proof (induction fs arbitrary: i)
  case (Cons f fs)
  then show ?case by (cases i; cases f) auto
qed simp

text \<open>Work on the error-info child leaves the other fields; what it does to the fields of the
  child is \<open>g\<close>.\<close>

lemma with_info_fields:
  assumes "oq_laws L" and "oq_alloc L" and "err_wf L e"
    and "\<And>i. \<exists>i'. work i = (0, i') \<and> fields L i' = g (fields L i) \<and> oq_name L i' = oq_name L i"
  obtains e' where "with_info L e work = (0, e')" "err_wf L e'" "oq_name L e' = oq_name L e"
    "\<forall>n. n \<noteq> ''error-info'' \<longrightarrow> map_of (fields L e') n = map_of (fields L e) n"
    "info_fields L e' = g (info_fields L e)"
proof -
  let ?n = "''error-info''"
  note find = oq_find_law [OF assms(1)] and put = oq_put_law [OF assms(1)]
  have at: "\<exists>e'. (case work (oq_kids L e1 ! i) of (r, info) \<Rightarrow> (r, oq_put L e1 i info)) = (0, e') \<and>
      map fst (fields L e') = map fst (fields L e1) \<and> oq_name L e' = oq_name L e1 \<and>
      (\<forall>n. n \<noteq> ?n \<longrightarrow> map_of (fields L e') n = map_of (fields L e1) n) \<and>
      info_fields L e' = g (fields L (oq_kids L e1 ! i))"
    if i: "find_idx (\<lambda>c. oq_name L c = ?n) (oq_kids L e1) = Some i" for e1 i
  proof -
    obtain i' where w: "work (oq_kids L e1 ! i) = (0, i')" "fields L i' = g (fields L (oq_kids L e1 ! i))"
      "oq_name L i' = oq_name L (oq_kids L e1 ! i)" using assms(4) by blast
    have b: "i < length (oq_kids L e1)" "oq_name L (oq_kids L e1 ! i) = ?n"
      "\<forall>j < i. oq_name L (oq_kids L e1 ! j) \<noteq> ?n" using i by (auto simp: find_idx_Some)
    let ?e = "oq_put L e1 i i'"
    have names: "map (oq_name L) (oq_kids L ?e) = map (oq_name L) (oq_kids L e1)"
      using w(3) b by (simp add: put map_update list_update_same_conv)
    have "find_idx (\<lambda>c. oq_name L c = ?n) (oq_kids L ?e) = Some i"
      using b w(3) by (auto simp: find_idx_Some put nth_list_update)
    then have inf: "info_fields L ?e = g (fields L (oq_kids L e1 ! i))" using b w(2) by (simp add: info_fields_def put)
    have f: "fields L ?e = (fields L e1)[i := (?n, oq_value L i')]"
      using w(3) b by (simp add: fields_def put map_update)
    have "map_of (fields L ?e) n = map_of (fields L e1) n" if "n \<noteq> ?n" for n
      unfolding f using b that by (intro map_of_update_other) (simp_all add: fields_def)
    then show ?thesis using w(1) inf names by (auto simp: fields_def comp_def put)
  qed
  show ?thesis
  proof (cases "find_idx (\<lambda>c. oq_name L c = ?n) (oq_kids L e)")
    case (Some i)
    obtain e' where e': "(case work (oq_kids L e ! i) of (r, info) \<Rightarrow> (r, oq_put L e i info)) = (0, e')"
      "map fst (fields L e') = map fst (fields L e)" "oq_name L e' = oq_name L e"
      "\<forall>n. n \<noteq> ?n \<longrightarrow> map_of (fields L e') n = map_of (fields L e) n"
      "info_fields L e' = g (fields L (oq_kids L e ! i))" using at [OF Some] by blast
    show ?thesis
    proof (rule that)
      show "with_info L e work = (0, e')" using Some e'(1) by (simp add: with_info_def find)
      show "err_wf L e'" using assms(3) e'(2) by (simp add: err_wf_def)
      show "info_fields L e' = g (info_fields L e)" using e'(5) Some by (simp add: info_fields_def [of L e])
    qed (use e' in auto)
  next
    case None
    obtain e1 c where e1: "lyd_new_opaq2 L (Some e) ?n None = Some e1"
      and c: "oq_name L e1 = oq_name L e" "oq_kids L e1 = oq_kids L e @ [c]" "oq_name L c = ?n" "oq_kids L c = []"
      using oq_new_law [OF assms(1,2), of e ?n None] by blast
    let ?k = "length (oq_kids L e)"
    have i: "find_idx (\<lambda>c. oq_name L c = ?n) (oq_kids L e1) = Some ?k"
      using None c by (auto simp: find_idx_Some find_idx_None nth_append)
    have fe: "fields L e1 = fields L e @ [(?n, oq_value L c)]" using c by (simp add: fields_def)
    have wf: "err_wf L e1" using assms(3) None fe by (auto simp: err_wf_def find_idx_None fields_def)
    have other: "map_of (fields L e1) n = map_of (fields L e) n" if "n \<noteq> ?n" for n
      using that by (simp add: fe map_add_def split: option.split)
    have fc: "fields L (oq_kids L e1 ! ?k) = []" "info_fields L e = []"
      using c None by (simp_all add: fields_def info_fields_def)
    obtain e' where e': "(case work (oq_kids L e1 ! ?k) of (r, info) \<Rightarrow> (r, oq_put L e1 ?k info)) = (0, e')"
      "map fst (fields L e') = map fst (fields L e1)" "oq_name L e' = oq_name L e1"
      "\<forall>n. n \<noteq> ?n \<longrightarrow> map_of (fields L e') n = map_of (fields L e1) n"
      "info_fields L e' = g (fields L (oq_kids L e1 ! ?k))" using at [OF i] by blast
    show ?thesis
    proof (rule that)
      have "length (oq_kids L e1) - 1 = ?k" using c(2) by simp
      then show "with_info L e work = (0, e')" using None e1 e'(1) by (simp add: with_info_def find)
      show "err_wf L e'" using wf e'(2) by (simp add: err_wf_def)
      show "info_fields L e' = g (info_fields L e)" using e'(5) fc by simp
      show "\<forall>n. n \<noteq> ?n \<longrightarrow> map_of (fields L e') n = map_of (fields L e) n" using e'(4) other by simp
    qed (use e' c in auto)
  qed
qed

section \<open>Properties of rpc-errors\<close>

text \<open>C15: error tags and error types are read back as written: every tag but the unknown one has a
  name, reading the name gives the tag, and every other string reads as the unknown tag; the
  same for types. In particular no two tags share a name.\<close>

theorem err_names_roundtrip:
  "(\<forall>t. t \<noteq> NC_ERR_UNKNOWN \<longrightarrow> (\<exists>s. nc_err_tag2str t = Some s \<and> nc_err_str2tag s = t)) \<and>
   (\<forall>s. nc_err_str2tag s \<noteq> NC_ERR_UNKNOWN \<longrightarrow> nc_err_tag2str (nc_err_str2tag s) = Some s) \<and>
   (\<forall>t t'. nc_err_tag2str t = nc_err_tag2str t' \<longrightarrow> t = t') \<and>
   (\<forall>t. t \<noteq> NC_ERR_TYPE_UNKNOWN \<longrightarrow> (\<exists>s. nc_err_type2str t = Some s \<and> nc_err_str2type s = t)) \<and>
   (\<forall>s. nc_err_str2type s \<noteq> NC_ERR_TYPE_UNKNOWN \<longrightarrow> nc_err_type2str (nc_err_str2type s) = Some s)"
  using nc_err_tag2str_read nc_err_type2str_read tag_codec.enc_dec type_codec.enc_dec tag_codec.enc_inj by blast

theorem err_names_roundtrip_witness:
  "NC_ERR_LOCK_DENIED \<noteq> NC_ERR_UNKNOWN \<and> (\<exists>s. nc_err_tag2str NC_ERR_LOCK_DENIED = Some s \<and> nc_err_str2tag s = NC_ERR_LOCK_DENIED)"
proof
  show n: "NC_ERR_LOCK_DENIED \<noteq> NC_ERR_UNKNOWN" by simp
  show "\<exists>s. nc_err_tag2str NC_ERR_LOCK_DENIED = Some s \<and> nc_err_str2tag s = NC_ERR_LOCK_DENIED"
    by (rule err_names_roundtrip [THEN conjunct1, rule_format, OF n])
qed

lemma info_fields_absent: "''error-info'' \<notin> set (map fst (fields L e)) \<Longrightarrow> info_fields L e = []"
  using fields_find [of L "''error-info''" e] by (simp add: info_fields_def)

lemma info_add_field:
  assumes "oq_laws L" and "oq_alloc L" and "err_wf L e"
  obtains e' where "with_info L e (\<lambda>info. oq_add L info n v) = (0, e')" "err_wf L e'" "oq_name L e' = oq_name L e"
    "\<forall>m. m \<noteq> ''error-info'' \<longrightarrow> map_of (fields L e') m = map_of (fields L e) m"
    "info_fields L e' = info_fields L e @ [(n, v)]"
proof (rule with_info_fields [OF assms, of "\<lambda>info. oq_add L info n v" "\<lambda>fs. fs @ [(n, v)]"])
  show "\<exists>i'. oq_add L i n v = (0, i') \<and> fields L i' = fields L i @ [(n, v)] \<and> oq_name L i' = oq_name L i" for i
    by (rule oq_add_fields [OF assms(1,2), of i n v]) blast
qed (use that in blast)

lemma info_set_field:
  assumes "oq_laws L" and "oq_alloc L" and "err_wf L e"
  obtains e' where "with_info L e (\<lambda>info. oq_add L (oq_drop L info n) n v) = (0, e')" "err_wf L e'"
    "oq_name L e' = oq_name L e" "\<forall>m. m \<noteq> ''error-info'' \<longrightarrow> map_of (fields L e') m = map_of (fields L e) m"
    "info_fields L e' = drop_first n (info_fields L e) @ [(n, v)]"
proof (rule with_info_fields [OF assms, of "\<lambda>info. oq_add L (oq_drop L info n) n v" "\<lambda>fs. drop_first n fs @ [(n, v)]"])
  show "\<exists>i'. oq_add L (oq_drop L i n) n v = (0, i') \<and> fields L i' = drop_first n (fields L i) @ [(n, v)] \<and>
      oq_name L i' = oq_name L i" for i
    by (rule set_field [OF assms(1,2), of i n v]) blast
qed (use that in blast)

lemma info_insert:
  assumes "oq_laws L" and "oq_alloc L" and "err_wf L e"
  obtains e' where "with_info L e (\<lambda>info. (0, lyd_insert_child L info c)) = (0, e')" "err_wf L e'"
    "\<forall>m. m \<noteq> ''error-info'' \<longrightarrow> map_of (fields L e') m = map_of (fields L e) m"
proof (rule with_info_fields [OF assms, of "\<lambda>info. (0, lyd_insert_child L info c)" "\<lambda>fs. fs @ [(oq_name L c, oq_value L c)]"])
  show "\<exists>i'. (0, lyd_insert_child L i c) = (0 :: int, i') \<and> fields L i' = fields L i @ [(oq_name L c, oq_value L c)] \<and>
      oq_name L i' = oq_name L i" for i
    using assms(1) by (simp add: oq_laws_def fields_def)
qed (use that in blast)

text \<open>The calls an application makes on an error it has built.\<close>

datatype 'n err_edit = E_app_tag string | E_path string | E_msg string "string option" | E_sid u32
  | E_attr string | E_elem string | E_ns string | E_other 'n

fun edit_run :: "'n oq_ops \<Rightarrow> 'n err_edit \<Rightarrow> 'n \<Rightarrow> int \<times> 'n" where
  "edit_run L (E_app_tag v) e = nc_err_set_app_tag L e (Some v)"
| "edit_run L (E_path v) e = nc_err_set_path L e (Some v)"
| "edit_run L (E_msg v lang) e = nc_err_set_msg L e (Some v) lang"
| "edit_run L (E_sid i) e = nc_err_set_sid L e i"
| "edit_run L (E_attr v) e = nc_err_add_bad_attr L e (Some v)"
| "edit_run L (E_elem v) e = nc_err_add_bad_elem L e (Some v)"
| "edit_run L (E_ns v) e = nc_err_add_bad_ns L e (Some v)"
| "edit_run L (E_other c) e = nc_err_add_info_other L e (Some c)"

fun edit_field :: "'n err_edit \<Rightarrow> (string \<times> string) option" where
  "edit_field (E_app_tag v) = Some (''error-app-tag'', v)"
| "edit_field (E_path v) = Some (''error-path'', v)"
| "edit_field (E_msg v lang) = Some (''error-message'', v)"
| "edit_field _ = None"

definition edit_upd :: "string \<Rightarrow> 'n err_edit \<Rightarrow> string option \<Rightarrow> string option" where
  "edit_upd n ed old = (case edit_field ed of Some (m, v) \<Rightarrow> if m = n then Some v else old | None \<Rightarrow> old)"

lemma edit_ok:
  assumes "oq_laws L" and "oq_alloc L" and "err_wf L e"
  shows "\<exists>e'. edit_run L ed e = (0, e') \<and> err_wf L e' \<and>
    (\<forall>n. n \<noteq> ''error-info'' \<longrightarrow> map_of (fields L e') n = edit_upd n ed (map_of (fields L e) n))"
proof -
  have d: "distinct (map fst (fields L e))" using assms(3) by (simp add: err_wf_def)
  note sf = map_of_set_field [OF d]
  have set: "\<exists>e'. oq_add L (oq_drop L e n) n v = (0, e') \<and> err_wf L e' \<and>
      (\<forall>m. map_of (fields L e') m = (if m = n then Some v else map_of (fields L e) m))" for n v
    by (rule set_field [OF assms(1,2), of e n v]) (use sf in \<open>auto simp: err_wf_def\<close>)
  have msg: "\<exists>e'. nc_err_set_msg L e (Some v) lang = (0, e') \<and> err_wf L e' \<and>
      (\<forall>m. map_of (fields L e') m = (if m = ''error-message'' then Some v else map_of (fields L e) m))" for v lang
    by (rule nc_err_set_msg_fields [OF assms(1,2), of e v lang]) (use sf in \<open>auto simp: err_wf_def\<close>)
  note add = info_add_field [OF assms] and seti = info_set_field [OF assms] and ins = info_insert [OF assms]
  show ?thesis
  proof (cases ed)
    case (E_app_tag v)
    then show ?thesis using set [of "''error-app-tag''" v] by (auto simp: nc_err_set_app_tag_def edit_upd_def)
  next
    case (E_path v)
    then show ?thesis using set [of "''error-path''" v] by (auto simp: nc_err_set_path_def edit_upd_def)
  next
    case (E_msg v lang)
    then show ?thesis using msg [of v lang] by (auto simp: edit_upd_def)
  next
    case (E_sid i)
    show ?thesis by (rule seti [of "''session-id''" "dec_str (unat i)"])
      (auto simp: E_sid nc_err_set_sid_def edit_upd_def)
  next
    case (E_attr v)
    show ?thesis by (rule add [of "''bad-attribute''" v]) (auto simp: E_attr nc_err_add_bad_attr_def edit_upd_def)
  next
    case (E_elem v)
    show ?thesis by (rule add [of "''bad-element''" v]) (auto simp: E_elem nc_err_add_bad_elem_def edit_upd_def)
  next
    case (E_ns v)
    show ?thesis by (rule add [of "''bad-namespace''" v]) (auto simp: E_ns nc_err_add_bad_ns_def edit_upd_def)
  next
    case (E_other c)
    show ?thesis by (rule ins [of c]) (auto simp: E_other nc_err_add_info_other_def edit_upd_def)
  qed
qed

fun edits_run :: "'n oq_ops \<Rightarrow> 'n err_edit list \<Rightarrow> 'n \<Rightarrow> 'n option" where
  "edits_run L [] e = Some e"
| "edits_run L (ed # eds) e = (case edit_run L ed e of (r, e') \<Rightarrow> if r = 0 then edits_run L eds e' else None)"

definition last_set :: "string \<Rightarrow> 'n err_edit list \<Rightarrow> string option \<Rightarrow> string option" where
  "last_set n eds old = fold (edit_upd n) eds old"

lemma edits_ok:
  assumes "oq_laws L" and "oq_alloc L" and "err_wf L e"
  shows "\<exists>e'. edits_run L eds e = Some e' \<and> err_wf L e' \<and>
    (\<forall>n. n \<noteq> ''error-info'' \<longrightarrow> map_of (fields L e') n = last_set n eds (map_of (fields L e) n))"
  using assms(3)
proof (induction eds arbitrary: e)
  case (Cons ed eds)
  obtain e1 where e1: "edit_run L ed e = (0, e1)" "err_wf L e1"
    "\<forall>n. n \<noteq> ''error-info'' \<longrightarrow> map_of (fields L e1) n = edit_upd n ed (map_of (fields L e) n)"
    using edit_ok [OF assms(1,2) Cons.prems, of ed] by blast
  then show ?case using Cons.IH [OF e1(2)] by (auto simp: last_set_def)
qed (simp add: last_set_def)

lemma last_set_fixed: "n \<in> {''error-tag'', ''error-type''} \<Longrightarrow> last_set n eds old = old"
proof (induction eds arbitrary: old)
  case (Cons ed eds)
  have "edit_upd n ed old = old" using Cons.prems by (cases ed) (auto simp: edit_upd_def)
  then show ?case using Cons by (simp add: last_set_def)
qed (simp add: last_set_def)

text \<open>C14: editing an rpc-error. On a well-formed error, with libyang's documented operations and no
  failed allocation, any sequence of calls of the setters and adders succeeds and keeps the
  error well-formed (no field twice); the tag and the type never change; the application tag,
  the path and the message are the ones set last.\<close>

theorem err_edits_correct:
  assumes "oq_laws L" and "oq_alloc L" and "err_wf L e"
  shows "\<exists>e'. edits_run L eds e = Some e' \<and> err_wf L e' \<and>
    nc_err_get_tag L (Some e') = nc_err_get_tag L (Some e) \<and>
    nc_err_get_type L (Some e') = nc_err_get_type L (Some e) \<and>
    nc_err_get_app_tag L (Some e') = last_set ''error-app-tag'' eds (nc_err_get_app_tag L (Some e)) \<and>
    nc_err_get_path L (Some e') = last_set ''error-path'' eds (nc_err_get_path L (Some e)) \<and>
    nc_err_get_msg L (Some e') = last_set ''error-message'' eds (nc_err_get_msg L (Some e))"
proof -
  obtain e' where e': "edits_run L eds e = Some e'" "err_wf L e'"
    "\<forall>n. n \<noteq> ''error-info'' \<longrightarrow> map_of (fields L e') n = last_set n eds (map_of (fields L e) n)"
    using edits_ok [OF assms, of eds] by blast
  note g = oq_get_fields [OF assms(1)]
  have "oq_get L e' n = last_set n eds (oq_get L e n)" if "n \<noteq> ''error-info''" for n
    using e'(3) that by (simp add: g)
  then show ?thesis using e'(1,2)
    by (simp add: nc_err_get_tag_def nc_err_get_type_def nc_err_get_app_tag_def nc_err_get_path_def
        nc_err_get_msg_def last_set_fixed)
qed

text \<open>The error-info each tag calls for.\<close>

definition opt_field :: "string \<Rightarrow> string option \<Rightarrow> (string \<times> string) list" where
  "opt_field n vo = (case vo of None \<Rightarrow> [] | Some v \<Rightarrow> [(n, v)])"

definition err_info_spec :: "nc_err_tag \<Rightarrow> err_args \<Rightarrow> (string \<times> string) list" where
  "err_info_spec tag a =
     (if tag \<in> {NC_ERR_MISSING_ATTR, NC_ERR_BAD_ATTR, NC_ERR_UNKNOWN_ATTR}
      then opt_field ''bad-attribute'' (ea_arg1 a) @ opt_field ''bad-element'' (ea_arg2 a)
      else if tag \<in> {NC_ERR_MISSING_ELEM, NC_ERR_BAD_ELEM, NC_ERR_UNKNOWN_ELEM}
      then opt_field ''bad-element'' (ea_arg1 a)
      else if tag = NC_ERR_UNKNOWN_NS
      then opt_field ''bad-element'' (ea_arg1 a) @ opt_field ''bad-namespace'' (ea_arg2 a)
      else if tag = NC_ERR_LOCK_DENIED then [(''session-id'', dec_str (unat (ea_sid a)))] else [])"

text \<open>What one call that adds to the error-info does, whatever its argument.\<close>

definition info_step :: "'n oq_ops \<Rightarrow> 'n \<Rightarrow> 'n \<Rightarrow> (string \<times> string) list \<Rightarrow> bool" where
  "info_step L e e' new \<longleftrightarrow> err_wf L e' \<and> oq_name L e' = oq_name L e \<and> info_fields L e' = info_fields L e @ new \<and>
     (\<forall>m. m \<noteq> ''error-info'' \<longrightarrow> map_of (fields L e') m = map_of (fields L e) m)"

lemma info_step_refl: "err_wf L e \<Longrightarrow> info_step L e e []"
  by (simp add: info_step_def)

lemma info_step_trans: "info_step L e e1 a \<Longrightarrow> info_step L e1 e2 b \<Longrightarrow> info_step L e e2 (a @ b)"
  by (simp add: info_step_def)

lemma info_step_adders:
  assumes "oq_laws L" and "oq_alloc L" and "err_wf L e"
  shows "info_step L e (snd (nc_err_add_bad_attr L e vo)) (opt_field ''bad-attribute'' vo)"
    and "info_step L e (snd (nc_err_add_bad_elem L e vo)) (opt_field ''bad-element'' vo)"
    and "info_step L e (snd (nc_err_add_bad_ns L e vo)) (opt_field ''bad-namespace'' vo)"
proof -
  have step: "info_step L e (snd (with_info L e (\<lambda>info. oq_add L info n v))) [(n, v)]" for n v
    by (rule info_add_field [OF assms, of n v]) (simp add: info_step_def)
  show "info_step L e (snd (nc_err_add_bad_attr L e vo)) (opt_field ''bad-attribute'' vo)"
    "info_step L e (snd (nc_err_add_bad_elem L e vo)) (opt_field ''bad-element'' vo)"
    "info_step L e (snd (nc_err_add_bad_ns L e vo)) (opt_field ''bad-namespace'' vo)"
    using step info_step_refl [OF assms(3)]
    by (cases vo; simp add: nc_err_add_bad_attr_def nc_err_add_bad_elem_def nc_err_add_bad_ns_def opt_field_def)+
qed

lemma err_info_step:
  assumes "oq_laws L" and "oq_alloc L" and "err_wf L e" and "info_fields L e = []"
  shows "info_step L e (err_info L tag a e) (err_info_spec tag a)"
proof -
  note one = info_step_adders [OF assms(1-3)]
  have wf: "info_step L e e1 new \<Longrightarrow> err_wf L e1" for e1 new by (simp add: info_step_def)
  note two = info_step_adders [OF assms(1,2)]
  have sid: "info_step L e (snd (nc_err_set_sid L e (ea_sid a))) [(''session-id'', dec_str (unat (ea_sid a)))]"
    by (rule info_set_field [OF assms(1-3), of "''session-id''" "dec_str (unat (ea_sid a))"])
      (simp add: info_step_def nc_err_set_sid_def assms(4))
  have attr: "info_step L e (snd (nc_err_add_bad_elem L (snd (nc_err_add_bad_attr L e v)) v'))
      (opt_field ''bad-attribute'' v @ opt_field ''bad-element'' v')" for v v'
    using one(1) [of v] two(2) [OF wf [OF one(1) [of v]], of v'] by (rule info_step_trans)
  have ns: "info_step L e (snd (nc_err_add_bad_ns L (snd (nc_err_add_bad_elem L e v)) v'))
      (opt_field ''bad-element'' v @ opt_field ''bad-namespace'' v')" for v v'
    using one(2) [of v] two(3) [OF wf [OF one(2) [of v]], of v'] by (rule info_step_trans)
  show ?thesis
    using one(2) [of "ea_arg1 a"] attr [of "ea_arg1 a" "ea_arg2 a"] ns [of "ea_arg1 a" "ea_arg2 a"] sid
      info_step_refl [OF assms(3)]
    unfolding err_info_def err_info_spec_def by simp
qed

lemma oq_new_fields:
  assumes "oq_laws L" and "oq_alloc L"
  shows "\<exists>p' w. lyd_new_opaq2 L (Some p) n v = Some p' \<and> oq_name L p' = oq_name L p \<and>
     fields L p' = fields L p @ [(n, w)] \<and> (\<forall>x. v = Some x \<longrightarrow> w = x)"
  using oq_new_law [OF assms, of p n v] by (auto simp: fields_def)

lemma err_tag_named: "tag \<noteq> NC_ERR_UNKNOWN \<Longrightarrow> nc_err_tag2str tag = Some s \<Longrightarrow> nc_err_str2tag s = tag"
  by (rule tag_codec.dec_enc)

lemma err_msg_some: "tag \<noteq> NC_ERR_UNKNOWN \<Longrightarrow> \<exists>m. err_msg tag = Some m"
  by (cases tag) simp_all


text \<open>An instance of the opaque tree operations.\<close>

datatype xnode = XN (xn_name: string) (xn_value: string) (xn_attrs: "(string \<times> string) list") (xn_kids: "xnode list")

definition xops :: "xnode oq_ops" where
  "xops = \<lparr>oq_name = xn_name, oq_value = xn_value, oq_kids = xn_kids,
     lyd_new_opaq2 = (\<lambda>p n v. let c = XN n (case v of None \<Rightarrow> [] | Some x \<Rightarrow> x) [] [] in
        case p of None \<Rightarrow> Some c | Some q \<Rightarrow> Some (XN (xn_name q) (xn_value q) (xn_attrs q) (xn_kids q @ [c]))),
     lyd_find_sibling_opaq_next = (\<lambda>cs n. find_idx (\<lambda>c. xn_name c = n) cs),
     lyd_free_child = (\<lambda>p i. XN (xn_name p) (xn_value p) (xn_attrs p) (take i (xn_kids p) @ drop (Suc i) (xn_kids p))),
     lyd_new_attr = (\<lambda>t n v. Some (XN (xn_name t) (xn_value t) (xn_attrs t @ [(n, v)]) (xn_kids t))),
     lyd_insert_child = (\<lambda>p c. XN (xn_name p) (xn_value p) (xn_attrs p) (xn_kids p @ [c])),
     oq_put = (\<lambda>p i c. XN (xn_name p) (xn_value p) (xn_attrs p) ((xn_kids p)[i := c]))\<rparr>"

lemma xops_laws: "oq_laws xops" "oq_alloc xops"
  by (simp_all add: oq_laws_def oq_alloc_def xops_def Let_def split: option.split)


theorem err_edits_correct_witness:
  "\<exists>e'. edits_run xops [E_path ''/a'', E_sid 3, E_path ''/b''] (XN ''rpc-error'' [] [] []) = Some e' \<and>
     nc_err_get_path xops (Some e') = Some ''/b''"
proof -
  have "err_wf xops (XN ''rpc-error'' [] [] [])" by (simp add: err_wf_def fields_def xops_def)
  from err_edits_correct [OF xops_laws this, of "[E_path ''/a'', E_sid 3, E_path ''/b'']"] show ?thesis
    by (auto simp: last_set_def edit_upd_def)
qed

end
