(* ===== verification/NC_Poll.thy ===== *)
theory NC_Poll
  imports NC_PollSession NC_ServerMessages
begin

text \<open>
  Serving sessions (\<^verbatim>\<open>session_server.c\<close>): receiving an RPC (\<^verbatim>\<open>nc_server_recv_rpc_io\<close>), calling its
  callback and replying (\<^verbatim>\<open>nc_server_send_reply_io\<close>), checking one session for events
  (\<^verbatim>\<open>nc_ps_poll_session_io\<close>), and \<^verbatim>\<open>nc_ps_poll\<close>, which goes round the sessions of a pollsession
  until one of them has an event. Sessions and their transports live in a store indexed by
  session address. \<open>None\<close> is a call that has not returned.
\<close>

section \<open>Results of polling\<close>

definition NC_PSPOLL_NOSESSIONS :: u32 where "NC_PSPOLL_NOSESSIONS = 0x0001"
definition NC_PSPOLL_TIMEOUT :: u32 where "NC_PSPOLL_TIMEOUT = 0x0002"
definition NC_PSPOLL_RPC :: u32 where "NC_PSPOLL_RPC = 0x0004"
definition NC_PSPOLL_BAD_RPC :: u32 where "NC_PSPOLL_BAD_RPC = 0x0008"
definition NC_PSPOLL_REPLY_ERROR :: u32 where "NC_PSPOLL_REPLY_ERROR = 0x0010"
definition NC_PSPOLL_SESSION_TERM :: u32 where "NC_PSPOLL_SESSION_TERM = 0x0020"
definition NC_PSPOLL_SESSION_ERROR :: u32 where "NC_PSPOLL_SESSION_ERROR = 0x0040"
definition NC_PSPOLL_ERROR :: u32 where "NC_PSPOLL_ERROR = 0x0080"
definition NC_PSPOLL_SSH_MSG :: u32 where "NC_PSPOLL_SSH_MSG = 0x0100"
definition NC_PSPOLL_SSH_CHANNEL :: u32 where "NC_PSPOLL_SSH_CHANNEL = 0x0200"

lemmas pspoll_defs = NC_PSPOLL_NOSESSIONS_def NC_PSPOLL_TIMEOUT_def NC_PSPOLL_RPC_def NC_PSPOLL_BAD_RPC_def
  NC_PSPOLL_REPLY_ERROR_def NC_PSPOLL_SESSION_TERM_def NC_PSPOLL_SESSION_ERROR_def NC_PSPOLL_ERROR_def
  NC_PSPOLL_SSH_MSG_def NC_PSPOLL_SSH_CHANNEL_def

section \<open>Receiving an RPC\<close>

text \<open>
  What the server takes from libyang and from the application. \<open>lyd_parse_op\<close> parses a message:
  success, the envelopes and the operation (either may be missing after a failure).
  \<open>opaq_attrs\<close> are the attribute names of an envelope; \<open>is_rpc\<close> and \<open>is_action\<close> test the node type,
  \<open>tree_dfs\<close> lists a tree in depth-first order, \<open>priv\<close> is the callback stored with the schema of
  a node. A callback returns a reply and may change the session. The flags are outcomes of
  allocations.
\<close>

type_synonym 'n rpc_clb = "'n \<Rightarrow> nc_session \<Rightarrow> 'n server_reply option \<times> nc_session"

record 'n srv_ops =
  so_ly :: "'n ly_ops"
  so_oq :: "'n oq_ops"
  lyd_parse_op :: "bytes \<Rightarrow> bool \<times> 'n option \<times> 'n option"
  opaq_attrs :: "'n \<Rightarrow> string list"
  ly_errmsg :: "string option"
  is_rpc :: "'n \<Rightarrow> bool"
  is_action :: "'n \<Rightarrow> bool"
  tree_dfs :: "'n \<Rightarrow> 'n list"
  priv :: "'n \<Rightarrow> 'n rpc_clb option"
  global_rpc_clb :: "'n rpc_clb option"
  rpc_alloc :: bool
  reply_alloc :: bool

record 'n nc_server_rpc =
  envp :: "'n option"
  rpc :: "'n option"

definition recv_rpc_check_msgid :: "'n srv_ops \<Rightarrow> 'n \<Rightarrow> nc_msg_type" where
  "recv_rpc_check_msgid V e =
     (case find_idx (\<lambda>a. a = ''message-id'') (opaq_attrs V e) of
        None \<Rightarrow> NC_MSG_REPLY_ERR_MSGID | Some _ \<Rightarrow> NC_MSG_RPC)"

text \<open>The arguments of \<^verbatim>\<open>nc_err\<close> when only a type is given.\<close>

definition err_of :: "'n srv_ops \<Rightarrow> nc_err_tag \<Rightarrow> nc_err_type \<Rightarrow> 'n option" where
  "err_of V tag t = nc_err (so_oq V) tag \<lparr>ea_type = t, ea_arg1 = None, ea_arg2 = None, ea_sid = 0\<rparr>"

text \<open>What to do with a received message: the result, the RPC structure and the error reply.\<close>

definition rpc_judge ::
  "'n srv_ops \<Rightarrow> nc_version \<Rightarrow> string \<Rightarrow> (u32 \<times> 'n nc_server_rpc option \<times> 'n server_reply option) option"
where
  "rpc_judge V v m =
     (if \<not> rpc_alloc V then Some (NC_PSPOLL_BAD_RPC, None, None)
      else case lyd_parse_op V m of (ok, eo, ro) \<Rightarrow>
        let r = \<lparr>envp = eo, rpc = ro\<rparr> in
        if ok then
          (case eo of None \<Rightarrow> None
           | Some e \<Rightarrow>
               if recv_rpc_check_msgid V e = NC_MSG_RPC then Some (NC_PSPOLL_RPC, Some r, None)
               else Some (NC_PSPOLL_BAD_RPC, Some r,
                      nc_server_reply_err (reply_alloc V)
                        (nc_err (so_oq V) NC_ERR_MISSING_ATTR
                           \<lparr>ea_type = NC_ERR_TYPE_RPC, ea_arg1 = Some ''message-id'', ea_arg2 = Some ''rpc'', ea_sid = 0\<rparr>)))
        else
          (case eo of
             Some e \<Rightarrow>
               Some (NC_PSPOLL_BAD_RPC, Some r,
                 nc_server_reply_err (reply_alloc V)
                   (map_option (\<lambda>t. snd (nc_err_set_msg (so_oq V) t (ly_errmsg V) (Some ''en'')))
                     (err_of V NC_ERR_OP_FAILED NC_ERR_TYPE_APP)))
           | None \<Rightarrow>
               Some (NC_PSPOLL_BAD_RPC, Some r,
                 if v = NC_VERSION_11
                 then nc_server_reply_err (reply_alloc V) (err_of V NC_ERR_MALFORMED_MSG NC_ERR_TYPE_UNKNOWN)
                 else None)))"

text \<open>The error reply is sent with the envelopes if there are any; a session that cannot be told
  is given up.\<close>

definition send_err_reply ::
  "'n srv_ops \<Rightarrow> 'n option \<Rightarrow> 'n server_reply option \<Rightarrow> nc_session \<Rightarrow> wire \<Rightarrow> (nc_session \<times> wire) option"
where
  "send_err_reply V eo reply s w =
     (case reply of None \<Rightarrow> Some (s, w)
      | Some r \<Rightarrow>
          (case nc_write_msg_io (so_ly V) s w (Out_reply eo (srp r)) of None \<Rightarrow> None
           | Some (t, s', w') \<Rightarrow>
               Some (if t \<noteq> NC_MSG_REPLY \<and> status s' \<noteq> NC_STATUS_INVALID
                     then invalidate NC_SESSION_TERM_OTHER s' else s', w')))"

definition nc_server_recv_rpc_io ::
  "'n srv_ops \<Rightarrow> nc_session \<Rightarrow> wire \<Rightarrow> (u32 \<times> 'n nc_server_rpc option \<times> nc_session \<times> wire) option"
where
  "nc_server_recv_rpc_io V s w =
     (if status s \<noteq> NC_STATUS_RUNNING \<or> side s \<noteq> NC_SERVER then Some (NC_PSPOLL_ERROR, None, s, w)
      else case nc_read_msg_io s w False of None \<Rightarrow> None
      | Some (r, msg, s1, w1) \<Rightarrow>
          if r = -1 then Some (NC_PSPOLL_ERROR, None, s1, w1)
          else if r = 0 then Some (NC_PSPOLL_TIMEOUT, None, s1, w1)
          else case (if r = -2
                     then Some (NC_PSPOLL_BAD_RPC, None,
                            nc_server_reply_err (reply_alloc V) (err_of V NC_ERR_MALFORMED_MSG NC_ERR_TYPE_UNKNOWN))
                     else case msg of None \<Rightarrow> None | Some m \<Rightarrow> rpc_judge V (version s1) m) of None \<Rightarrow> None
            | Some (ret, ro, reply) \<Rightarrow>
                (case send_err_reply V (case ro of None \<Rightarrow> None | Some r \<Rightarrow> envp r) reply s1 w1 of None \<Rightarrow> None
                 | Some (s2, w2) \<Rightarrow> Some (ret, if ret = NC_PSPOLL_RPC then ro else None, s2, w2)))"

definition nc_server_notif_send ::
  "'n ly_ops \<Rightarrow> nc_session option \<Rightarrow> wire \<Rightarrow> 'n nc_server_notif option \<Rightarrow> (nc_msg_type \<times> nc_session option \<times> wire) option"
where
  "nc_server_notif_send L so w no =
     (case so of None \<Rightarrow> Some (NC_MSG_ERROR, so, w)
      | Some s \<Rightarrow>
          if side s \<noteq> NC_SERVER \<or> nc_session_get_notif_status (Some s) = 0 then Some (NC_MSG_ERROR, so, w)
          else case no of None \<Rightarrow> Some (NC_MSG_ERROR, so, w)
            | Some n \<Rightarrow>
                (case ntf_eventtime n of None \<Rightarrow> Some (NC_MSG_ERROR, so, w)
                 | Some tm \<Rightarrow>
                     map_option (\<lambda>(t, s', w'). (t, Some s', w')) (nc_write_msg_io L s w (Out_notif tm (ntf n)))))"

section \<open>Replying\<close>

text \<open>The node whose callback answers: the RPC itself or the first action in the tree.\<close>

definition rpc_act :: "'n srv_ops \<Rightarrow> 'n \<Rightarrow> 'n option" where
  "rpc_act V op =
     (if is_rpc V op then Some op
      else map_option (\<lambda>i. tree_dfs V op ! i) (find_idx (is_action V) (tree_dfs V op)))"

text \<open>The result of sending the reply; a session whose termination reason was set by the callback ends
  here.\<close>

definition reply_result :: "nc_msg_type \<Rightarrow> 'n nc_server_reply \<Rightarrow> nc_session \<Rightarrow> u32 \<times> nc_session" where
  "reply_result t reply s =
     (let ret1 = (case reply of Reply_error _ \<Rightarrow> NC_PSPOLL_REPLY_ERROR | _ \<Rightarrow> 0) in
      (if t \<noteq> NC_MSG_REPLY then ret1 OR NC_PSPOLL_ERROR else ret1,
       if status s = NC_STATUS_RUNNING \<and> term_reason s \<noteq> NC_SESSION_TERM_NONE
       then s\<lparr>status := NC_STATUS_INVALID\<rparr> else s))"

definition nc_server_send_reply_io ::
  "'n srv_ops \<Rightarrow> nc_session \<Rightarrow> wire \<Rightarrow> 'n nc_server_rpc option \<Rightarrow> (u32 \<times> nc_session \<times> wire) option"
where
  "nc_server_send_reply_io V s w ro =
     (case ro of None \<Rightarrow> Some (NC_PSPOLL_ERROR, s, w)
      | Some r \<Rightarrow>
      (case rpc r of None \<Rightarrow> None
       | Some op \<Rightarrow>
       (case rpc_act V op of None \<Rightarrow> Some (NC_PSPOLL_ERROR, s, w)
        | Some act \<Rightarrow>
          let (reply0, s1) =
            (case priv V act of
               Some clb \<Rightarrow> clb op s
             | None \<Rightarrow>
                 (case global_rpc_clb V of
                    None \<Rightarrow> (nc_server_reply_err (reply_alloc V) (err_of V NC_ERR_OP_NOT_SUPPORTED NC_ERR_TYPE_PROT), s)
                  | Some clb \<Rightarrow> clb op s));
            reply1 = (case reply0 of Some x \<Rightarrow> Some x
                      | None \<Rightarrow> nc_server_reply_err (reply_alloc V) (err_of V NC_ERR_OP_FAILED NC_ERR_TYPE_APP))
          in case reply1 of None \<Rightarrow> None
             | Some x \<Rightarrow>
                 (case nc_write_msg_io (so_ly V) s1 w (Out_reply (envp r) (srp x)) of None \<Rightarrow> None
                  | Some (t, s2, w2) \<Rightarrow>
                      (case reply_result t (srp x) s2 of (ret, s3) \<Rightarrow> Some (ret, s3, w2))))))"

section \<open>Checking one session\<close>

text \<open>\<open>ring\<close> are the other sessions on the same SSH connection, in the order of the \<^verbatim>\<open>next\<close> pointers, each
  with whether it has a channel.\<close>

definition ssh_new_channel :: "(nc_session \<times> bool) list \<Rightarrow> bool" where
  "ssh_new_channel ring \<longleftrightarrow>
     find_idx (\<lambda>(n, chan). status n = NC_STATUS_STARTING \<and> chan \<and> flag_set n NC_SESSION_SSH_SUBSYS_NETCONF) ring \<noteq> None"

definition poll_fd_result :: "poll_res \<Rightarrow> nc_session \<Rightarrow> u32 \<times> nc_session" where
  "poll_fd_result p s =
     (case p of
        Poll_fail e \<Rightarrow>
          if e \<noteq> EINTR then (NC_PSPOLL_ERROR, s\<lparr>status := NC_STATUS_INVALID\<rparr>) else (NC_PSPOLL_TIMEOUT, s)
      | Poll_ret n ev \<Rightarrow>
          if n > 0 then
            if POLLHUP ev \<or> POLLNVAL ev
            then (NC_PSPOLL_SESSION_TERM OR NC_PSPOLL_SESSION_ERROR, invalidate NC_SESSION_TERM_DROPPED s)
            else if POLLERR ev
            then (NC_PSPOLL_SESSION_TERM OR NC_PSPOLL_SESSION_ERROR, invalidate NC_SESSION_TERM_OTHER s)
            else (NC_PSPOLL_RPC, s)
          else (NC_PSPOLL_TIMEOUT, s))"

definition nc_ps_poll_session_io ::
  "u16 \<Rightarrow> (nc_session \<times> bool) list \<Rightarrow> int \<Rightarrow> nc_session \<Rightarrow> wire \<Rightarrow> (u32 \<times> nc_session \<times> wire) option"
where
  "nc_ps_poll_session_io idle_timeout ring now_mono s w =
     (if \<not> flag_set s NC_SESSION_CALLHOME \<and> nc_session_get_notif_status (Some s) = 0 \<and> idle_timeout \<noteq> 0 \<and>
         now_mono \<ge> last_rpc s + int (unat idle_timeout)
      then Some (NC_PSPOLL_SESSION_TERM OR NC_PSPOLL_SESSION_ERROR, invalidate NC_SESSION_TERM_TIMEOUT s, w)
      else case io_lock w of None \<Rightarrow> None
      | Some (lr, w0) \<Rightarrow>
        if lr < 0 then Some (NC_PSPOLL_ERROR, s, w0)
        else if lr = 0 then Some (NC_PSPOLL_TIMEOUT, s, w0)
        else if ti_type s = NC_TI_NONE then Some (NC_PSPOLL_ERROR, s, io_unlock w0)
        else if ti_type s = NC_TI_OPENSSL \<and> \<not> fd_valid w0 \<and> \<not> (case poll_sched w0 of [] \<Rightarrow> False | p # _ \<Rightarrow> pr_pending p)
        then Some (NC_PSPOLL_ERROR, s, io_unlock w0)
        else case poll_sched w0 of [] \<Rightarrow> None
        | p # ps \<Rightarrow>
          let w1 = io_unlock (w0\<lparr>poll_sched := ps\<rparr>);
              done = (\<lambda>(ret, s'). Some (ret, s', w1))
          in case ti_type s of
               NC_TI_LIBSSH \<Rightarrow>
                 (case pr_ssh p of
                    SSH_POLL_EOF \<Rightarrow> done (NC_PSPOLL_SESSION_TERM OR NC_PSPOLL_SESSION_ERROR, invalidate NC_SESSION_TERM_DROPPED s)
                  | SSH_POLL_ERROR \<Rightarrow> done (NC_PSPOLL_SESSION_TERM OR NC_PSPOLL_SESSION_ERROR, invalidate NC_SESSION_TERM_OTHER s)
                  | SSH_POLL_NONE \<Rightarrow>
                      if flag_set s NC_SESSION_SSH_NEW_MSG then
                        done (if ssh_new_channel ring then NC_PSPOLL_SSH_CHANNEL else NC_PSPOLL_SSH_MSG,
                              s\<lparr>flags := flags s AND NOT NC_SESSION_SSH_NEW_MSG\<rparr>)
                      else done (NC_PSPOLL_TIMEOUT, s)
                  | SSH_POLL_DATA \<Rightarrow> done (NC_PSPOLL_RPC, s))
             | NC_TI_OPENSSL \<Rightarrow> if pr_pending p then done (NC_PSPOLL_RPC, s) else done (poll_fd_result (pr_poll p) s)
             | _ \<Rightarrow> done (poll_fd_result (pr_poll p) s))"

section \<open>Going round the sessions\<close>

text \<open>The pollsession with the sessions and transports its entries point to.\<close>

record poll_store =
  st_ps :: nc_pollsession
  st_sess :: "sref \<Rightarrow> nc_session"
  st_wire :: "sref \<Rightarrow> wire"

text \<open>
  What the environment decides about the visit of one session: what other threads made of the
  session since it was last seen (\<open>None\<close>: nothing), the result of trying its RPC mutex, the other
  sessions of its SSH connection, the result of locking the mutex again for the unlock, and the
  clock after the visit. Unlocking a mutex that is held succeeds.
\<close>

record visit =
  v_sess :: "nc_session option"
  v_lk :: lock_res
  v_ring :: "(nc_session \<times> bool) list"
  v_unlk :: lock_res
  v_now :: timespec

definition put_entry ::
  "nat \<Rightarrow> nc_ps_session_state \<Rightarrow> nc_session \<Rightarrow> wire \<Rightarrow> poll_store \<Rightarrow> poll_store"
where
  "put_entry i st s w g =
     (let ps = st_ps g; e = sessions ps ! i in
      g\<lparr>st_ps := ps\<lparr>sessions := (sessions ps)[i := e\<lparr>ps_state := st\<rparr>]\<rparr>,
        st_sess := (st_sess g)(ps_sess e := s), st_wire := (st_wire g)(ps_sess e := w)\<rparr>)"

text \<open>The switch on the state of the entry, with the RPC lock held.\<close>

definition poll_locked ::
  "u16 \<Rightarrow> int \<Rightarrow> visit \<Rightarrow> nc_ps_session_state \<Rightarrow> nc_session \<Rightarrow> wire \<Rightarrow>
   (u32 \<times> nc_ps_session_state \<times> nc_session \<times> wire) option"
where
  "poll_locked idle now v st s w =
     (case st of
        NC_PS_STATE_NONE \<Rightarrow>
          if status s = NC_STATUS_RUNNING then
            (case nc_ps_poll_session_io idle (v_ring v) now s w of None \<Rightarrow> None
             | Some (ret, s', w') \<Rightarrow>
                 Some (ret,
                   if ret = NC_PSPOLL_SESSION_TERM OR NC_PSPOLL_SESSION_ERROR then NC_PS_STATE_INVALID
                   else if ret \<in> {NC_PSPOLL_ERROR, NC_PSPOLL_TIMEOUT, NC_PSPOLL_SSH_CHANNEL, NC_PSPOLL_SSH_MSG}
                   then NC_PS_STATE_NONE else NC_PS_STATE_BUSY, s', w'))
          else Some (if term_reason s \<noteq> NC_SESSION_TERM_CLOSED
                     then NC_PSPOLL_SESSION_TERM OR NC_PSPOLL_SESSION_ERROR else NC_PSPOLL_SESSION_TERM,
                     NC_PS_STATE_INVALID, s, w)
      | NC_PS_STATE_BUSY \<Rightarrow> Some (NC_PSPOLL_ERROR, NC_PS_STATE_BUSY, s, w)
      | NC_PS_STATE_INVALID \<Rightarrow> Some (NC_PSPOLL_TIMEOUT, NC_PS_STATE_INVALID, s, w))"

definition poll_visit :: "u16 \<Rightarrow> int \<Rightarrow> visit \<Rightarrow> nat \<Rightarrow> poll_store \<Rightarrow> (u32 \<times> poll_store) option" where
  "poll_visit idle now v i g =
     (let e = sessions (st_ps g) ! i;
          s0 = (case v_sess v of None \<Rightarrow> st_sess g (ps_sess e) | Some s \<Rightarrow> s);
          w = st_wire g (ps_sess e)
      in case nc_session_rpc_lock s0 0 (v_lk v) [] LK_OK of None \<Rightarrow> None
         | Some (r, s1) \<Rightarrow>
             if r = -1 then Some (NC_PSPOLL_ERROR, put_entry i (ps_state e) s1 w g)
             else if r = 1 then
               (case poll_locked idle now v (ps_state e) s1 w of None \<Rightarrow> None
                | Some (ret, st, s2, w2) \<Rightarrow>
                    Some (ret, put_entry i st
                      (if ret \<noteq> NC_PSPOLL_RPC then snd (nc_session_rpc_unlock s2 0 (v_unlk v) LK_OK) else s2) w2 g))
             else Some (NC_PSPOLL_TIMEOUT, put_entry i (ps_state e) s1 w g))"

definition poll_start :: "nc_pollsession \<Rightarrow> nat" where
  "poll_start ps =
     (if unat (last_event_session ps) = unat (session_count ps) - 1 then 0 else unat (last_event_session ps) + 1)"

definition poll_next :: "nc_pollsession \<Rightarrow> nat \<Rightarrow> nat" where
  "poll_next ps i = (if i = unat (session_count ps) - 1 then 0 else i + 1)"

text \<open>The two nested loops: \<open>i\<close> is the session to visit, \<open>j\<close> the one the round began with. A round
  without an event ends the call when the deadline has passed, and otherwise starts another.\<close>

fun poll_loop ::
  "u16 \<Rightarrow> int \<Rightarrow> timespec option \<Rightarrow> visit list \<Rightarrow> nat \<Rightarrow> nat \<Rightarrow> poll_store \<Rightarrow> (u32 \<times> nat \<times> poll_store) option"
where
  "poll_loop idle now dl [] i j g = None"
| "poll_loop idle now dl (v # vs) i j g =
     (case poll_visit idle now v i g of None \<Rightarrow> None
      | Some (ret, g1) \<Rightarrow>
          if ret \<noteq> NC_PSPOLL_TIMEOUT then Some (ret, i, g1)
          else let i' = poll_next (st_ps g1) i in
            if i' \<noteq> j then poll_loop idle now dl vs i' j g1
            else if (case dl of None \<Rightarrow> False | Some d \<Rightarrow> nc_difftimespec_mono_cur d (v_now v) < 1)
            then Some (NC_PSPOLL_TIMEOUT, i', g1)
            else poll_loop idle now dl vs (poll_start (st_ps g1)) (poll_start (st_ps g1)) g1)"

text \<open>Serving the RPC of the session at index \<open>i\<close>, whose RPC lock is held. The entry is still there:
  it is written to through the pointer taken under the pollsession lock.\<close>

definition poll_rpc :: "'n srv_ops \<Rightarrow> int \<Rightarrow> lock_res \<Rightarrow> nat \<Rightarrow> poll_store \<Rightarrow> (u32 \<times> poll_store) option" where
  "poll_rpc V now unlk i g =
     (let a = ps_sess (sessions (st_ps g) ! i);
          finish = (\<lambda>ret st s w. Some (ret, put_entry i st (snd (nc_session_rpc_unlock s 0 unlk LK_OK)) w g))
      in case nc_server_recv_rpc_io V (st_sess g a) (st_wire g a) of None \<Rightarrow> None
         | Some (ret, ro, s1, w1) \<Rightarrow>
             if ret AND (NC_PSPOLL_ERROR OR NC_PSPOLL_BAD_RPC) \<noteq> 0 then
               if status s1 \<noteq> NC_STATUS_RUNNING
               then finish (ret OR (NC_PSPOLL_SESSION_TERM OR NC_PSPOLL_SESSION_ERROR)) NC_PS_STATE_INVALID s1 w1
               else finish ret NC_PS_STATE_NONE s1 w1
             else
               (case nc_server_send_reply_io V (s1\<lparr>last_rpc := now\<rparr>) w1 ro of None \<Rightarrow> None
                | Some (r2, s2, w2) \<Rightarrow>
                    if status s2 \<noteq> NC_STATUS_RUNNING
                    then finish ((ret OR r2) OR NC_PSPOLL_SESSION_TERM OR
                           (if term_reason_val (term_reason s2) AND
                               (term_reason_val NC_SESSION_TERM_CLOSED OR term_reason_val NC_SESSION_TERM_KILLED) = 0
                            then NC_PSPOLL_SESSION_ERROR else 0)) NC_PS_STATE_INVALID s2 w2
                    else finish (ret OR r2) NC_PS_STATE_NONE s2 w2))"

text \<open>The clock is read twice at the start, for the idle timeouts (\<open>pl_cur\<close>) and for the deadline.\<close>

record poll_env =
  pl_ps :: ps_env
  pl_cur :: timespec
  pl_base :: timespec
  pl_visits :: "visit list"
  pl_unlk :: lock_res

definition poll_wanted :: "u32 \<Rightarrow> bool" where
  "poll_wanted ret \<longleftrightarrow>
     ret \<in> {NC_PSPOLL_RPC, NC_PSPOLL_SESSION_TERM, NC_PSPOLL_SESSION_TERM OR NC_PSPOLL_SESSION_ERROR,
            NC_PSPOLL_SSH_CHANNEL, NC_PSPOLL_SSH_MSG}"

definition poll_release :: "poll_env \<Rightarrow> u8 \<Rightarrow> poll_store \<Rightarrow> poll_store" where
  "poll_release E q g = g\<lparr>st_ps := snd (ps_unlock (st_ps g) q (pe_unlock (pl_ps E)))\<rparr>"

text \<open>What is left to do after the loops: remember the session, release the pollsession, serve the RPC.\<close>

definition poll_finish ::
  "'n srv_ops \<Rightarrow> poll_env \<Rightarrow> u8 \<Rightarrow> int \<Rightarrow> u32 \<Rightarrow> nat \<Rightarrow> poll_store \<Rightarrow> (u32 \<times> sref option \<times> poll_store) option"
where
  "poll_finish V E q now ret i g1 =
     (let a = ps_sess (sessions (st_ps g1) ! i);
          g2 = poll_release E q
                 (if poll_wanted ret then g1\<lparr>st_ps := (st_ps g1)\<lparr>last_event_session := of_nat i\<rparr>\<rparr> else g1)
      in if ret = NC_PSPOLL_RPC
         then map_option (\<lambda>(ret', g3). (ret', Some a, g3)) (poll_rpc V now (pl_unlk E) i g2)
         else Some (ret, if poll_wanted ret then Some a else None, g2))"

definition nc_ps_poll ::
  "'n srv_ops \<Rightarrow> u16 \<Rightarrow> int \<Rightarrow> poll_env \<Rightarrow> poll_store \<Rightarrow> (u32 \<times> sref option \<times> poll_store) option"
where
  "nc_ps_poll V idle timeout E g =
     (case nc_ps_lock (st_ps g) (pe_lock (pl_ps E)) (pe_waits (pl_ps E)) of None \<Rightarrow> None
      | Some (None, ps1) \<Rightarrow> Some (NC_PSPOLL_ERROR, None, g\<lparr>st_ps := ps1\<rparr>)
      | Some (Some q, ps1) \<Rightarrow>
          if session_count ps1 = 0 then Some (NC_PSPOLL_NOSESSIONS, None, poll_release E q (g\<lparr>st_ps := ps1\<rparr>))
          else
            let now = tv_sec (pl_cur E);
                dl = (if timeout > -1 then Some (timespec_add_msec (pl_base E) (of_int timeout)) else None)
            in case poll_loop idle now dl (pl_visits E) (poll_start ps1) (poll_start ps1) (g\<lparr>st_ps := ps1\<rparr>) of
                 None \<Rightarrow> None
               | Some (ret, i, g1) \<Rightarrow> poll_finish V E q now ret i g1)"

section \<open>One visit\<close>

text \<open>The fields of a session that serving it does not change.\<close>

definition keeps :: "nc_session \<Rightarrow> nc_session \<Rightarrow> bool" where
  "keeps s s' \<longleftrightarrow> rpc_inuse s' = rpc_inuse s \<and> side s' = side s \<and> sess_id s' = sess_id s \<and> ti_type s' = ti_type s \<and>
     version s' = version s"

lemma keeps_refl [simp]: "keeps s s"
  by (simp add: keeps_def)

lemma keeps_trans: "keeps s s1 \<Longrightarrow> keeps s1 s2 \<Longrightarrow> keeps s s2"
  by (simp add: keeps_def)

lemma keeps_invalidate [simp]: "keeps s (invalidate r s)"
  by (simp add: keeps_def)

lemma keeps_upd [simp]: "keeps s (s\<lparr>status := x\<rparr>)" "keeps s (s\<lparr>flags := f\<rparr>)" "keeps s (s\<lparr>last_rpc := t\<rparr>)"
  by (simp_all add: keeps_def)

lemma poll_fd_result_spec:
  assumes "poll_fd_result p s = (ret, s')"
  shows "ret \<in> {NC_PSPOLL_SESSION_TERM OR NC_PSPOLL_SESSION_ERROR, NC_PSPOLL_ERROR, NC_PSPOLL_TIMEOUT, NC_PSPOLL_RPC} \<and>
    keeps s s' \<and> (ret \<in> {NC_PSPOLL_TIMEOUT, NC_PSPOLL_RPC} \<longrightarrow> s' = s) \<and>
    (ret = NC_PSPOLL_SESSION_TERM OR NC_PSPOLL_SESSION_ERROR \<longrightarrow>
       status s' = NC_STATUS_INVALID \<and> term_reason s' \<in> {NC_SESSION_TERM_DROPPED, NC_SESSION_TERM_OTHER})"
  using assms by (auto simp: poll_fd_result_def pspoll_defs split: poll_res.splits if_splits)

text \<open>The documented results of checking a session.\<close>

definition poll_results :: "u32 set" where
  "poll_results = {NC_PSPOLL_SESSION_TERM OR NC_PSPOLL_SESSION_ERROR, NC_PSPOLL_ERROR, NC_PSPOLL_TIMEOUT, NC_PSPOLL_RPC,
     NC_PSPOLL_SSH_CHANNEL, NC_PSPOLL_SSH_MSG}"

definition poll_io_post :: "nc_session \<Rightarrow> wire \<Rightarrow> u32 \<Rightarrow> nc_session \<Rightarrow> wire \<Rightarrow> bool" where
  "poll_io_post s w ret s' w' \<longleftrightarrow>
     ret \<in> poll_results \<and> keeps s s' \<and> \<not> io_held w' \<and> rx w' = rx w \<and> tx w' = tx w \<and>
     (ret \<in> {NC_PSPOLL_TIMEOUT, NC_PSPOLL_RPC} \<longrightarrow> s' = s) \<and>
     (ret = NC_PSPOLL_SESSION_TERM OR NC_PSPOLL_SESSION_ERROR \<longrightarrow>
        status s' = NC_STATUS_INVALID \<and>
        term_reason s' \<in> {NC_SESSION_TERM_TIMEOUT, NC_SESSION_TERM_DROPPED, NC_SESSION_TERM_OTHER})"

lemma poll_io_postI:
  assumes "poll_fd_result p s = (ret, s')" and "rx w' = rx w" "tx w' = tx w" "\<not> io_held w'"
  shows "poll_io_post s w ret s' w'"
  using poll_fd_result_spec [OF assms(1)] assms(2-) by (auto simp: poll_io_post_def poll_results_def)

lemma nc_ps_poll_session_io_post:
  assumes "nc_ps_poll_session_io idle ring now s w = Some (ret, s', w')" and "\<not> io_held w"
  shows "poll_io_post s w ret s' w'"
proof (cases "\<not> flag_set s NC_SESSION_CALLHOME \<and> nc_session_get_notif_status (Some s) = 0 \<and> idle \<noteq> 0 \<and>
         now \<ge> last_rpc s + int (unat idle)")
  case True
  then have "ret = NC_PSPOLL_SESSION_TERM OR NC_PSPOLL_SESSION_ERROR" "s' = invalidate NC_SESSION_TERM_TIMEOUT s" "w' = w"
    using assms(1) unfolding nc_ps_poll_session_io_def by (simp_all only: if_P simp_thms option.inject prod.inject)
  then show ?thesis using assms(2) by (simp add: poll_io_post_def poll_results_def pspoll_defs)
next
  case False
  obtain lr w0 where lk: "io_lock w = Some (lr, w0)"
    using assms(1) False unfolding nc_ps_poll_session_io_def by (simp only: if_not_P) (auto split: option.splits)
  have lk': "rx w0 = rx w" "tx w0 = tx w" "lr \<noteq> 1 \<Longrightarrow> \<not> io_held w0" "lr \<in> {1, 0, -1}"
    using lk assms(2) by (auto elim: io_lock_cases)
  note eq = assms(1) [unfolded nc_ps_poll_session_io_def if_not_P [OF False] lk option.case prod.case]
  show ?thesis
  proof (cases "lr = 1")
    case False
    then show ?thesis using eq lk' by (auto simp: poll_io_post_def poll_results_def pspoll_defs)
  next
    case True
    note eq1 = eq [unfolded True, simplified]
    show ?thesis
    proof (cases "poll_sched w0")
      case Nil
      then show ?thesis using eq1 lk'
        by (auto simp: poll_io_post_def poll_results_def pspoll_defs split: if_splits)
    next
      case (Cons p ps)
      let ?w1 = "io_unlock (w0\<lparr>poll_sched := ps\<rparr>)"
      have w1: "rx ?w1 = rx w" "tx ?w1 = tx w" "\<not> io_held ?w1" "rx (io_unlock w0) = rx w" "tx (io_unlock w0) = tx w"
        using lk' by simp_all
      have fd: "poll_io_post s w r t ?w1" if "poll_fd_result (pr_poll p) s = (r, t)" for r t
        using that w1(1-3) by (rule poll_io_postI)
      have quiet: "poll_io_post s w r s x" if "r \<in> {NC_PSPOLL_RPC, NC_PSPOLL_TIMEOUT, NC_PSPOLL_ERROR}"
        "x = ?w1 \<or> x = io_unlock w0" for r x
        using that w1 by (auto simp: poll_io_post_def poll_results_def pspoll_defs)
      note eq2 = eq1 [unfolded Cons list.case Let_def]
      show ?thesis
      proof (cases "ti_type s")
        case NC_TI_NONE
        then show ?thesis using eq2 quiet by auto
      next
        case NC_TI_LIBSSH
        then show ?thesis using eq2 w1 quiet
          by (cases "pr_ssh p") (auto simp: poll_io_post_def poll_results_def pspoll_defs split: if_splits)
      next
        case NC_TI_OPENSSL
        then show ?thesis using eq2 fd quiet by (auto split: if_splits prod.splits)
      qed (use eq2 fd in \<open>auto split: prod.splits\<close>)
    qed
  qed
qed

text \<open>Trying the RPC lock: granted only when the flag is clear.\<close>

lemma rpc_trylock_cases:
  assumes "nc_session_rpc_lock s 0 lk [] LK_OK = Some (r, s')"
  obtains (failed) "r = -1" "keeps s s'"
    | (busy) "r = 0" "keeps s s'"
    | (locked) "r = 1" "\<not> rpc_inuse s" "side s = NC_SERVER" "s' = s\<lparr>rpc_inuse := True, rpc_mutex := False\<rparr>"
proof -
  have k: "keeps s (s\<lparr>rpc_inuse := rpc_inuse s, rpc_mutex := b\<rparr>)" for b by (simp add: keeps_def)
  show ?thesis
  proof (cases lk)
    case LK_OK
    then show ?thesis using assms that(1) that(3) that(2)
      by (auto simp: nc_session_rpc_lock_def keeps_def split: if_splits)
  qed (use assms that k in \<open>auto simp: nc_session_rpc_lock_def keeps_def split: if_splits\<close>)
qed

lemma rpc_unlock_releases:
  "side s = NC_SERVER \<Longrightarrow> unlk \<noteq> LK_ERROR \<Longrightarrow>
     \<not> rpc_inuse (snd (nc_session_rpc_unlock s t unlk LK_OK)) \<and> status (snd (nc_session_rpc_unlock s t unlk LK_OK)) = status s \<and>
     term_reason (snd (nc_session_rpc_unlock s t unlk LK_OK)) = term_reason s \<and> side (snd (nc_session_rpc_unlock s t unlk LK_OK)) = side s"
  by (auto simp: nc_session_rpc_unlock_def Let_def)

text \<open>With the lock held, checking the entry leaves the session locked and its transport quiet; the
  entry is busy afterwards only when there is an RPC to serve.\<close>

lemma poll_locked_spec:
  assumes "poll_locked idle now v st s w = Some (ret, st', s', w')" and "\<not> io_held w"
  shows "keeps s s'" and "\<not> io_held w'" and "rx w' = rx w"
    and "ret \<in> insert NC_PSPOLL_SESSION_TERM poll_results"
    and "ret = NC_PSPOLL_RPC \<Longrightarrow> st = NC_PS_STATE_NONE \<and> st' = NC_PS_STATE_BUSY \<and> s' = s \<and> status s = NC_STATUS_RUNNING"
    and "ret \<noteq> NC_PSPOLL_RPC \<Longrightarrow> st \<noteq> NC_PS_STATE_BUSY \<Longrightarrow> st' \<noteq> NC_PS_STATE_BUSY"
    and "ret AND NC_PSPOLL_SESSION_TERM \<noteq> 0 \<Longrightarrow> status s' \<noteq> NC_STATUS_RUNNING \<and> st' = NC_PS_STATE_INVALID"
proof -
  have "keeps s s' \<and> \<not> io_held w' \<and> rx w' = rx w \<and> ret \<in> insert NC_PSPOLL_SESSION_TERM poll_results \<and>
    (ret = NC_PSPOLL_RPC \<longrightarrow> st = NC_PS_STATE_NONE \<and> st' = NC_PS_STATE_BUSY \<and> s' = s \<and> status s = NC_STATUS_RUNNING) \<and>
    (ret \<noteq> NC_PSPOLL_RPC \<longrightarrow> st \<noteq> NC_PS_STATE_BUSY \<longrightarrow> st' \<noteq> NC_PS_STATE_BUSY) \<and>
    (ret AND NC_PSPOLL_SESSION_TERM \<noteq> 0 \<longrightarrow> status s' \<noteq> NC_STATUS_RUNNING \<and> st' = NC_PS_STATE_INVALID)"
  proof (cases "st = NC_PS_STATE_NONE \<and> status s = NC_STATUS_RUNNING")
    case True
    then obtain s1 w1 where p: "nc_ps_poll_session_io idle (v_ring v) now s w = Some (ret, s1, w1)"
      and eqs: "s1 = s'" "w1 = w'" "st' = (if ret = NC_PSPOLL_SESSION_TERM OR NC_PSPOLL_SESSION_ERROR then NC_PS_STATE_INVALID
                   else if ret \<in> {NC_PSPOLL_ERROR, NC_PSPOLL_TIMEOUT, NC_PSPOLL_SSH_CHANNEL, NC_PSPOLL_SSH_MSG}
                   then NC_PS_STATE_NONE else NC_PS_STATE_BUSY)"
      using assms(1) by (auto simp: poll_locked_def split: option.splits)
    show ?thesis
      using nc_ps_poll_session_io_post [OF p assms(2)] True eqs
      by (auto simp: poll_io_post_def poll_results_def pspoll_defs)
  next
    case False
    then show ?thesis using assms
      by (cases st) (auto simp: poll_locked_def poll_results_def pspoll_defs split: if_splits)
  qed
  then show "keeps s s'" and "\<not> io_held w'" and "rx w' = rx w"
    and "ret \<in> insert NC_PSPOLL_SESSION_TERM poll_results"
    and "ret = NC_PSPOLL_RPC \<Longrightarrow> st = NC_PS_STATE_NONE \<and> st' = NC_PS_STATE_BUSY \<and> s' = s \<and> status s = NC_STATUS_RUNNING"
    and "ret \<noteq> NC_PSPOLL_RPC \<Longrightarrow> st \<noteq> NC_PS_STATE_BUSY \<Longrightarrow> st' \<noteq> NC_PS_STATE_BUSY"
    and "ret AND NC_PSPOLL_SESSION_TERM \<noteq> 0 \<Longrightarrow> status s' \<noteq> NC_STATUS_RUNNING \<and> st' = NC_PS_STATE_INVALID"
    by blast+
qed

lemma put_entry_simps [simp]:
  "session_count (st_ps (put_entry i st s w g)) = session_count (st_ps g)"
  "last_event_session (st_ps (put_entry i st s w g)) = last_event_session (st_ps g)"
  "ps_q (st_ps (put_entry i st s w g)) = ps_q (st_ps g)"
  "length (sessions (st_ps (put_entry i st s w g))) = length (sessions (st_ps g))"
  "map ps_sess (sessions (st_ps (put_entry i st s w g))) = map ps_sess (sessions (st_ps g))"
  by (simp_all add: put_entry_def Let_def map_update)
     (metis list_update_id list_update_beyond linorder_not_less nth_map length_map)

lemma put_entry_at:
  assumes "i < length (sessions (st_ps g))"
  shows "sessions (st_ps (put_entry i st s w g)) = (sessions (st_ps g))[i := (sessions (st_ps g) ! i)\<lparr>ps_state := st\<rparr>]"
    and "st_sess (put_entry i st s w g) = (st_sess g)(ps_sess (sessions (st_ps g) ! i) := s)"
    and "st_wire (put_entry i st s w g) = (st_wire g)(ps_sess (sessions (st_ps g) ! i) := w)"
  by (simp_all add: put_entry_def Let_def)

definition v_found :: "visit \<Rightarrow> poll_store \<Rightarrow> nat \<Rightarrow> nc_session" where
  "v_found v g i = (case v_sess v of None \<Rightarrow> st_sess g (ps_sess (sessions (st_ps g) ! i)) | Some s \<Rightarrow> s)"

definition visit_post :: "visit \<Rightarrow> nat \<Rightarrow> poll_store \<Rightarrow> u32 \<Rightarrow> nc_ps_session_state \<Rightarrow> nc_session \<Rightarrow> wire \<Rightarrow> bool" where
  "visit_post v i g ret st s w \<longleftrightarrow>
     (let e = sessions (st_ps g) ! i in
      \<not> io_held w \<and> rx w = rx (st_wire g (ps_sess e)) \<and> ret \<in> insert NC_PSPOLL_SESSION_TERM poll_results \<and>
      (ret = NC_PSPOLL_RPC \<longrightarrow> st = NC_PS_STATE_BUSY \<and> side s = NC_SERVER \<and> status s = NC_STATUS_RUNNING \<and>
         \<not> rpc_inuse (v_found v g i)) \<and>
      (ret \<noteq> NC_PSPOLL_RPC \<longrightarrow> (rpc_inuse s \<longrightarrow> rpc_inuse (v_found v g i)) \<and>
         (ps_state e \<noteq> NC_PS_STATE_BUSY \<longrightarrow> st \<noteq> NC_PS_STATE_BUSY)) \<and>
      (ret AND NC_PSPOLL_SESSION_TERM \<noteq> 0 \<longrightarrow> status s \<noteq> NC_STATUS_RUNNING \<and> st = NC_PS_STATE_INVALID))"

lemma rpc_no_term: "NC_PSPOLL_RPC AND NC_PSPOLL_SESSION_TERM = 0" "NC_PSPOLL_RPC \<noteq> NC_PSPOLL_SESSION_TERM"
  by (simp_all add: pspoll_defs)

lemma poll_visit_spec:
  assumes "poll_visit idle now v i g = Some (ret, g')" and "\<not> io_held (st_wire g (ps_sess (sessions (st_ps g) ! i)))"
    and "v_unlk v \<noteq> LK_ERROR"
  shows "\<exists>st s w. g' = put_entry i st s w g \<and> visit_post v i g ret st s w"
proof -
  let ?e = "sessions (st_ps g) ! i" and ?w = "st_wire g (ps_sess (sessions (st_ps g) ! i))"
  obtain r s1 where lk: "nc_session_rpc_lock (v_found v g i) 0 (v_lk v) [] LK_OK = Some (r, s1)"
    using assms(1) by (auto simp: poll_visit_def v_found_def Let_def split: option.splits)
  note eq = assms(1) [unfolded poll_visit_def Let_def, folded v_found_def, unfolded lk option.case prod.case]
  from lk show ?thesis
  proof (cases rule: rpc_trylock_cases)
    case failed
    then have "ret = NC_PSPOLL_ERROR" "g' = put_entry i (ps_state ?e) s1 ?w g" using eq by auto
    then show ?thesis using failed assms(2)
      by (intro exI [of _ "ps_state ?e"] exI [of _ s1] exI [of _ ?w])
        (auto simp: visit_post_def poll_results_def pspoll_defs keeps_def)
  next
    case busy
    then have "ret = NC_PSPOLL_TIMEOUT" "g' = put_entry i (ps_state ?e) s1 ?w g" using eq by auto
    then show ?thesis using busy assms(2)
      by (intro exI [of _ "ps_state ?e"] exI [of _ s1] exI [of _ ?w])
        (auto simp: visit_post_def poll_results_def pspoll_defs keeps_def)
  next
    case locked
    then obtain st s2 w2 where p: "poll_locked idle now v (ps_state ?e) s1 ?w = Some (ret, st, s2, w2)"
      and g': "g' = put_entry i st (if ret \<noteq> NC_PSPOLL_RPC then snd (nc_session_rpc_unlock s2 0 (v_unlk v) LK_OK) else s2) w2 g"
      using eq by (auto split: option.splits)
    note pl = poll_locked_spec [OF p assms(2)]
    have srv: "side s2 = NC_SERVER" using pl(1) locked by (simp add: keeps_def)
    note rel = rpc_unlock_releases [OF srv assms(3), of 0]
    show ?thesis
    proof (cases "ret = NC_PSPOLL_RPC")
      case True
      then have "visit_post v i g ret st s2 w2" using pl locked srv rpc_no_term by (auto simp: visit_post_def)
      then show ?thesis using g' True by auto
    next
      case False
      then have "visit_post v i g ret st (snd (nc_session_rpc_unlock s2 0 (v_unlk v) LK_OK)) w2"
        using pl rel by (simp add: visit_post_def)
      then show ?thesis using g' False by auto
    qed
  qed
qed

section \<open>The order of the visits\<close>

text \<open>Reference: one flat loop in which visit number \<open>m\<close> goes to session \<open>(k + m) mod n\<close>, and the deadline
  is looked at after every \<open>n\<close> visits.\<close>

fun poll_ref ::
  "u16 \<Rightarrow> int \<Rightarrow> timespec option \<Rightarrow> nat \<Rightarrow> nat \<Rightarrow> visit list \<Rightarrow> nat \<Rightarrow> poll_store \<Rightarrow> (u32 \<times> nat \<times> poll_store) option"
where
  "poll_ref idle now dl n k [] m g = None"
| "poll_ref idle now dl n k (v # vs) m g =
     (case poll_visit idle now v ((k + m) mod n) g of None \<Rightarrow> None
      | Some (ret, g1) \<Rightarrow>
          if ret \<noteq> NC_PSPOLL_TIMEOUT then Some (ret, (k + m) mod n, g1)
          else if n dvd m + 1 \<and> (case dl of None \<Rightarrow> False | Some d \<Rightarrow> nc_difftimespec_mono_cur d (v_now v) < 1)
          then Some (NC_PSPOLL_TIMEOUT, k, g1)
          else poll_ref idle now dl n k vs (m + 1) g1)"

lemma poll_visit_keeps_ps:
  assumes "poll_visit idle now v i g = Some (ret, g')"
  shows "session_count (st_ps g') = session_count (st_ps g) \<and> last_event_session (st_ps g') = last_event_session (st_ps g)"
  using assms by (auto simp: poll_visit_def Let_def split: option.splits if_splits)

lemma poll_next_mod:
  assumes "unat (session_count ps) = n" and "0 < n"
  shows "poll_next ps ((k + m) mod n) = (k + (m + 1)) mod n"
  using assms mod_Suc [of "k + m" n] by (auto simp: poll_next_def)

lemma mod_back: "k < n \<Longrightarrow> (k + m) mod n = k \<longleftrightarrow> n dvd (m :: nat)"
proof
  assume k: "k < n" and "(k + m) mod n = k"
  then have "(k + m) mod n = k mod n" by simp
  then have "n dvd (k + m) - k" by (intro mod_eq_dvd_iff_nat [THEN iffD1]) simp_all
  then show "n dvd m" by simp
next
  assume "k < n" and "n dvd m"
  then show "(k + m) mod n = k" by (auto elim!: dvdE simp: mod_mult_self2)
qed

lemma poll_loop_ref:
  assumes "unat (session_count (st_ps g)) = n" and "poll_start (st_ps g) = k" and "k < n"
  shows "poll_loop idle now dl vs ((k + m) mod n) k g = poll_ref idle now dl n k vs m g"
  using assms
proof (induction vs arbitrary: m g)
  case (Cons v vs)
  show ?case
  proof (cases "poll_visit idle now v ((k + m) mod n) g")
    case (Some rg)
    obtain ret g1 where rg: "rg = (ret, g1)" by fastforce
    have keep: "session_count (st_ps g1) = session_count (st_ps g)" "last_event_session (st_ps g1) = last_event_session (st_ps g)"
      using poll_visit_keeps_ps Some rg by auto
    then have "poll_start (st_ps g1) = poll_start (st_ps g)" by (simp only: poll_start_def)
    then have g1: "unat (session_count (st_ps g1)) = n" "poll_start (st_ps g1) = k"
      using Cons.prems keep by simp_all
    have i': "poll_next (st_ps g1) ((k + m) mod n) = (k + (m + 1)) mod n"
      using poll_next_mod [OF g1(1)] Cons.prems(3) by simp
    have again: "(k + (m + 1)) mod n = k \<longleftrightarrow> n dvd m + 1" by (rule mod_back [OF Cons.prems(3)])
    note ih = Cons.IH [OF g1 Cons.prems(3), of "m + 1"]
    show ?thesis using Some rg i' again ih g1(2)
      by (cases "n dvd m + 1") (simp_all add: Let_def)
  qed simp
qed simp

text \<open>C12: fair polling. With \<open>n\<close> sessions, the nested loops of \<^verbatim>\<open>nc_ps_poll\<close> are one flat round-robin: they
  begin with the session after the one that had the last event, visit number \<open>m\<close> goes to
  session \<open>(k + m) mod n\<close>, so every session is visited once in any \<open>n\<close> consecutive visits, and the
  timeout is looked at after each full round.\<close>

theorem poll_round_robin:
  assumes "session_count (st_ps g) \<noteq> 0" and "last_event_session (st_ps g) < session_count (st_ps g)"
  shows "poll_loop idle now dl vs (poll_start (st_ps g)) (poll_start (st_ps g)) g
           = poll_ref idle now dl (unat (session_count (st_ps g)))
               ((unat (last_event_session (st_ps g)) + 1) mod unat (session_count (st_ps g))) vs 0 g"
proof -
  let ?n = "unat (session_count (st_ps g))" and ?l = "unat (last_event_session (st_ps g))"
  have l: "?l < ?n" using assms(2) by (simp add: word_less_nat_alt)
  have k: "poll_start (st_ps g) = (?l + 1) mod ?n" using l by (auto simp: poll_start_def)
  then have "poll_start (st_ps g) < ?n" using l by simp
  from poll_loop_ref [OF refl refl this, of idle now dl vs 0] show ?thesis using k by simp
qed

section \<open>Serving an RPC\<close>

text \<open>No piece libyang prints has 2^31 bytes; callbacks change a session only through the interface,
  which has no access to the lock flag, the side, the identity or the transport.\<close>

definition small_print :: "'n ly_ops \<Rightarrow> bool" where
  "small_print L \<longleftrightarrow> (\<forall>n fl. list_all (\<lambda>p. length p < 2 ^ 31) (fst (ly_print L n fl)))"

definition clbs_ok :: "'n srv_ops \<Rightarrow> bool" where
  "clbs_ok V \<longleftrightarrow> (\<forall>act clb op s r s'. (priv V act = Some clb \<or> global_rpc_clb V = Some clb) \<longrightarrow>
     clb op s = (r, s') \<longrightarrow> keeps s s')"

definition quiet :: "wire \<Rightarrow> bool" where
  "quiet w \<longleftrightarrow> \<not> io_held w \<and> length (rx w) < 2 ^ 31"

lemma reply_small:
  assumes "small_print L"
  shows "\<forall>its. msg_plan L s (Out_reply eo r) = Some (Plan its) \<longrightarrow> list_all (item_small L) its"
  using assms by (auto simp: msg_plan_def reply_plan_def small_print_def Let_def NC_NS_BASE_def DQUOTE_def
      split: option.splits nc_server_reply.splits)

lemma write_reply_frame:
  assumes "nc_write_msg_io L s w (Out_reply eo r) = Some (t, s', w')" and "\<not> io_held w" and "small_print L"
  shows "keeps s s' \<and> \<not> io_held w' \<and>
    (s' = s \<or> status s' = NC_STATUS_INVALID \<and> term_reason s' = NC_SESSION_TERM_DROPPED) \<and> (t = NC_MSG_REPLY \<longrightarrow> live s')"
proof -
  have "out_type (Out_reply eo r) \<notin> {NC_MSG_ERROR, NC_MSG_WOULDBLOCK}" by simp
  from nc_write_msg_io_contract [OF assms(1,2) reply_small [OF assms(3)] this] show ?thesis
    by (auto simp: send_post_def bump_msgid_def)
qed

lemma send_err_reply_frame:
  assumes "send_err_reply V eo reply s w = Some (s', w')" and "\<not> io_held w" and "small_print (so_ly V)"
  shows "keeps s s' \<and> \<not> io_held w'"
proof (cases reply)
  case None
  then show ?thesis using assms by (simp add: send_err_reply_def)
next
  case (Some r)
  then obtain t s1 where "nc_write_msg_io (so_ly V) s w (Out_reply eo (srp r)) = Some (t, s1, w')"
    "s' = s1 \<or> s' = invalidate NC_SESSION_TERM_OTHER s1"
    using assms(1) by (auto simp: send_err_reply_def split: option.splits if_splits)
  then show ?thesis using write_reply_frame [OF _ assms(2,3)] keeps_trans [of s s1 s'] by auto
qed

lemma recv_judge:
  assumes "nc_server_recv_rpc_io V s w = Some (ret, ro, s', w')" and "quiet w" and "status s = NC_STATUS_RUNNING" "side s = NC_SERVER"
  obtains (stop) r msg where "nc_read_msg_io s w False = Some (r, msg, s', w')" "ro = None" "keeps s s'" "\<not> io_held w'"
      "r = -1 \<and> ret = NC_PSPOLL_ERROR \<or> r = 0 \<and> ret = NC_PSPOLL_TIMEOUT"
    | (bad) r msg s1 w1 reply where "nc_read_msg_io s w False = Some (r, msg, s1, w1)" "keeps s s1" "\<not> io_held w1"
      "r = -2" "ret = NC_PSPOLL_BAD_RPC" "ro = None" "send_err_reply V None reply s1 w1 = Some (s', w')"
    | (msg) m w1 ro1 reply where "nc_read_msg_io s w False = Some (1, Some (cstr m), s, w1)" "\<not> io_held w1"
      "frame_dec (version s) (rx w) = Some (Frame_ok m (rx w1))"
      "rpc_judge V (version s) (cstr m) = Some (ret, ro1, reply)"
      "send_err_reply V (case ro1 of None \<Rightarrow> None | Some r \<Rightarrow> envp r) reply s w1 = Some (s', w')"
      "ro = (if ret = NC_PSPOLL_RPC then ro1 else None)"
proof -
  have q: "length (rx w) < 2 ^ 31" "False \<or> \<not> io_held w" using assms(2) by (simp_all add: quiet_def)
  obtain r msg s1 w1 where rd: "nc_read_msg_io s w False = Some (r, msg, s1, w1)"
    using assms(1,3,4) by (auto simp: nc_server_recv_rpc_io_def split: option.splits)
  have c: "msg_contract s (rx w) (oob w) r msg s1 w1" by (rule nc_read_msg_io_contract [OF rd q])
  then have k: "keeps s s1" "\<not> io_held w1" "r \<in> {-2, -1, 0, 1}" by (auto simp: msg_contract_def)
  note eq = assms(1) [unfolded nc_server_recv_rpc_io_def rd option.case prod.case]
  consider "r = -1" | "r = 0" | "r = -2" | "r = 1" using k(3) by auto
  then show thesis
  proof cases
    case 3
    then show ?thesis using eq assms(3,4) rd k bad by (auto simp: pspoll_defs split: option.splits)
  next
    case 4
    then obtain m where m: "msg = Some (cstr m)" "s1 = s" "frame_dec (version s) (rx w) = Some (Frame_ok m (rx w1))"
      using c by (auto simp: msg_contract_def)
    obtain ret1 ro1 reply where j: "rpc_judge V (version s) (cstr m) = Some (ret1, ro1, reply)"
      using eq assms(3,4) 4 m by (auto split: option.splits)
    then show ?thesis using eq assms(3,4) rd k m 4 msg [of m w1 ro1 reply] by (auto split: option.splits)
  qed (use eq assms(3,4) rd k stop in auto)
qed

lemma judge_results:
  assumes "rpc_judge V v m = Some (ret, ro, reply)"
  shows "ret \<in> {NC_PSPOLL_RPC, NC_PSPOLL_BAD_RPC}"
    and "ret = NC_PSPOLL_RPC \<Longrightarrow> reply = None \<and>
      (\<exists>e op. lyd_parse_op V m = (True, Some e, op) \<and> ''message-id'' \<in> set (opaq_attrs V e) \<and> ro = Some \<lparr>envp = Some e, rpc = op\<rparr>)"
proof -
  have ne: "NC_PSPOLL_RPC \<noteq> NC_PSPOLL_BAD_RPC" by (simp add: pspoll_defs)
  show "ret \<in> {NC_PSPOLL_RPC, NC_PSPOLL_BAD_RPC}"
    using assms by (auto simp: rpc_judge_def Let_def split: if_splits option.splits prod.splits)
  show "ret = NC_PSPOLL_RPC \<Longrightarrow> reply = None \<and>
      (\<exists>e op. lyd_parse_op V m = (True, Some e, op) \<and> ''message-id'' \<in> set (opaq_attrs V e) \<and> ro = Some \<lparr>envp = Some e, rpc = op\<rparr>)"
    using assms ne
    by (auto simp: rpc_judge_def recv_rpc_check_msgid_def Let_def find_idx_None in_set_conv_nth
        split: if_splits option.splits prod.splits dest!: find_idx_Some_bound)
qed

text \<open>What receiving an RPC guarantees.\<close>

lemma recv_rpc_post:
  assumes "nc_server_recv_rpc_io V s w = Some (ret, ro, s', w')" and "quiet w"
    and "status s = NC_STATUS_RUNNING" "side s = NC_SERVER" and "small_print (so_ly V)"
  shows "ret \<in> {NC_PSPOLL_ERROR, NC_PSPOLL_TIMEOUT, NC_PSPOLL_BAD_RPC, NC_PSPOLL_RPC} \<and> keeps s s' \<and> \<not> io_held w' \<and>
    (ro \<noteq> None \<longleftrightarrow> ret = NC_PSPOLL_RPC) \<and>
    (ret = NC_PSPOLL_RPC \<longrightarrow> s' = s \<and>
       (\<exists>m e op. frame_dec (version s) (rx w) = Some (Frame_ok m (rx w')) \<and> lyd_parse_op V (cstr m) = (True, Some e, op) \<and>
          ''message-id'' \<in> set (opaq_attrs V e) \<and> ro = Some \<lparr>envp = Some e, rpc = op\<rparr>))"
  using assms(1-4)
proof (cases rule: recv_judge)
  case (stop r msg)
  then show ?thesis by (auto simp: pspoll_defs)
next
  case (bad r msg s1 w1 reply)
  then show ?thesis using send_err_reply_frame [OF bad(7,3) assms(5)] keeps_trans by (auto simp: pspoll_defs)
next
  case (msg m w1 ro1 reply)
  note j = judge_results [OF msg(4)]
  have fr: "keeps s s' \<and> \<not> io_held w'" by (rule send_err_reply_frame [OF msg(5,2) assms(5)])
  show ?thesis
  proof (cases "ret = NC_PSPOLL_RPC")
    case True
    then have "s' = s" "w' = w1" using j(2) msg(5) by (auto simp: send_err_reply_def)
    then show ?thesis using True j(2) [OF True] msg fr by auto
  next
    case False
    then show ?thesis using j(1) msg(6) fr by auto
  qed
qed


lemma reply_result_spec:
  assumes "reply_result t reply s = (ret, s')"
  shows "keeps s s'" and "ret AND NC_PSPOLL_SESSION_TERM = 0"
    and "status s' = NC_STATUS_RUNNING \<Longrightarrow> s' = s \<and> term_reason s = NC_SESSION_TERM_NONE"
  using assms by (auto simp: reply_result_def Let_def pspoll_defs split: nc_server_reply.splits if_splits)

lemma send_reply_post:
  assumes "nc_server_send_reply_io V s w ro = Some (ret, s', w')" and "\<not> io_held w" and "small_print (so_ly V)" and "clbs_ok V"
  shows "keeps s s' \<and> \<not> io_held w' \<and> ret AND NC_PSPOLL_SESSION_TERM = 0"
proof -
  have bits: "NC_PSPOLL_ERROR AND NC_PSPOLL_SESSION_TERM = 0" by (simp add: pspoll_defs)
  show ?thesis
  proof (cases "\<exists>r op act. ro = Some r \<and> rpc r = Some op \<and> rpc_act V op = Some act")
    case False
    then show ?thesis using assms(1,2) bits
      by (auto simp: nc_server_send_reply_io_def split: option.splits)
  next
    case True
    then obtain r op act where r: "ro = Some r" "rpc r = Some op" "rpc_act V op = Some act" by blast
    define c where "c = (case priv V act of Some clb \<Rightarrow> clb op s
             | None \<Rightarrow> (case global_rpc_clb V of
                    None \<Rightarrow> (nc_server_reply_err (reply_alloc V) (err_of V NC_ERR_OP_NOT_SUPPORTED NC_ERR_TYPE_PROT), s)
                  | Some clb \<Rightarrow> clb op s))"
    obtain r0 s1 where c: "c = (r0, s1)" by fastforce
    have k1: "keeps s s1" using assms(4) c unfolding c_def clbs_ok_def
      by (auto split: option.splits)
    note eq = assms(1) [unfolded nc_server_send_reply_io_def r option.case, folded c_def, unfolded c Let_def prod.case]
    from eq obtain x t s2 where w: "nc_write_msg_io (so_ly V) s1 w (Out_reply (envp r) x) = Some (t, s2, w')"
      and rr: "reply_result t x s2 = (ret, s')"
      by (auto simp: r split: option.splits prod.splits)
    have "keeps s1 s2" "\<not> io_held w'" using write_reply_frame [OF w assms(2,3)] by auto
    then show ?thesis using k1 reply_result_spec [OF rr] keeps_trans by blast
  qed
qed

lemma or_and_self: "(a OR b OR c) AND b = (b :: 'w::len word)" "(a OR (b OR c)) AND b = b"
  by (rule bit_word_eqI; auto simp: bit_simps)+

lemma or_and_none: "a AND b = 0 \<Longrightarrow> c AND b = 0 \<Longrightarrow> (a OR c) AND b = (0 :: 'w::len word)"
  by (simp add: bit.conj_disj_distrib2)

definition rpc_post :: "u32 \<Rightarrow> nc_ps_session_state \<Rightarrow> nc_session \<Rightarrow> wire \<Rightarrow> bool" where
  "rpc_post ret st s w \<longleftrightarrow> \<not> rpc_inuse s \<and> \<not> io_held w \<and> st \<noteq> NC_PS_STATE_BUSY \<and>
     (ret AND NC_PSPOLL_SESSION_TERM \<noteq> 0 \<longleftrightarrow> status s \<noteq> NC_STATUS_RUNNING) \<and>
     (st = NC_PS_STATE_INVALID \<longleftrightarrow> status s \<noteq> NC_STATUS_RUNNING)"

lemma poll_rpc_spec:
  assumes "poll_rpc V now unlk i g = Some (ret, g')" and "unlk \<noteq> LK_ERROR" and "quiet (st_wire g a)"
    and "a = ps_sess (sessions (st_ps g) ! i)" and "status (st_sess g a) = NC_STATUS_RUNNING" "side (st_sess g a) = NC_SERVER"
    and "small_print (so_ly V)" and "clbs_ok V"
  shows "\<exists>st s w. g' = put_entry i st s w g \<and> rpc_post ret st s w"
proof -
  obtain r1 ro s1 w1 where rc: "nc_server_recv_rpc_io V (st_sess g a) (st_wire g a) = Some (r1, ro, s1, w1)"
    using assms(1,4) by (auto simp: poll_rpc_def Let_def split: option.splits)
  have k1: "r1 \<in> {NC_PSPOLL_ERROR, NC_PSPOLL_TIMEOUT, NC_PSPOLL_BAD_RPC, NC_PSPOLL_RPC}" "side s1 = NC_SERVER" "\<not> io_held w1"
    using recv_rpc_post [OF rc assms(3,5-7)] assms(6) by (auto simp: keeps_def)
  have t1: "r1 AND NC_PSPOLL_SESSION_TERM = 0" using k1(1) by (auto simp: pspoll_defs)
  have fin: "\<exists>st s w. put_entry i st0 (snd (nc_session_rpc_unlock s0 0 unlk LK_OK)) w0 g = put_entry i st s w g \<and> rpc_post x st s w"
    if "side s0 = NC_SERVER" "\<not> io_held w0" "x AND NC_PSPOLL_SESSION_TERM \<noteq> 0 \<longleftrightarrow> status s0 \<noteq> NC_STATUS_RUNNING"
      "st0 = (if status s0 = NC_STATUS_RUNNING then NC_PS_STATE_NONE else NC_PS_STATE_INVALID)" for st0 s0 w0 x
    using rpc_unlock_releases [OF that(1) assms(2), of 0] that(2-) by (intro exI conjI refl) (auto simp: rpc_post_def)
  note eq = assms(1) [unfolded poll_rpc_def Let_def, folded assms(4), unfolded rc option.case prod.case]
  have nz: "NC_PSPOLL_SESSION_TERM \<noteq> 0" by (simp add: pspoll_defs)
  show ?thesis
  proof (cases "r1 AND (NC_PSPOLL_ERROR OR NC_PSPOLL_BAD_RPC) = 0")
    case False
    then show ?thesis using eq fin [OF k1(2,3)] t1 nz or_and_self(2) [of r1 NC_PSPOLL_SESSION_TERM]
      by (auto split: if_splits)
  next
    case True
    then obtain r2 s2 w2 where sr: "nc_server_send_reply_io V (s1\<lparr>last_rpc := now\<rparr>) w1 ro = Some (r2, s2, w2)"
      using eq by (auto split: option.splits)
    have k2: "side s2 = NC_SERVER" "\<not> io_held w2" "r2 AND NC_PSPOLL_SESSION_TERM = 0"
      using send_reply_post [OF sr k1(3) assms(7,8)] k1(2) by (auto simp: keeps_def)
    have t2: "(r1 OR r2) AND NC_PSPOLL_SESSION_TERM = 0" by (rule or_and_none [OF t1 k2(3)])
    note tt = or_and_self(1) [of "r1 OR r2" NC_PSPOLL_SESSION_TERM]
    have g': "g' = put_entry i (if status s2 = NC_STATUS_RUNNING then NC_PS_STATE_NONE else NC_PS_STATE_INVALID)
        (snd (nc_session_rpc_unlock s2 0 unlk LK_OK)) w2 g"
      using eq True sr by (auto split: if_splits)
    have "ret AND NC_PSPOLL_SESSION_TERM \<noteq> 0 \<longleftrightarrow> status s2 \<noteq> NC_STATUS_RUNNING"
      using eq True sr t2 nz tt [of NC_PSPOLL_SESSION_ERROR] tt [of 0] by (auto split: if_splits)
    then show ?thesis unfolding g' by (rule fin [OF k2(1,2) _ refl])
  qed
qed

section \<open>The whole call\<close>

text \<open>The store between the visits of one call: no entry is busy, the transports are quiet, and a
  session is marked as in use only if another thread uses it.\<close>

definition used_elsewhere :: "poll_store \<Rightarrow> visit list \<Rightarrow> sref \<Rightarrow> bool" where
  "used_elsewhere g vs a \<longleftrightarrow> rpc_inuse (st_sess g a) \<or> (\<exists>v \<in> set vs. \<exists>s. v_sess v = Some s \<and> rpc_inuse s)"

definition calm :: "(sref \<Rightarrow> bool) \<Rightarrow> nat \<Rightarrow> poll_store \<Rightarrow> bool" where
  "calm U n g \<longleftrightarrow> length (sessions (st_ps g)) = n \<and> unat (session_count (st_ps g)) = n \<and>
     (\<forall>e \<in> set (sessions (st_ps g)). ps_state e \<noteq> NC_PS_STATE_BUSY) \<and>
     (\<forall>a. rpc_inuse (st_sess g a) \<longrightarrow> U a) \<and> (\<forall>a. quiet (st_wire g a)) \<and>
     unat (last_event_session (st_ps g)) < n"

lemma calm_put_entry:
  assumes "calm U n g" and "i < n" and "st \<noteq> NC_PS_STATE_BUSY" and "rpc_inuse s \<longrightarrow> U (ps_sess (sessions (st_ps g) ! i))" and "quiet w"
  shows "calm U n (put_entry i st s w g)"
proof -
  have i: "i < length (sessions (st_ps g))" using assms(1,2) by (simp add: calm_def)
  have "\<forall>e \<in> set ((sessions (st_ps g))[i := (sessions (st_ps g) ! i)\<lparr>ps_state := st\<rparr>]). ps_state e \<noteq> NC_PS_STATE_BUSY"
    using assms(1,3) set_update_subset_insert [of "sessions (st_ps g)" i] by (fastforce simp: calm_def)
  then show ?thesis using assms by (simp add: calm_def put_entry_at [OF i])
qed

lemma poll_loop_calm:
  assumes "poll_loop idle now dl vs i j g = Some (ret, k, g')" and "calm U n g" and "i < n"
    and "\<forall>v \<in> set vs. v_unlk v \<noteq> LK_ERROR" and "\<forall>v \<in> set vs. \<forall>s. v_sess v = Some s \<and> rpc_inuse s \<longrightarrow> (\<forall>a. U a)"
  shows "k < n \<and> (ret = NC_PSPOLL_TIMEOUT \<longrightarrow> calm U n g') \<and>
    (ret \<noteq> NC_PSPOLL_TIMEOUT \<longrightarrow> (\<exists>g1 v st s w. calm U n g1 \<and> v \<in> set vs \<and> g' = put_entry k st s w g1 \<and> visit_post v k g1 ret st s w))"
  using assms
proof (induction idle now dl vs i j g rule: poll_loop.induct)
  case (2 idle now dl v vs i j g)
  obtain r g1 where v: "poll_visit idle now v i g = Some (r, g1)"
    using "2.prems"(1) by (auto split: option.splits)
  have q: "\<not> io_held (st_wire g (ps_sess (sessions (st_ps g) ! i)))" "v_unlk v \<noteq> LK_ERROR"
    using "2.prems"(2,4) by (auto simp: calm_def quiet_def)
  obtain st s w where g1: "g1 = put_entry i st s w g" "visit_post v i g r st s w"
    using poll_visit_spec [OF v q] by blast
  show ?case
  proof (cases "r = NC_PSPOLL_TIMEOUT")
    case False
    then have "ret = r" "k = i" "g' = g1" using "2.prems"(1) v by auto
    moreover have "\<exists>g1 v' st s w. calm U n g1 \<and> v' \<in> set (v # vs) \<and> put_entry i st0 s0 w0 g = put_entry i st s w g1 \<and>
        visit_post v' i g1 r st s w" if "visit_post v i g r st0 s0 w0" for st0 s0 w0
      using "2.prems"(2) that by (intro exI [of _ g] exI [of _ v] exI [of _ st0] exI [of _ s0] exI [of _ w0]) simp
    ultimately show ?thesis using "2.prems"(3) g1 False by simp
  next
    case True
    have il: "i < length (sessions (st_ps g))" using "2.prems"(2,3) by (simp add: calm_def)
    have st: "st \<noteq> NC_PS_STATE_BUSY" "rpc_inuse s \<longrightarrow> rpc_inuse (v_found v g i)" "quiet w"
      using g1(2) True "2.prems"(2) nth_mem [OF il] by (auto simp: visit_post_def Let_def pspoll_defs calm_def quiet_def)
    have "rpc_inuse s \<longrightarrow> U (ps_sess (sessions (st_ps g) ! i))"
      using st(2) "2.prems"(2,5) by (auto simp: v_found_def calm_def split: option.splits)
    then have c1: "calm U n g1" using calm_put_entry [OF "2.prems"(2,3) st(1) _ st(3)] g1(1) by simp
    then have nx: "poll_next (st_ps g1) i < n" "poll_start (st_ps g1) < n" "0 < n"
      using "2.prems"(3) by (auto simp: poll_next_def poll_start_def calm_def)
    note ih1 = "2.IH"(1) [OF v refl _ refl] and ih2 = "2.IH"(2) [OF v refl _ refl]
    show ?thesis
    proof (cases "poll_next (st_ps g1) i = j")
      case nj: False
      then have l: "poll_loop idle now dl vs (poll_next (st_ps g1) i) j g1 = Some (ret, k, g')"
        using True "2.prems"(1) v by (simp add: Let_def)
      show ?thesis using ih1 [OF _ nj l c1 nx(1)] True "2.prems"(4,5) by (simp, blast)
    next
      case eq: True
      show ?thesis
      proof (cases "case dl of None \<Rightarrow> False | Some d \<Rightarrow> nc_difftimespec_mono_cur d (v_now v) < 1")
        case exp: True
        then have "ret = NC_PSPOLL_TIMEOUT" "k = poll_next (st_ps g1) i" "g' = g1"
          using "2.prems"(1) v True eq by (auto simp: Let_def)
        then show ?thesis using c1 nx(1) by simp
      next
        case False
        then have l: "poll_loop idle now dl vs (poll_start (st_ps g1)) (poll_start (st_ps g1)) g1 = Some (ret, k, g')"
          using True eq "2.prems"(1) v by (simp add: Let_def)
        show ?thesis using ih2 [OF _ _ False l c1 nx(2)] True eq "2.prems"(4,5) by (simp, blast)
      qed
    qed
  qed
qed simp

definition clean :: "(sref \<Rightarrow> bool) \<Rightarrow> poll_store \<Rightarrow> bool" where
  "clean U g \<longleftrightarrow> (\<forall>e \<in> set (sessions (st_ps g)). ps_state e \<noteq> NC_PS_STATE_BUSY) \<and>
     (\<forall>a. rpc_inuse (st_sess g a) \<longrightarrow> U a) \<and> (\<forall>a. \<not> io_held (st_wire g a))"

text \<open>Clean but for entry \<open>k\<close>, which is being served.\<close>

definition semi :: "(sref \<Rightarrow> bool) \<Rightarrow> nat \<Rightarrow> poll_store \<Rightarrow> bool" where
  "semi U k g \<longleftrightarrow> k < length (sessions (st_ps g)) \<and>
     (\<forall>j < length (sessions (st_ps g)). j \<noteq> k \<longrightarrow> ps_state (sessions (st_ps g) ! j) \<noteq> NC_PS_STATE_BUSY) \<and>
     (\<forall>a. a \<noteq> ps_sess (sessions (st_ps g) ! k) \<and> rpc_inuse (st_sess g a) \<longrightarrow> U a) \<and> (\<forall>a. \<not> io_held (st_wire g a))"

lemma calm_clean: "calm U n g \<Longrightarrow> clean U g"
  by (simp add: calm_def clean_def quiet_def)

lemma calm_semi:
  assumes "calm U n g" and "k < n" and "\<not> io_held w"
  shows "semi U k (put_entry k st s w g)"
proof -
  have k: "k < length (sessions (st_ps g))" using assms(1,2) by (simp add: calm_def)
  then show ?thesis
    using assms nth_mem by (auto simp: semi_def put_entry_at [OF k] calm_def quiet_def)
qed

lemma semi_clean:
  assumes "semi U k g" and "st \<noteq> NC_PS_STATE_BUSY" and "rpc_inuse s \<longrightarrow> U (ps_sess (sessions (st_ps g) ! k))" and "\<not> io_held w"
  shows "clean U (put_entry k st s w g)"
proof -
  have k: "k < length (sessions (st_ps g))" using assms(1) by (simp add: semi_def)
  have "ps_state e \<noteq> NC_PS_STATE_BUSY" if e: "e \<in> set ((sessions (st_ps g))[k := (sessions (st_ps g) ! k)\<lparr>ps_state := st\<rparr>])" for e
  proof -
    obtain j where "j < length (sessions (st_ps g))" "e = (sessions (st_ps g))[k := (sessions (st_ps g) ! k)\<lparr>ps_state := st\<rparr>] ! j"
      using e by (auto simp: in_set_conv_nth)
    then show ?thesis using assms(1,2) k by (cases "j = k") (auto simp: semi_def)
  qed
  then show ?thesis using assms by (auto simp: clean_def semi_def put_entry_at [OF k])
qed

lemma put_entry_twice_clean:
  assumes "calm U n g" and "k < n" and "visit_post v k g ret st s w" and "ret \<noteq> NC_PSPOLL_RPC"
    and "v_sess v \<noteq> None \<Longrightarrow> rpc_inuse (the (v_sess v)) \<Longrightarrow> U (ps_sess (sessions (st_ps g) ! k))"
  shows "clean U (put_entry k st s w g)"
proof -
  have k: "k < length (sessions (st_ps g))" using assms(1,2) by (simp add: calm_def)
  have a: "st \<noteq> NC_PS_STATE_BUSY" "\<not> io_held w" "rpc_inuse s \<Longrightarrow> rpc_inuse (v_found v g k)"
    using assms(3,4) assms(1) nth_mem [OF k] by (auto simp: visit_post_def Let_def calm_def)
  have "semi U k g" using assms(1) k nth_mem by (auto simp: semi_def calm_def quiet_def)
  moreover have "rpc_inuse s \<longrightarrow> U (ps_sess (sessions (st_ps g) ! k))"
    using a(3) assms(1,5) by (auto simp: v_found_def calm_def split: option.splits)
  ultimately show ?thesis using a(1,2) by (intro semi_clean) auto
qed

lemma ps_unlock_sessions [simp]: "sessions (snd (ps_unlock ps q lk)) = sessions ps"
  by (simp add: ps_unlock_def split: prod.split)

lemma clean_ps: "clean U g \<Longrightarrow> sessions p = sessions (st_ps g) \<Longrightarrow> clean U (g\<lparr>st_ps := p\<rparr>)"
  by (simp add: clean_def)

lemma semi_ps: "semi U k g \<Longrightarrow> sessions p = sessions (st_ps g) \<Longrightarrow> semi U k (g\<lparr>st_ps := p\<rparr>)"
  by (simp add: semi_def)

lemma term_results:
  assumes "ret \<in> insert NC_PSPOLL_SESSION_TERM poll_results"
  shows "ret AND NC_PSPOLL_SESSION_TERM \<noteq> 0 \<Longrightarrow> poll_wanted ret"
  using assms by (auto simp: poll_results_def poll_wanted_def pspoll_defs)

lemma poll_after_loop:
  assumes "calm U n g0" and "poll_loop idle now dl vs k0 k0 g0 = Some (ret, i, g1)" and "k0 < n"
    and "\<forall>v \<in> set vs. v_unlk v \<noteq> LK_ERROR" and "\<forall>v \<in> set vs. \<forall>s. v_sess v = Some s \<and> rpc_inuse s \<longrightarrow> (\<forall>a. U a)"
  shows "ret \<noteq> NC_PSPOLL_RPC \<Longrightarrow> clean U g1 \<and>
      (ret AND NC_PSPOLL_SESSION_TERM \<noteq> 0 \<longrightarrow>
         poll_wanted ret \<and> status (st_sess g1 (ps_sess (sessions (st_ps g1) ! i))) \<noteq> NC_STATUS_RUNNING)"
    and "ret = NC_PSPOLL_RPC \<Longrightarrow> semi U i g1 \<and> quiet (st_wire g1 (ps_sess (sessions (st_ps g1) ! i))) \<and>
      status (st_sess g1 (ps_sess (sessions (st_ps g1) ! i))) = NC_STATUS_RUNNING \<and>
      side (st_sess g1 (ps_sess (sessions (st_ps g1) ! i))) = NC_SERVER"
proof -
  have nt: "NC_PSPOLL_TIMEOUT \<noteq> NC_PSPOLL_RPC" "NC_PSPOLL_TIMEOUT AND NC_PSPOLL_SESSION_TERM = 0" by (simp_all add: pspoll_defs)
  note l = poll_loop_calm [OF assms(2,1,3-5)]
  have ev: "i < n \<and> (\<exists>gb v st s w. calm U n gb \<and> v \<in> set vs \<and> g1 = put_entry i st s w gb \<and> visit_post v i gb ret st s w)"
    if "ret \<noteq> NC_PSPOLL_TIMEOUT" using l that by blast
  show "clean U g1 \<and> (ret AND NC_PSPOLL_SESSION_TERM \<noteq> 0 \<longrightarrow>
         poll_wanted ret \<and> status (st_sess g1 (ps_sess (sessions (st_ps g1) ! i))) \<noteq> NC_STATUS_RUNNING)"
    if nr: "ret \<noteq> NC_PSPOLL_RPC"
  proof (cases "ret = NC_PSPOLL_TIMEOUT")
    case True
    then show ?thesis using l nt calm_clean by auto
  next
    case False
    then obtain gb v st s w where b: "i < n" "calm U n gb" "v \<in> set vs" "g1 = put_entry i st s w gb" "visit_post v i gb ret st s w"
      using ev by blast
    have i: "i < length (sessions (st_ps gb))" using b(1,2) by (simp add: calm_def)
    have "clean U g1" unfolding b(4) by (rule put_entry_twice_clean [OF b(2,1,5) nr]) (use assms(5) b(3) in auto)
    moreover have "poll_wanted ret" if "ret AND NC_PSPOLL_SESSION_TERM \<noteq> 0"
      using term_results that b(5) by (auto simp: visit_post_def Let_def)
    ultimately show ?thesis using b(4,5) i by (auto simp: put_entry_at [OF i] visit_post_def Let_def)
  qed
  show "semi U i g1 \<and> quiet (st_wire g1 (ps_sess (sessions (st_ps g1) ! i))) \<and>
      status (st_sess g1 (ps_sess (sessions (st_ps g1) ! i))) = NC_STATUS_RUNNING \<and>
      side (st_sess g1 (ps_sess (sessions (st_ps g1) ! i))) = NC_SERVER" if r: "ret = NC_PSPOLL_RPC"
  proof -
    obtain gb v st s w where b: "i < n" "calm U n gb" "g1 = put_entry i st s w gb" "visit_post v i gb ret st s w"
      using ev r nt(1) by metis
    have i: "i < length (sessions (st_ps gb))" using b(1,2) by (simp add: calm_def)
    have "\<not> io_held w" "quiet w" "status s = NC_STATUS_RUNNING" "side s = NC_SERVER"
      using b(2,4) r by (auto simp: visit_post_def Let_def quiet_def calm_def)
    then show ?thesis using calm_semi [OF b(2,1), of w st s] b(3) i by (simp add: put_entry_at [OF i])
  qed
qed

text \<open>C10: polling cleans up after itself. Whatever happens in a call of \<^verbatim>\<open>nc_ps_poll\<close> (an idle timeout, a
  dropped or failing transport, a malformed or valid RPC, a failing reply, or nothing at all),
  when it returns no entry is left in the busy state, no session is marked in use unless some
  other thread uses it, no IO lock is held, and a result that says that a session was
  terminated comes with that session, which is not running any more.\<close>

theorem poll_leaves_clean:
  assumes "nc_ps_poll V idle timeout E g = Some (ret, so, g')"
    and "nc_ps_lock (st_ps g) (pe_lock (pl_ps E)) (pe_waits (pl_ps E)) = Some (Some q, ps1)"
    and "ps_ok ps1" and "\<forall>e \<in> set (sessions ps1). ps_state e \<noteq> NC_PS_STATE_BUSY" and "\<forall>a. quiet (st_wire g a)"
    and "\<forall>v \<in> set (pl_visits E). v_unlk v \<noteq> LK_ERROR" and "pl_unlk E \<noteq> LK_ERROR"
    and "small_print (so_ly V)" and "clbs_ok V"
  shows "(\<forall>e \<in> set (sessions (st_ps g')). ps_state e \<noteq> NC_PS_STATE_BUSY) \<and>
    (\<forall>a. rpc_inuse (st_sess g' a) \<longrightarrow> used_elsewhere g (pl_visits E) a) \<and> (\<forall>a. \<not> io_held (st_wire g' a)) \<and>
    (ret AND NC_PSPOLL_SESSION_TERM \<noteq> 0 \<longrightarrow> (\<exists>a. so = Some a \<and> status (st_sess g' a) \<noteq> NC_STATUS_RUNNING))"
proof (cases "session_count ps1 = 0")
  case True
  then have "sessions (st_ps g') = sessions ps1" "st_sess g' = st_sess g" "st_wire g' = st_wire g" "ret = NC_PSPOLL_NOSESSIONS"
    using assms(1,2) by (auto simp: nc_ps_poll_def poll_release_def)
  then show ?thesis using assms(4,5) by (simp add: used_elsewhere_def quiet_def pspoll_defs)
next
  case False
  let ?U = "used_elsewhere g (pl_visits E)" and ?n = "unat (session_count ps1)" and ?g0 = "g\<lparr>st_ps := ps1\<rparr>"
  let ?vs = "pl_visits E" and ?k = "poll_start ps1"
  have pos: "0 < unat (session_count ps1)" using False by (cases "unat (session_count ps1)") (auto simp: unat_eq_zero unsigned_eq_0_iff)
  have calm0: "calm ?U ?n ?g0"
    using assms(3-5) pos by (auto simp: calm_def ps_ok_def used_elsewhere_def word_less_nat_alt)
  have k: "?k < ?n" using calm0 by (auto simp: poll_start_def calm_def)
  have oth: "\<forall>v \<in> set ?vs. \<forall>s. v_sess v = Some s \<and> rpc_inuse s \<longrightarrow> (\<forall>a. ?U a)" by (auto simp: used_elsewhere_def)
  note eq = assms(1) [unfolded nc_ps_poll_def assms(2) option.case prod.case Let_def if_not_P [OF False]]
  from eq obtain r i g1 where l: "poll_loop idle (tv_sec (pl_cur E)) (if timeout > -1 then Some (timespec_add_msec (pl_base E) (of_int timeout)) else None)
      ?vs ?k ?k ?g0 = Some (r, i, g1)"
    by (auto split: option.splits)
  note al = poll_after_loop [OF calm0 l k assms(6) oth]
  let ?p1 = "st_ps (if poll_wanted r then g1\<lparr>st_ps := (st_ps g1)\<lparr>last_event_session := of_nat i\<rparr>\<rparr> else g1)"
  let ?p = "snd (ps_unlock ?p1 q (pe_unlock (pl_ps E)))"
  let ?g2 = "g1\<lparr>st_ps := ?p\<rparr>"
  have sp: "sessions ?p = sessions (st_ps g1)" by simp
  have g2: "(if poll_wanted r then g1\<lparr>st_ps := (st_ps g1)\<lparr>last_event_session := of_nat i\<rparr>\<rparr> else g1)\<lparr>st_ps := ?p\<rparr> = ?g2" by simp
  note eq2 = eq [unfolded l option.case prod.case poll_finish_def poll_release_def Let_def g2]
  show ?thesis
  proof (cases "r = NC_PSPOLL_RPC")
    case nr: False
    then have "ret = r" "so = (if poll_wanted r then Some (ps_sess (sessions (st_ps g1) ! i)) else None)" "g' = ?g2"
      using eq2 by auto
    then show ?thesis using al(1) [OF nr] clean_ps [OF _ sp] by (auto simp: clean_def)
  next
    case rpc: True
    then obtain ret' where pr: "poll_rpc V (tv_sec (pl_cur E)) (pl_unlk E) i ?g2 = Some (ret', g')"
      and so: "ret = ret'" "so = Some (ps_sess (sessions (st_ps g1) ! i))"
      using eq2 by auto
    note sm = al(2) [OF rpc]
    have s2: "semi ?U i ?g2" using semi_ps [OF _ sp] sm by blast
    let ?a = "ps_sess (sessions (st_ps ?g2) ! i)"
    have at: "quiet (st_wire ?g2 ?a)" "status (st_sess ?g2 ?a) = NC_STATUS_RUNNING" "side (st_sess ?g2 ?a) = NC_SERVER"
      using sm sp by simp_all
    obtain st s w where e: "g' = put_entry i st s w ?g2" "rpc_post ret' st s w"
      using poll_rpc_spec [OF pr assms(7) at(1) refl at(2,3) assms(8,9)] by blast
    have i: "i < length (sessions (st_ps ?g2))" using s2 by (simp add: semi_def)
    have "clean ?U g'" unfolding e(1) by (rule semi_clean [OF s2]) (use e(2) in \<open>auto simp: rpc_post_def\<close>)
    moreover have "st_sess g' (ps_sess (sessions (st_ps g1) ! i)) = s" unfolding e(1) put_entry_at(2) [OF i] using sp by simp
    ultimately show ?thesis using e(2) so by (auto simp: clean_def rpc_post_def)
  qed
qed

section \<open>A server at work\<close>

definition demo_srv :: "string srv_ops" where
  "demo_srv = \<lparr>so_ly = demo_ly\<lparr>ly_print := (\<lambda>n _. ([take 9 n], True))\<rparr>,
     so_oq = \<lparr>oq_name = (\<lambda>n. n), oq_value = (\<lambda>_. []), oq_kids = (\<lambda>_. []), lyd_new_opaq2 = (\<lambda>_ n _. Some n),
              lyd_find_sibling_opaq_next = (\<lambda>_ _. None), lyd_free_child = (\<lambda>p _. p), lyd_new_attr = (\<lambda>t _ _. Some t),
              lyd_insert_child = (\<lambda>p _. p), oq_put = (\<lambda>p _ _. p)\<rparr>,
     lyd_parse_op = (\<lambda>m. (True, Some m, Some m)), opaq_attrs = (\<lambda>_. [''message-id'']), ly_errmsg = None,
     is_rpc = (\<lambda>_. True), is_action = (\<lambda>_. False), tree_dfs = (\<lambda>_. []), priv = (\<lambda>_. None),
     global_rpc_clb = Some (\<lambda>op s. (Some \<lparr>srp = Reply_ok, srp_free = False\<rparr>, s)), rpc_alloc = True, reply_alloc = True\<rparr>"

definition demo_msg :: bytes where
  "demo_msg = enc_chunk ''x'' @ enc_end"

definition demo_store :: "lock_res list \<Rightarrow> poll_res list \<Rightarrow> poll_store" where
  "demo_store lks conn =
     \<lparr>st_ps = \<lparr>sessions = [\<lparr>ps_sess = 10, ps_state = NC_PS_STATE_NONE\<rparr>], session_count = 1, last_event_session = 0,
               ps_q = ps_queue_new\<rparr>,
      st_sess = (\<lambda>_. demo_session NC_VERSION_11),
      st_wire = (\<lambda>_. (demo_wire demo_msg)
        \<lparr>lock_sched := lks, conn_sched := conn,
         wr_sched := replicate 4 \<lparr>wr = IO_count 99, wr_errno = EOTHER, wr_closed = False, wr_eof = False,
                                 wr_ssl = SSL_ERROR_UNKNOWN\<rparr>\<rparr>)\<rparr>"

definition demo_poll_env :: poll_env where
  "demo_poll_env = \<lparr>pl_ps = demo_env, pl_cur = Timespec 10 0, pl_base = Timespec 10 0,
     pl_visits = [\<lparr>v_sess = None, v_lk = LK_OK, v_ring = [], v_unlk = LK_OK, v_now = Timespec 10 0\<rparr>], pl_unlk = LK_OK\<rparr>"

definition demo_up :: "poll_res list" where
  "demo_up = replicate 4 (Poll_ret 0 (Revents False False False False))"

definition demo_down :: "poll_res list" where
  "demo_down = [Poll_ret 1 (Revents False True False False)]"

lemma demo_poll:
  "map_option (\<lambda>(ret, so, g'). (ret, so, status (st_sess g' 10), rx (st_wire g' 10)))
     (nc_ps_poll demo_srv 0 0 demo_poll_env (demo_store [LK_OK, LK_OK, LK_OK] demo_up))
   = Some (NC_PSPOLL_RPC, Some 10, NC_STATUS_RUNNING, [])"
  by code_simp

lemma demo_srv_ok: "small_print (so_ly demo_srv)" "clbs_ok demo_srv"
  by (simp_all add: small_print_def clbs_ok_def demo_srv_def demo_ly_def min_less_iff_disj)

lemma demo_quiet: "quiet (st_wire (demo_store lks conn) a)"
proof -
  have "length demo_msg < 2 ^ 31" by code_simp
  then show ?thesis by (simp add: quiet_def demo_store_def demo_wire_def)
qed

theorem poll_leaves_clean_witness:
  "\<exists>so g'. nc_ps_poll demo_srv 0 0 demo_poll_env (demo_store [LK_OK, LK_OK, LK_OK] demo_up) = Some (NC_PSPOLL_RPC, so, g') \<and>
     (\<forall>e \<in> set (sessions (st_ps g')). ps_state e \<noteq> NC_PS_STATE_BUSY)"
proof -
  let ?g = "demo_store [LK_OK, LK_OK, LK_OK] demo_up"
  obtain so g' where r: "nc_ps_poll demo_srv 0 0 demo_poll_env ?g = Some (NC_PSPOLL_RPC, so, g')"
    using demo_poll by auto
  let ?ps = "(st_ps ?g)\<lparr>ps_q := snd (nc_ps_queue_add_id ps_queue_new 0)\<rparr>"
  have l: "nc_ps_lock (st_ps ?g) (pe_lock (pl_ps demo_poll_env)) (pe_waits (pl_ps demo_poll_env)) = Some (Some 0, ?ps)"
    by code_simp
  have ok: "ps_ok ?ps" "\<forall>e \<in> set (sessions ?ps). ps_state e \<noteq> NC_PS_STATE_BUSY"
    by (simp_all add: ps_ok_def demo_store_def add_id_list NC_PS_QUEUE_SIZE_def)
  have v: "\<forall>v \<in> set (pl_visits demo_poll_env). v_unlk v \<noteq> LK_ERROR" "pl_unlk demo_poll_env \<noteq> LK_ERROR"
    by (simp_all add: demo_poll_env_def)
  have q: "\<forall>a. quiet (st_wire ?g a)" by (simp add: demo_quiet)
  show ?thesis using poll_leaves_clean [OF r l ok q v demo_srv_ok] r by blast
qed

theorem poll_round_robin_witness:
  "poll_loop 0 0 None (pl_visits demo_poll_env) 0 0 (demo_store [LK_OK] demo_up)
     = poll_ref 0 0 None 1 0 (pl_visits demo_poll_env) 0 (demo_store [LK_OK] demo_up)"
  using poll_round_robin [of "demo_store [LK_OK] demo_up" 0 0 None "pl_visits demo_poll_env"]
  by (simp add: demo_store_def poll_start_def)



text \<open>A message that cannot be read in time (the IO lock is busy) is reported as a fatal error together
  with the timeout: the code goes on to send a reply to an RPC it does not have.\<close>

lemma poll_recv_timeout_error:
  "map_option (\<lambda>(ret, so, g'). (ret, status (st_sess g' 10)))
     (nc_ps_poll demo_srv 0 0 demo_poll_env (demo_store [LK_OK, LK_ETIMEDOUT] demo_up))
   = Some (NC_PSPOLL_TIMEOUT OR NC_PSPOLL_ERROR, NC_STATUS_RUNNING)"
  by code_simp

end
