(* ===== verification/NC_Tables.thy ===== *)
theory NC_Tables
  imports NC_Prelude
begin

text \<open>
  Tables of named entries, as the server keeps them: an array in which an entry is added at
  the end, removed by moving the last entry into its place, and found by a linear search for
  its name. The locale \<open>name_table\<close> is the contract of such a table; in it, adding, removing
  and looking up are shown to be those of a finite map from names to entries. The endpoints,
  the Call Home clients and the endpoints of a Call Home client are its instances.
\<close>

section \<open>Sums over tables\<close>

lemma mset_nth_split: "i < length xs \<Longrightarrow> mset xs = add_mset (xs ! i) (mset xs - {#xs ! i#})"
  by (simp add: nth_mem_mset)

lemma sum_image_nth:
  assumes "i < length xs"
  shows "\<Sum>\<^sub># (image_mset f (mset xs)) = f (xs ! i) + (\<Sum>\<^sub># (image_mset f (mset xs - {#xs ! i#})) :: 'a multiset)"
  using mset_nth_split [OF assms] by (metis image_mset_add_mset sum_mset.insert)

lemma sum_image_update:
  assumes "i < length xs"
  shows "\<Sum>\<^sub># (image_mset f (mset (xs[i := y]))) = \<Sum>\<^sub># (image_mset f (mset xs)) - f (xs ! i) + (f y :: 'a multiset)"
  using sum_image_nth [OF assms, of f] assms by (simp add: mset_update union_commute)

lemma sum_image_swap_remove:
  assumes "i < length xs"
  shows "\<Sum>\<^sub># (image_mset f (mset (swap_remove i xs))) = \<Sum>\<^sub># (image_mset f (mset xs)) - (f (xs ! i) :: 'a multiset)"
  using sum_image_nth [OF assms, of f] assms by (simp add: swap_remove_perm)

lemma zip_swap_remove:
  "length xs = length ys \<Longrightarrow> i < length xs \<Longrightarrow> zip (swap_remove i xs) (swap_remove i ys) = swap_remove i (zip xs ys)"
  by (auto simp: swap_remove_def Let_def take_zip update_zip)

lemma set_swap_remove: "i < length xs \<Longrightarrow> set (swap_remove i xs) \<subseteq> set xs"
  using swap_remove_perm [of i xs] by (metis in_diffD set_mset_mset subsetI)

section \<open>Named entries\<close>

definition by_name :: "('e \<Rightarrow> string) \<Rightarrow> 'e list \<Rightarrow> string \<Rightarrow> 'e option" where
  "by_name key es n = map_of (map (\<lambda>e. (key e, e)) es) n"

lemma by_name_Some:
  assumes "distinct (map key es)"
  shows "by_name key es n = Some e \<longleftrightarrow> e \<in> set es \<and> key e = n"
proof -
  have "distinct (map fst (map (\<lambda>e. (key e, e)) es))" using assms by (simp add: comp_def)
  then show ?thesis unfolding by_name_def by (auto simp: map_of_eq_Some_iff)
qed

lemma by_name_None: "by_name key es n = None \<longleftrightarrow> n \<notin> key ` set es"
  by (auto simp: by_name_def map_of_eq_None_iff image_image)

lemma by_name_append:
  assumes "n \<notin> key ` set es" and "key e = n"
  shows "by_name key (es @ [e]) = (by_name key es)(n \<mapsto> e)"
proof -
  have "by_name key (es @ [e]) = [n \<mapsto> e] ++ by_name key es" using assms(2) by (auto simp: by_name_def fun_eq_iff map_add_def)
  moreover have "by_name key es n = None" using assms(1) by (simp add: by_name_None)
  ultimately show ?thesis by (auto simp: map_add_def fun_eq_iff split: option.splits)
qed

lemma by_name_swap_remove:
  assumes "distinct (map key es)" and "i < length es"
  shows "distinct (map key (swap_remove i es))" and "by_name key (swap_remove i es) = (by_name key es)(key (es ! i) := None)"
proof -
  have d: "distinct (map key (swap_remove i es)) \<and> set (map key (swap_remove i es)) = set (map key es) - {key (es ! i)}"
    using distinct_swap_remove [of i "map key es"] assms by (simp add: swap_remove_map)
  then show dk: "distinct (map key (swap_remove i es))" by simp
  have sub: "set (swap_remove i es) = set es - {es ! i}"
    using distinct_swap_remove [of i es] assms by (simp add: distinct_map)
  show "by_name key (swap_remove i es) = (by_name key es)(key (es ! i) := None)"
  proof
    fix m
    show "by_name key (swap_remove i es) m = ((by_name key es)(key (es ! i) := None)) m"
    proof (cases "m = key (es ! i)")
      case True
      have "m \<notin> key ` set (swap_remove i es)" using d True by auto
      then show ?thesis using True by (simp add: by_name_None)
    next
      case False
      have "by_name key (swap_remove i es) m = Some e \<longleftrightarrow> by_name key es m = Some e" for e
        using False by (auto simp: by_name_Some [OF dk] by_name_Some [OF assms(1)] sub)
      then show ?thesis using False by (metis fun_upd_other not_None_eq)
    qed
  qed
qed

lemma by_name_update:
  assumes "distinct (map key es)" and "i < length es" and "key e = key (es ! i)"
  shows "by_name key (es[i := e]) = (by_name key es)(key e \<mapsto> e)" and "map key (es[i := e]) = map key es"
proof -
  show mk: "map key (es[i := e]) = map key es" using assms(2,3) by (metis list_update_id map_update)
  have dk: "distinct (map key (es[i := e]))" using mk assms(1) by simp
  show "by_name key (es[i := e]) = (by_name key es)(key e \<mapsto> e)"
  proof
    fix m
    show "by_name key (es[i := e]) m = ((by_name key es)(key e \<mapsto> e)) m"
    proof (cases "m = key e")
      case True
      have "by_name key (es[i := e]) m = Some e"
        unfolding by_name_Some [OF dk] using True assms(2) by (metis set_update_memI)
      then show ?thesis using True by simp
    next
      case False
      have "by_name key (es[i := e]) m = Some x \<longleftrightarrow> by_name key es m = Some x" for x
        using False assms(2,3) unfolding by_name_Some [OF dk] by_name_Some [OF assms(1)]
        by (metis in_set_conv_nth length_list_update nth_list_update_eq nth_list_update_neq)
      then show ?thesis using False by (metis fun_upd_other not_None_eq)
    qed
  qed
qed

section \<open>The contract\<close>

text \<open>
  \<open>tab\<close> are the entries of a table in a state that satisfies \<open>inv\<close>; \<open>add\<close>, \<open>del\<close> and \<open>has\<close> are
  the operations on a name; \<open>fine\<close> says that nothing in the environment keeps an addition
  with further arguments \<open>a\<close> from succeeding, and \<open>mk\<close> is the entry that is then made.
\<close>

locale name_table =
  fixes tab :: "'s \<Rightarrow> 'e list" and key :: "'e \<Rightarrow> string" and inv :: "'s \<Rightarrow> bool"
    and add :: "string \<Rightarrow> 'a \<Rightarrow> 's \<Rightarrow> (int \<times> 's) option" and del :: "string \<Rightarrow> 's \<Rightarrow> int \<times> 's"
    and has :: "string \<Rightarrow> 's \<Rightarrow> bool" and fine :: "'a \<Rightarrow> 's \<Rightarrow> bool" and mk :: "string \<Rightarrow> 'a \<Rightarrow> 's \<Rightarrow> 'e"
  assumes inv_distinct: "inv s \<Longrightarrow> distinct (map key (tab s))"
    and key_mk: "key (mk n a s) = n"
    and add_dup: "inv s \<Longrightarrow> n \<in> key ` set (tab s) \<Longrightarrow> add n a s = Some (-1, s)"
    and add_new: "inv s \<Longrightarrow> fine a s \<Longrightarrow> n \<notin> key ` set (tab s) \<Longrightarrow>
      \<exists>s'. add n a s = Some (0, s') \<and> tab s' = tab s @ [mk n a s] \<and> inv s'"
    and del_hit: "inv s \<Longrightarrow> n \<in> key ` set (tab s) \<Longrightarrow>
      \<exists>i s'. del n s = (0, s') \<and> i < length (tab s) \<and> key (tab s ! i) = n \<and> tab s' = swap_remove i (tab s) \<and> inv s'"
    and del_miss: "inv s \<Longrightarrow> n \<notin> key ` set (tab s) \<Longrightarrow> del n s = (-1, s)"
    and has_iff: "inv s \<Longrightarrow> has n s \<longleftrightarrow> n \<in> key ` set (tab s)"
begin

definition abs_map :: "'s \<Rightarrow> string \<Rightarrow> 'e option" where
  "abs_map s = by_name key (tab s)"

lemma has_map: "inv s \<Longrightarrow> has n s \<longleftrightarrow> abs_map s n \<noteq> None"
  using by_name_None [of key "tab s" n] by (auto simp: has_iff abs_map_def)

lemma add_map:
  assumes "inv s" and "fine a s"
  shows "\<exists>r s'. add n a s = Some (r, s') \<and> inv s' \<and>
    (if abs_map s n = None then r = 0 \<and> abs_map s' = (abs_map s)(n \<mapsto> mk n a s) else r = -1 \<and> s' = s)"
proof (cases "n \<in> key ` set (tab s)")
  case True
  then show ?thesis using add_dup [OF assms(1) True] assms(1) by (auto simp: abs_map_def by_name_None)
next
  case False
  then show ?thesis using add_new [OF assms False] by_name_append [OF False key_mk]
    by (auto simp: abs_map_def by_name_None)
qed

lemma del_map:
  assumes "inv s"
  shows "\<exists>r s'. del n s = (r, s') \<and> inv s' \<and> abs_map s' = (abs_map s)(n := None) \<and>
    (if abs_map s n = None then r = -1 \<and> s' = s else r = 0)"
proof (cases "n \<in> key ` set (tab s)")
  case True
  obtain i s' where i: "del n s = (0, s')" "i < length (tab s)" "key (tab s ! i) = n" "tab s' = swap_remove i (tab s)" "inv s'"
    using del_hit [OF assms True] by blast
  have "abs_map s' = (abs_map s)(n := None)"
    using by_name_swap_remove(2) [OF inv_distinct [OF assms] i(2)] i(3,4) by (simp add: abs_map_def)
  then show ?thesis using i(1,5) True by (auto simp: abs_map_def by_name_None)
next
  case False
  then have "abs_map s n = None" by (simp add: abs_map_def by_name_None)
  then show ?thesis using del_miss [OF assms False] assms by auto
qed

end

end
