(* ===== verification/NC_ServerOpts.thy ===== *)
theory NC_ServerOpts
  imports NC_Session NC_Tables
begin

text \<open>
  The global options of the server (\<^verbatim>\<open>struct nc_server_opts\<close> of \<^verbatim>\<open>session_p.h\<close>): scalar options,
  application callbacks, the table of endpoints with the table of their listening sockets,
  the table of Call Home clients, and the locks that guard them. This theory has the
  structures, the operations on the scalar options, the two lookups that lock
  (\<^verbatim>\<open>nc_server_endpt_lock_get\<close>, \<^verbatim>\<open>nc_server_ch_client_lock\<close>) and the initialisation and destruction of
  the server. Function and data pointers are numbers; memory that is freed is not represented.
\<close>

section \<open>Structures\<close>

datatype nc_ssh_key_type = NC_SSH_KEY_UNKNOWN | NC_SSH_KEY_DSA | NC_SSH_KEY_RSA | NC_SSH_KEY_ECDSA

datatype nc_tls_ctn_maptype = NC_TLS_CTN_UNKNOWN | NC_TLS_CTN_SPECIFIED | NC_TLS_CTN_SAN_RFC822_NAME
  | NC_TLS_CTN_SAN_DNS_NAME | NC_TLS_CTN_SAN_IP_ADDRESS | NC_TLS_CTN_SAN_ANY | NC_TLS_CTN_COMMON_NAME

datatype nc_ch_conn_type = NC_CH_CT_NOT_SET | NC_CH_PERSIST | NC_CH_PERIOD

datatype nc_ch_start_with = NC_CH_FIRST_LISTED | NC_CH_LAST_CONNECTED | NC_CH_RANDOM

definition NC_SSH_AUTH_PUBLICKEY :: u32 where "NC_SSH_AUTH_PUBLICKEY = 1"
definition NC_SSH_AUTH_PASSWORD :: u32 where "NC_SSH_AUTH_PASSWORD = 2"
definition NC_SSH_AUTH_INTERACTIVE :: u32 where "NC_SSH_AUTH_INTERACTIVE = 4"

record nc_keepalives =
  ka_enabled :: bool
  ka_idle_time :: u16
  ka_max_probes :: u16
  ka_probe_interval :: u16

record nc_server_unix_opts =
  u_mode :: u32
  u_uid :: u32
  u_gid :: u32

text \<open>A slot of the array of host keys holds a pointer to a name, or bytes that are no valid pointer
  (not yet written, partly overwritten, or pointing to freed memory).\<close>

datatype slot = Key string | Garbage

record nc_server_ssh_opts =
  hostkeys :: "slot list"
  hostkey_count :: u8
  auth_methods :: u32
  auth_attempts :: u16
  auth_timeout :: u16

record nc_ctn =
  ctn_id :: u32
  fingerprint :: "string option"
  map_type :: nc_tls_ctn_maptype
  ctn_name :: "string option"

text \<open>\<open>ctn\<close> is the linked list of cert-to-name entries; \<open>crl_store\<close> the files and directories loaded
  into the CRL store, \<open>None\<close> when there is no store.\<close>

datatype crl_source = Crl_file string | Crl_dir string

record nc_server_tls_opts =
  server_cert :: "string option"
  trusted_cert_lists :: "slot list"
  trusted_cert_list_count :: u16
  trusted_ca_file :: "string option"
  trusted_ca_dir :: "string option"
  crl_store :: "crl_source list option"
  ctn :: "nc_ctn list"

text \<open>The options an endpoint points to; \<open>No_opts\<close> is the null pointer.\<close>

datatype ep_opts = No_opts | Ssh_opts nc_server_ssh_opts | Tls_opts nc_server_tls_opts | Unix_opts nc_server_unix_opts

record nc_endpt =
  ep_name :: string
  ep_ti :: nc_ti
  ep_ka :: nc_keepalives
  ep_opts :: ep_opts

record nc_bind =
  b_address :: "string option"
  b_port :: u16
  b_sock :: int
  b_pollin :: bool

record nc_ch_endpt =
  ce_name :: string
  ce_ti :: nc_ti
  ce_address :: "string option"
  ce_port :: u16
  ce_sock_pending :: int
  ce_ka :: nc_keepalives
  ce_opts :: ep_opts

record nc_ch_client =
  cc_name :: string
  ch_endpts :: "nc_ch_endpt list"
  ch_endpt_count :: u16
  conn_type :: nc_ch_conn_type
  period :: u16
  anchor_time :: int
  idle_timeout :: u16
  start_with :: nc_ch_start_with
  max_attempts :: u8
  cc_id :: u32
  cc_lock :: bool

text \<open>A callback with its private data and the function that frees it.\<close>

record clb =
  cb_fn :: "nat option"
  cb_data :: "nat option"
  cb_free :: "nat option"

definition no_clb :: clb where "no_clb = \<lparr>cb_fn = None, cb_data = None, cb_free = None\<rparr>"

record authkey =
  ak_path :: "string option"
  ak_base64 :: "string option"
  ak_type :: nc_ssh_key_type
  ak_username :: "string option"

text \<open>A read-write lock as its current user sees it, and what a listening socket is bound to.\<close>

datatype rw_state = RW_free | RW_read | RW_write

datatype laddr = L_inet string u16 | L_inet6 string u16 | L_unix string

record nc_server_opts =
  wd_basic_mode :: nc_wd_mode
  wd_also_supported :: u32
  capabilities :: "string list"
  content_id :: clb
  hello_timeout :: u16
  srv_idle_timeout :: u16
  passwd_auth :: clb
  pubkey_auth :: clb
  interactive_auth :: clb
  conf_name :: "string option"
  conf_dir :: "string option"
  user_verify_clb :: "nat option"
  server_cert_clb :: clb
  server_cert_chain_clb :: clb
  trusted_cert_list_clb :: clb
  authkeys :: "authkey list"
  authkey_count :: u16
  hostkey_clb :: clb
  binds :: "nc_bind list"
  bind_lk :: bool
  endpts :: "nc_endpt list"
  endpt_count :: u16
  endpt_lk :: rw_state
  ch_clients :: "nc_ch_client list"
  ch_client_count :: u16
  ch_client_lk :: rw_state
  new_session_id :: u32
  new_client_id :: u32
  open_socks :: "(int \<times> laddr) list"

section \<open>Scalar options\<close>

definition nc_server_set_capab_withdefaults :: "nc_wd_mode \<Rightarrow> u32 \<Rightarrow> nc_server_opts \<Rightarrow> int \<times> nc_server_opts" where
  "nc_server_set_capab_withdefaults basic also S =
     (if basic = NC_WD_UNKNOWN \<or> basic = NC_WD_ALL_TAG then (-1, S)
      else if also \<noteq> 0 \<and> also AND (wd_mode_val NC_WD_ALL OR wd_mode_val NC_WD_ALL_TAG OR wd_mode_val NC_WD_TRIM OR
                                  wd_mode_val NC_WD_EXPLICIT) = 0 then (-1, S)
      else (0, S\<lparr>wd_basic_mode := basic, wd_also_supported := also\<rparr>))"

text \<open>The arguments tell which of the two values the caller asks for.\<close>

definition nc_server_get_capab_withdefaults ::
  "bool \<Rightarrow> bool \<Rightarrow> nc_server_opts \<Rightarrow> nc_wd_mode option \<times> u32 option"
where
  "nc_server_get_capab_withdefaults want_mode want_also S =
     (if want_mode then Some (wd_basic_mode S) else None, if want_also then Some (wd_also_supported S) else None)"

text \<open>\<open>alloc\<close> is the outcome of \<^verbatim>\<open>realloc\<close>; 0 is \<^verbatim>\<open>EXIT_SUCCESS\<close>, 1 is \<^verbatim>\<open>EXIT_FAILURE\<close>.\<close>

definition nc_server_set_capability :: "string option \<Rightarrow> bool \<Rightarrow> nc_server_opts \<Rightarrow> int \<times> nc_server_opts" where
  "nc_server_set_capability v alloc S =
     (case v of None \<Rightarrow> (1, S)
      | Some c \<Rightarrow>
          if c = [] then (1, S)
          else if \<not> alloc then (1, S)
          else (0, S\<lparr>capabilities := capabilities S @ [c]\<rparr>))"

definition nc_server_set_content_id_clb ::
  "nat option \<Rightarrow> nat option \<Rightarrow> nat option \<Rightarrow> nc_server_opts \<Rightarrow> nc_server_opts"
where
  "nc_server_set_content_id_clb f d fr S = S\<lparr>content_id := \<lparr>cb_fn = f, cb_data = d, cb_free = fr\<rparr>\<rparr>"

definition nc_server_set_hello_timeout :: "u16 \<Rightarrow> nc_server_opts \<Rightarrow> nc_server_opts" where
  "nc_server_set_hello_timeout t S = S\<lparr>hello_timeout := t\<rparr>"

definition nc_server_get_hello_timeout :: "nc_server_opts \<Rightarrow> u16" where
  "nc_server_get_hello_timeout S = hello_timeout S"

definition nc_server_set_idle_timeout :: "u16 \<Rightarrow> nc_server_opts \<Rightarrow> nc_server_opts" where
  "nc_server_set_idle_timeout t S = S\<lparr>srv_idle_timeout := t\<rparr>"

definition nc_server_get_idle_timeout :: "nc_server_opts \<Rightarrow> u16" where
  "nc_server_get_idle_timeout S = srv_idle_timeout S"

definition ssh_defaults :: nc_server_ssh_opts where
  "ssh_defaults =
     \<lparr>hostkeys = [], hostkey_count = 0, auth_methods = NC_SSH_AUTH_PUBLICKEY OR NC_SSH_AUTH_PASSWORD,
      auth_attempts = 3, auth_timeout = 30\<rparr>"

definition tls_defaults :: nc_server_tls_opts where
  "tls_defaults =
     \<lparr>server_cert = None, trusted_cert_lists = [], trusted_cert_list_count = 0, trusted_ca_file = None, trusted_ca_dir = None,
      crl_store = None, ctn = []\<rparr>"

section \<open>Lookups that lock\<close>

text \<open>The entries in use; a table whose array is gone has none.\<close>

abbreviation ep_tab :: "nc_server_opts \<Rightarrow> nc_endpt list" where
  "ep_tab S \<equiv> take (unat (endpt_count S)) (endpts S)"

abbreviation cl_tab :: "nc_server_opts \<Rightarrow> nc_ch_client list" where
  "cl_tab S \<equiv> take (unat (ch_client_count S)) (ch_clients S)"

abbreviation ce_tab :: "nc_ch_client \<Rightarrow> nc_ch_endpt list" where
  "ce_tab c \<equiv> take (unat (ch_endpt_count c)) (ch_endpts c)"

text \<open>\<^verbatim>\<open>nc_server_endpt_lock_get\<close>: the index of the endpoint, with the write lock held if there is one.
  \<open>NC_TI_NONE\<close> (0) stands for any transport.\<close>

definition nc_server_endpt_lock_get ::
  "string option \<Rightarrow> nc_ti \<Rightarrow> nc_server_opts \<Rightarrow> nat option \<times> nc_server_opts"
where
  "nc_server_endpt_lock_get name ti S =
     (case name of None \<Rightarrow> (None, S)
      | Some n \<Rightarrow>
          let S1 = S\<lparr>endpt_lk := RW_write\<rparr>
          in case find_idx (\<lambda>e. ep_name e = n \<and> (ti = NC_TI_NONE \<or> ep_ti e = ti)) (ep_tab S) of
               None \<Rightarrow> (None, S1\<lparr>endpt_lk := RW_free\<rparr>)
             | Some i \<Rightarrow> (Some i, S1))"

text \<open>\<^verbatim>\<open>nc_server_ch_client_lock\<close>: the index of the client and that of its endpoint. The locks are
  released only when there is no client, or when both a name and a transport are given and
  there is no such endpoint.\<close>

definition nc_server_ch_client_lock ::
  "string option \<Rightarrow> string option \<Rightarrow> nc_ti \<Rightarrow> nc_server_opts \<Rightarrow> nat option \<times> nat option \<times> nc_server_opts"
where
  "nc_server_ch_client_lock name endpt_name ti S =
     (case name of None \<Rightarrow> (None, None, S)
      | Some n \<Rightarrow>
          let S1 = S\<lparr>ch_client_lk := RW_read\<rparr>
          in case find_idx (\<lambda>c. cc_name c = n) (cl_tab S) of
               None \<Rightarrow> (None, None, S1\<lparr>ch_client_lk := RW_free\<rparr>)
             | Some i \<Rightarrow>
                 let endpt = (if endpt_name = None \<and> ti = NC_TI_NONE then None
                       else find_idx (\<lambda>e. (case endpt_name of None \<Rightarrow> True | Some m \<Rightarrow> ce_name e = m) \<and>
                                          (ti = NC_TI_NONE \<or> ti = ce_ti e)) (ce_tab (ch_clients S ! i)))
                 in if endpt_name \<noteq> None \<and> ti \<noteq> NC_TI_NONE \<and> endpt = None
                    then (None, None, S1\<lparr>ch_client_lk := RW_free\<rparr>)
                    else (Some i, endpt,
                          S1\<lparr>ch_clients := (ch_clients S)[i := (ch_clients S ! i)\<lparr>cc_lock := True\<rparr>]\<rparr>))"

definition nc_server_ch_client_unlock :: "nat \<Rightarrow> nc_server_opts \<Rightarrow> nc_server_opts" where
  "nc_server_ch_client_unlock i S =
     S\<lparr>ch_clients := (ch_clients S)[i := (ch_clients S ! i)\<lparr>cc_lock := False\<rparr>], ch_client_lk := RW_free\<rparr>"

end
