(* ===== verification/NC_Endpoints.thy ===== *)
theory NC_Endpoints
  imports NC_ServerOpts
begin

text \<open>
  The endpoints a server listens on (\<^verbatim>\<open>session_server.c\<close>): the table of endpoints and, at the same
  indices, the table of binds with address, port and listening socket. The results of the
  socket calls and of the allocator are arguments. \<open>open_socks\<close> of the options lists the
  listening sockets that are open, each with what it listens on.
\<close>

section \<open>Listening sockets\<close>

text \<open>Outcomes of the system calls: the descriptor \<^verbatim>\<open>socket\<close> returns (negative on failure) and whether
  the others succeed, in the order they are called.\<close>

record listen_env =
  le_socket :: int
  le_reuseaddr :: bool
  le_nodelay :: bool
  le_keepalive :: "bool list"
  le_pton :: bool
  le_bind :: bool
  le_chmod :: bool
  le_chown :: bool
  le_listen :: bool

text \<open>\<^verbatim>\<open>nc_sock_enable_keepalive\<close> makes one call of \<^verbatim>\<open>setsockopt\<close>, or four when keep-alives are enabled;
  the options set are returned in order.\<close>

datatype sockopt = SO_KEEPALIVE bool | TCP_KEEPIDLE u16 | TCP_KEEPCNT u16 | TCP_KEEPINTVL u16

fun set_opts :: "sockopt list \<Rightarrow> bool list \<Rightarrow> (int \<times> sockopt list) option" where
  "set_opts [] rs = Some (0, [])"
| "set_opts (x # xs) [] = None"
| "set_opts (x # xs) (r # rs) = (if \<not> r then Some (-1, []) else map_option (map_prod (\<lambda>c. c) ((#) x)) (set_opts xs rs))"

definition nc_sock_enable_keepalive :: "nc_keepalives \<Rightarrow> bool list \<Rightarrow> (int \<times> sockopt list) option" where
  "nc_sock_enable_keepalive ka rs =
     set_opts (SO_KEEPALIVE (ka_enabled ka) #
       (if ka_enabled ka
        then [TCP_KEEPIDLE (ka_idle_time ka), TCP_KEEPCNT (ka_max_probes ka), TCP_KEEPINTVL (ka_probe_interval ka)]
        else [])) rs"

text \<open>The sockets return the descriptor (or -1) and the sockets open afterwards; a failure closes the
  socket again.\<close>

definition close_sock :: "int \<Rightarrow> (int \<times> laddr) list \<Rightarrow> (int \<times> laddr) list" where
  "close_sock fd socks = filter (\<lambda>(f, _). f \<noteq> fd) socks"

definition nc_sock_listen_inet ::
  "string \<Rightarrow> u16 \<Rightarrow> nc_keepalives \<Rightarrow> listen_env \<Rightarrow> (int \<times> laddr) list \<Rightarrow> (int \<times> (int \<times> laddr) list) option"
where
  "nc_sock_listen_inet address prt ka e socks =
     (let is_ipv4 = (CHR '':'' \<notin> set address);
          fd = le_socket e;
          what = (if is_ipv4 then L_inet address prt else L_inet6 address prt);
          opened = (fd, what) # socks;
          fail = Some (-1, close_sock fd opened)
      in if fd = -1 then Some (-1, socks)
         else if \<not> le_reuseaddr e then fail
         else if \<not> le_nodelay e then fail
         else case nc_sock_enable_keepalive ka (le_keepalive e) of None \<Rightarrow> None
         | Some (r, _) \<Rightarrow>
             if r \<noteq> 0 then fail
             else if \<not> le_pton e then fail
             else if \<not> le_bind e then fail
             else if \<not> le_listen e then fail
             else Some (fd, opened))"

text \<open>\<^verbatim>\<open>sun_path\<close> has 108 bytes.\<close>

definition nc_sock_listen_unix ::
  "string \<Rightarrow> nc_server_unix_opts \<Rightarrow> listen_env \<Rightarrow> (int \<times> laddr) list \<Rightarrow> int \<times> (int \<times> laddr) list"
where
  "nc_sock_listen_unix address opts e socks =
     (let fd = le_socket e;
          opened = (fd, L_unix (take 106 address)) # socks;
          fail = (-1, close_sock fd opened)
      in if 107 < length address then (-1, socks)
         else if fd = -1 then (-1, socks)
         else if \<not> le_bind e then fail
         else if u_mode opts \<noteq> -1 \<and> \<not> le_chmod e then fail
         else if (u_uid opts \<noteq> -1 \<or> u_gid opts \<noteq> -1) \<and> \<not> le_chown e then fail
         else if \<not> le_listen e then fail
         else (fd, opened))"

section \<open>The table\<close>

text \<open>Outcomes of the allocations of \<^verbatim>\<open>nc_server_add_endpt\<close>: the two arrays and the options.\<close>

record add_env =
  ae_endpts :: bool
  ae_binds :: bool
  ae_opts :: bool

definition new_endpt :: "string \<Rightarrow> nc_ti \<Rightarrow> ep_opts \<Rightarrow> nc_endpt" where
  "new_endpt n ti opts =
     \<lparr>ep_name = n, ep_ti = ti,
      ep_ka = \<lparr>ka_enabled = False, ka_idle_time = 1, ka_max_probes = 10, ka_probe_interval = 5\<rparr>, ep_opts = opts\<rparr>"

definition new_bind :: nc_bind where
  "new_bind = \<lparr>b_address = None, b_port = 0, b_sock = -1, b_pollin = False\<rparr>"

text \<open>The switch over the transport; \<open>None\<close> where it has no case.\<close>

fun default_opts :: "nc_ti \<Rightarrow> ep_opts option" where
  "default_opts NC_TI_LIBSSH = Some (Ssh_opts ssh_defaults)"
| "default_opts NC_TI_OPENSSL = Some (Tls_opts tls_defaults)"
| "default_opts NC_TI_UNIX = Some (Unix_opts \<lparr>u_mode = -1, u_uid = -1, u_gid = -1\<rparr>)"
| "default_opts _ = None"

text \<open>\<^verbatim>\<open>nc_server_add_endpt\<close>. The result is \<open>None\<close> when the count wraps around to 0 (the entry would be
  written in front of the array). The name is copied successfully. When an allocation fails
  or the transport is not one to listen on, the error leaves the new entry in the table.\<close>

definition nc_server_add_endpt ::
  "string option \<Rightarrow> nc_ti \<Rightarrow> add_env \<Rightarrow> nc_server_opts \<Rightarrow> (int \<times> nc_server_opts) option"
where
  "nc_server_add_endpt name ti e S =
     (case name of None \<Rightarrow> Some (-1, S)
      | Some n \<Rightarrow>
          let S1 = S\<lparr>bind_lk := True, endpt_lk := RW_write\<rparr>;
              cleanup = (\<lambda>r T. Some (r, T\<lparr>endpt_lk := RW_free, bind_lk := False\<rparr>))
          in if find_idx (\<lambda>x. ep_name x = n) (ep_tab S) \<noteq> None then cleanup (-1) S1
             else if \<not> ae_endpts e then cleanup (-1) (S1\<lparr>endpts := []\<rparr>)
             else if endpt_count S + 1 = 0 then None
             else
               let S2 = S1\<lparr>endpt_count := endpt_count S + 1, endpts := ep_tab S @ [new_endpt n ti No_opts]\<rparr>
               in if \<not> ae_binds e then cleanup (-1) (S2\<lparr>binds := []\<rparr>)
                  else
                    let S3 = S2\<lparr>binds := take (unat (endpt_count S)) (binds S) @ [new_bind]\<rparr>
                    in case default_opts ti of
                         None \<Rightarrow> cleanup (-1) S3
                       | Some opts \<Rightarrow>
                           if \<not> ae_opts e then cleanup (-1) S3
                           else cleanup 0 (S3\<lparr>endpts := ep_tab S @ [new_endpt n ti opts]\<rparr>))"

text \<open>Removing the entry at index \<open>i\<close>: its socket is closed and the last entries move into the hole.\<close>

definition close_bind :: "nc_bind \<Rightarrow> (int \<times> laddr) list \<Rightarrow> (int \<times> laddr) list" where
  "close_bind b socks = (if -1 < b_sock b then close_sock (b_sock b) socks else socks)"

definition ep_remove_at :: "nat \<Rightarrow> nc_server_opts \<Rightarrow> nc_server_opts" where
  "ep_remove_at i S =
     (let n = endpt_count S - 1 in
      S\<lparr>open_socks := close_bind (binds S ! i) (open_socks S), endpt_count := n,
        binds := (if n = 0 then [] else swap_remove i (binds S)),
        endpts := (if n = 0 then [] else swap_remove i (endpts S))\<rparr>)"

text \<open>The loop of \<^verbatim>\<open>nc_server_del_endpt\<close> from index \<open>i\<close>.\<close>

function ep_del_loop :: "string option \<Rightarrow> nc_ti \<Rightarrow> nat \<Rightarrow> int \<Rightarrow> nc_server_opts \<Rightarrow> int \<times> nc_server_opts" where
  "ep_del_loop name ti i ret S =
     (if unat (endpt_count S) \<le> i then (ret, S)
      else let x = endpts S ! i in
        if (case name of Some n \<Rightarrow> ep_name x = n | None \<Rightarrow> ep_ti x = ti)
        then if name \<noteq> None then (0, ep_remove_at i S)
             else ep_del_loop name ti (i + 1) 0 (ep_remove_at i S)
        else ep_del_loop name ti (i + 1) ret S)"
  by pat_completeness auto

termination
proof (relation "measure (\<lambda>(name, ti, i, ret, S). unat (endpt_count S) - i)", goal_cases)
  case (2 name ti i ret S x)
  then have "endpt_count S \<noteq> 0" by auto
  then have "unat (endpt_count S - 1) = unat (endpt_count S) - 1" by (simp add: unat_minus_one)
  then show ?case using 2 by (auto simp: ep_remove_at_def Let_def)
qed auto

declare ep_del_loop.simps [simp del]

definition nc_server_del_endpt :: "string option \<Rightarrow> nc_ti \<Rightarrow> nc_server_opts \<Rightarrow> int \<times> nc_server_opts" where
  "nc_server_del_endpt name ti S =
     (let S1 = S\<lparr>bind_lk := True, endpt_lk := RW_write\<rparr>;
          (ret, S2) =
            (if name = None \<and> ti = NC_TI_NONE
             then (if endpt_count S = 0 then -1 else 0,
                   S1\<lparr>endpts := [], open_socks := fold close_bind (take (unat (endpt_count S)) (binds S)) (open_socks S),
                      binds := [], endpt_count := 0\<rparr>)
             else ep_del_loop name ti 0 (-1) S1)
      in (ret, S2\<lparr>endpt_lk := RW_free, bind_lk := False\<rparr>))"

definition nc_server_endpt_count :: "nc_server_opts \<Rightarrow> int" where
  "nc_server_endpt_count S = uint (endpt_count S)"

definition nc_server_is_endpt :: "string option \<Rightarrow> nc_server_opts \<Rightarrow> bool \<times> nc_server_opts" where
  "nc_server_is_endpt name S =
     (case name of None \<Rightarrow> (False, S)
      | Some n \<Rightarrow>
          let S1 = S\<lparr>endpt_lk := RW_read\<rparr>
          in (find_idx (\<lambda>x. ep_name x = n) (ep_tab S) \<noteq> None, S1\<lparr>endpt_lk := RW_free\<rparr>))"

section \<open>Settings of an endpoint\<close>

text \<open>The new state of a bind, and the open sockets, when its address or its port is set: a new socket is
  opened when both are known then, and replaces the old one. \<open>addr_ok\<close> is the outcome of
  copying the address.\<close>

definition bind_set ::
  "nc_endpt \<Rightarrow> nc_bind \<Rightarrow> string option \<Rightarrow> u16 \<Rightarrow> listen_env \<Rightarrow> bool \<Rightarrow> (int \<times> laddr) list \<Rightarrow>
   (int \<times> nc_bind \<times> (int \<times> laddr) list) option"
where
  "bind_set x b address prt e addr_ok socks =
     (let set_addr = (address \<noteq> None);
          prt1 = (if set_addr then b_port b else prt);
          addr1 = (if set_addr then address else b_address b);
          store = (\<lambda>b1. if set_addr then b1\<lparr>b_address := (if addr_ok then addr1 else None)\<rparr> else b1\<lparr>b_port := prt1\<rparr>)
      in if \<not> set_addr \<and> ep_ti x = NC_TI_UNIX then Some (-1, b, socks)
         else case addr1 of
           None \<Rightarrow> Some (0, store b, socks)
         | Some a \<Rightarrow>
             if \<not> (prt1 \<noteq> 0 \<or> ep_ti x = NC_TI_UNIX) then Some (0, store b, socks)
             else case (if ep_ti x = NC_TI_UNIX
                        then (case ep_opts x of
                                Unix_opts u \<Rightarrow> Some (nc_sock_listen_unix a u e socks)
                              | _ \<Rightarrow> None)
                        else nc_sock_listen_inet a prt1 (ep_ka x) e socks) of
                    None \<Rightarrow> None
                  | Some (sock, socks1) \<Rightarrow>
                      if sock = -1 then Some (-1, b, socks1)
                      else Some (0, store (b\<lparr>b_sock := sock\<rparr>), close_bind b socks1))"

definition nc_server_endpt_set_address_port ::
  "string option \<Rightarrow> string option \<Rightarrow> u16 \<Rightarrow> listen_env \<Rightarrow> bool \<Rightarrow> nc_server_opts \<Rightarrow> (int \<times> nc_server_opts) option"
where
  "nc_server_endpt_set_address_port name address prt e addr_ok S =
     (if name = None then Some (-1, S)
      else if (address = None \<and> prt = 0) \<or> (address \<noteq> None \<and> prt \<noteq> 0) then Some (-1, S)
      else
        case nc_server_endpt_lock_get name NC_TI_NONE (S\<lparr>bind_lk := True\<rparr>) of
          (None, S1) \<Rightarrow> Some (-1, S1\<lparr>bind_lk := False\<rparr>)
        | (Some i, S1) \<Rightarrow>
            map_option (\<lambda>(r, b, socks).
                (r, S1\<lparr>binds := (binds S1)[i := b], open_socks := socks, endpt_lk := RW_free, bind_lk := False\<rparr>))
              (bind_set (endpts S1 ! i) (binds S1 ! i) address prt e addr_ok (open_socks S1)))"

definition nc_server_endpt_set_address ::
  "string option \<Rightarrow> string option \<Rightarrow> listen_env \<Rightarrow> bool \<Rightarrow> nc_server_opts \<Rightarrow> (int \<times> nc_server_opts) option"
where
  "nc_server_endpt_set_address name address e addr_ok S = nc_server_endpt_set_address_port name address 0 e addr_ok S"

definition nc_server_endpt_set_port ::
  "string option \<Rightarrow> u16 \<Rightarrow> listen_env \<Rightarrow> nc_server_opts \<Rightarrow> (int \<times> nc_server_opts) option"
where
  "nc_server_endpt_set_port name prt e S = nc_server_endpt_set_address_port name None prt e True S"

text \<open>The other setters change one endpoint under the write lock. \<open>f\<close> gives the result and the endpoint
  afterwards.\<close>

definition with_endpt ::
  "string option \<Rightarrow> nc_ti \<Rightarrow> (nc_endpt \<Rightarrow> (int \<times> nc_endpt) option) \<Rightarrow> nc_server_opts \<Rightarrow> (int \<times> nc_server_opts) option"
where
  "with_endpt name ti f S =
     (case nc_server_endpt_lock_get name ti S of
        (None, S1) \<Rightarrow> Some (-1, S1)
      | (Some i, S1) \<Rightarrow>
          map_option (\<lambda>(r, x). (r, S1\<lparr>endpts := (endpts S1)[i := x], endpt_lk := RW_free\<rparr>)) (f (endpts S1 ! i)))"

definition nc_server_endpt_set_perms ::
  "string option \<Rightarrow> u32 \<Rightarrow> u32 \<Rightarrow> u32 \<Rightarrow> nc_server_opts \<Rightarrow> (int \<times> nc_server_opts) option"
where
  "nc_server_endpt_set_perms name mode uid gid S =
     (if name = None \<or> mode = 0 then Some (-1, S)
      else with_endpt name NC_TI_NONE
        (\<lambda>x. if ep_ti x \<noteq> NC_TI_UNIX then Some (-1, x)
             else case ep_opts x of
               Unix_opts u \<Rightarrow> Some (0, x\<lparr>ep_opts := Unix_opts \<lparr>u_mode = mode, u_uid = uid, u_gid = gid\<rparr>\<rparr>)
             | _ \<Rightarrow> None) S)"

definition nc_server_endpt_enable_keepalives :: "string option \<Rightarrow> bool \<Rightarrow> nc_server_opts \<Rightarrow> (int \<times> nc_server_opts) option" where
  "nc_server_endpt_enable_keepalives name enable S =
     with_endpt name NC_TI_NONE (\<lambda>x. Some (0, x\<lparr>ep_ka := (ep_ka x)\<lparr>ka_enabled := enable\<rparr>\<rparr>)) S"

text \<open>Negative values keep the old ones; others are stored in 16 bits.\<close>

definition ka_update :: "int \<Rightarrow> int \<Rightarrow> int \<Rightarrow> nc_keepalives \<Rightarrow> nc_keepalives" where
  "ka_update idle_time max_probes probe_interval ka =
     (let k1 = (if -1 < idle_time then ka\<lparr>ka_idle_time := of_int idle_time\<rparr> else ka);
          k2 = (if -1 < max_probes then k1\<lparr>ka_max_probes := of_int max_probes\<rparr> else k1)
      in if -1 < probe_interval then k2\<lparr>ka_probe_interval := of_int probe_interval\<rparr> else k2)"

definition nc_server_endpt_set_keepalives ::
  "string option \<Rightarrow> int \<Rightarrow> int \<Rightarrow> int \<Rightarrow> nc_server_opts \<Rightarrow> (int \<times> nc_server_opts) option"
where
  "nc_server_endpt_set_keepalives name idle_time max_probes probe_interval S =
     with_endpt name NC_TI_NONE
       (\<lambda>x. Some (0, x\<lparr>ep_ka := ka_update idle_time max_probes probe_interval (ep_ka x)\<rparr>)) S"

section \<open>The invariant\<close>

text \<open>What the socket of a bind listens on, and the sockets of all binds.\<close>

definition listens_on :: "nc_endpt \<Rightarrow> nc_bind \<Rightarrow> laddr" where
  "listens_on x b =
     (let a = (case b_address b of None \<Rightarrow> [] | Some a \<Rightarrow> a) in
      if ep_ti x = NC_TI_UNIX then L_unix (take 106 a)
      else if CHR '':'' \<notin> set a then L_inet a (b_port b) else L_inet6 a (b_port b))"

definition bound_one :: "nc_endpt \<times> nc_bind \<Rightarrow> (int \<times> laddr) multiset" where
  "bound_one = (\<lambda>(x, b). if -1 < b_sock b then {#(b_sock b, listens_on x b)#} else {#})"

definition bound :: "nc_server_opts \<Rightarrow> (int \<times> laddr) multiset" where
  "bound S = \<Sum>\<^sub># (image_mset bound_one (mset (zip (endpts S) (binds S))))"

fun opts_match :: "nc_ti \<Rightarrow> ep_opts \<Rightarrow> bool" where
  "opts_match NC_TI_LIBSSH (Ssh_opts _) = True"
| "opts_match NC_TI_OPENSSL (Tls_opts _) = True"
| "opts_match NC_TI_UNIX (Unix_opts _) = True"
| "opts_match _ _ = False"

text \<open>Only a complete address has a socket.\<close>

definition bind_ok :: "nc_endpt \<times> nc_bind \<Rightarrow> bool" where
  "bind_ok = (\<lambda>(x, b). -1 < b_sock b \<longrightarrow> b_address b \<noteq> None \<and> (b_port b \<noteq> 0 \<or> ep_ti x = NC_TI_UNIX))"

text \<open>
  The invariant of the endpoint tables: both arrays have \<^verbatim>\<open>endpt_count\<close> entries, names are unique,
  every endpoint has the options of its transport, the open listening sockets are exactly
  those of the binds, each listening on the address and port recorded with it, and no lock is
  held.
\<close>

definition ep_ok :: "nc_server_opts \<Rightarrow> bool" where
  "ep_ok S \<longleftrightarrow>
     length (endpts S) = unat (endpt_count S) \<and> length (binds S) = unat (endpt_count S) \<and>
     distinct (map ep_name (endpts S)) \<and> (\<forall>x \<in> set (endpts S). opts_match (ep_ti x) (ep_opts x)) \<and>
     mset (open_socks S) = bound S \<and> distinct (map fst (open_socks S)) \<and>
     (\<forall>p \<in> set (zip (endpts S) (binds S)). bind_ok p) \<and>
     endpt_lk S = RW_free \<and> \<not> bind_lk S"

lemma ep_ok_D:
  assumes "ep_ok S"
  shows "length (endpts S) = unat (endpt_count S)" and "length (binds S) = unat (endpt_count S)"
    and "distinct (map ep_name (endpts S))" and "x \<in> set (endpts S) \<Longrightarrow> opts_match (ep_ti x) (ep_opts x)"
    and "mset (open_socks S) = bound S" and "distinct (map fst (open_socks S))"
    and "endpt_lk S = RW_free" and "\<not> bind_lk S" and "ep_tab S = endpts S"
    and "p \<in> set (zip (endpts S) (binds S)) \<Longrightarrow> bind_ok p"
  using assms by (simp_all add: ep_ok_def)

lemma mset_close_sock:
  assumes "distinct (map fst socks)" and "(fd, w) \<in> set socks"
  shows "mset (close_sock fd socks) = mset socks - {#(fd, w)#}" and "distinct (map fst (close_sock fd socks))"
proof -
  show "mset (close_sock fd socks) = mset socks - {#(fd, w)#}"
    using assms
  proof (induction socks)
    case (Cons p socks)
    show ?case
    proof (cases "p = (fd, w)")
      case True
      then have "filter (\<lambda>(f, _). f \<noteq> fd) socks = socks" using Cons.prems(1) by (auto simp: filter_id_conv image_iff)
      then show ?thesis using True by (simp add: close_sock_def)
    next
      case False
      then have "(fd, w) \<in> set socks" using Cons.prems(2) by auto
      moreover from this have "fst p \<noteq> fd" using Cons.prems(1) by (auto simp: image_iff)
      ultimately show ?thesis using Cons False by (auto simp: close_sock_def)
    qed
  qed simp
  show "distinct (map fst (close_sock fd socks))"
    using assms(1) by (auto simp: close_sock_def distinct_map intro: inj_on_subset)
qed

lemma close_sock_fresh: "fd \<notin> fst ` set socks \<Longrightarrow> close_sock fd ((fd, w) # socks) = socks"
  by (auto simp: close_sock_def filter_id_conv image_iff)

text \<open>Closing the socket of a bind takes it out of the open ones.\<close>

lemma close_bind_mset:
  assumes "distinct (map fst socks)" and "bound_one (x, b) \<subseteq># mset socks"
  shows "mset (close_bind b socks) = mset socks - bound_one (x, b)" and "distinct (map fst (close_bind b socks))"
  using assms mset_close_sock [of socks "b_sock b" "listens_on x b"]
  by (auto simp: close_bind_def bound_one_def split: if_splits)

lemma bound_one_sub:
  assumes "ep_ok S" and "i < length (endpts S)"
  shows "bound_one (endpts S ! i, binds S ! i) \<subseteq># mset (open_socks S)"
  using sum_image_nth [of i "zip (endpts S) (binds S)" bound_one] assms ep_ok_D(1,2,5) [OF assms(1)]
  by (simp add: bound_def)

section \<open>Removal\<close>

lemma unat_pred: "(c :: u16) \<noteq> 0 \<Longrightarrow> unat (c - 1) = unat c - 1"
  by (simp add: unat_minus_one)

text \<open>Everything but the locks.\<close>

definition ep_core :: "nc_server_opts \<Rightarrow> bool" where
  "ep_core S \<longleftrightarrow> ep_ok (S\<lparr>endpt_lk := RW_free, bind_lk := False\<rparr>)"

lemma ep_core_D:
  assumes "ep_core S"
  shows "length (endpts S) = unat (endpt_count S)" and "length (binds S) = unat (endpt_count S)"
    and "distinct (map ep_name (endpts S))" and "x \<in> set (endpts S) \<Longrightarrow> opts_match (ep_ti x) (ep_opts x)"
    and "mset (open_socks S) = bound S" and "distinct (map fst (open_socks S))" and "ep_tab S = endpts S"
    and "p \<in> set (zip (endpts S) (binds S)) \<Longrightarrow> bind_ok p"
  using assms by (simp_all add: ep_core_def ep_ok_def bound_def)

lemma ep_core_I:
  assumes "length (endpts S) = unat (endpt_count S)" and "length (binds S) = unat (endpt_count S)"
    and "distinct (map ep_name (endpts S))" and "\<And>x. x \<in> set (endpts S) \<Longrightarrow> opts_match (ep_ti x) (ep_opts x)"
    and "mset (open_socks S) = bound S" and "distinct (map fst (open_socks S))"
    and "\<And>p. p \<in> set (zip (endpts S) (binds S)) \<Longrightarrow> bind_ok p"
  shows "ep_core S"
  using assms by (simp add: ep_core_def ep_ok_def bound_def)

lemma ep_ok_core: "ep_ok S \<longleftrightarrow> ep_core S \<and> endpt_lk S = RW_free \<and> \<not> bind_lk S"
  by (auto simp: ep_core_def ep_ok_def bound_def)

lemma ep_core_locks [simp]: "ep_core (S\<lparr>endpt_lk := a\<rparr>) = ep_core S" "ep_core (S\<lparr>bind_lk := b\<rparr>) = ep_core S"
  by (simp_all add: ep_core_def)

lemma bound_one_sub_core:
  assumes "ep_core S" and "i < length (endpts S)"
  shows "bound_one (endpts S ! i, binds S ! i) \<subseteq># mset (open_socks S)"
  using bound_one_sub [of "S\<lparr>endpt_lk := RW_free, bind_lk := False\<rparr>" i] assms by (simp add: ep_core_def)

text \<open>Removing one entry keeps the invariant and removes exactly that entry.\<close>

lemma swap_remove_single: "length xs = 1 \<Longrightarrow> swap_remove 0 xs = []"
  by (cases xs) (simp_all add: swap_remove_def)

lemma ep_remove_at_spec:
  assumes "ep_core S" and "i < unat (endpt_count S)"
  shows "ep_core (ep_remove_at i S)" and "endpts (ep_remove_at i S) = swap_remove i (endpts S)"
    and "endpt_count (ep_remove_at i S) = endpt_count S - 1"
proof -
  note D = ep_core_D [OF assms(1)]
  have c: "endpt_count S \<noteq> 0" using assms(2) by auto
  have nil: "endpt_count S - 1 = 0 \<Longrightarrow> swap_remove i xs = []" if "length xs = unat (endpt_count S)" for xs :: "'a list"
    using that assms(2) by (simp add: swap_remove_def)
  have e: "endpts (ep_remove_at i S) = swap_remove i (endpts S)" and b: "binds (ep_remove_at i S) = swap_remove i (binds S)"
    using D(1,2) assms(2) by (auto simp: ep_remove_at_def Let_def swap_remove_def)
  then show "endpts (ep_remove_at i S) = swap_remove i (endpts S)" by simp
  show n: "endpt_count (ep_remove_at i S) = endpt_count S - 1" by (simp add: ep_remove_at_def Let_def)
  have i: "i < length (endpts S)" using assms(2) D(1) by simp
  have z: "zip (endpts S) (binds S) ! i = (endpts S ! i, binds S ! i)" "i < length (zip (endpts S) (binds S))"
    using i D(1,2) by simp_all
  note cl = close_bind_mset [OF D(6) bound_one_sub_core [OF assms(1) i]]
  have dn: "distinct (map ep_name (swap_remove i (endpts S)))"
    using i D(3) by (simp add: swap_remove_map distinct_swap_remove)
  note sub = set_swap_remove [OF i]
  have zs: "set (zip (swap_remove i (endpts S)) (swap_remove i (binds S))) \<subseteq> set (zip (endpts S) (binds S))"
    using zip_swap_remove [of "endpts S" "binds S" i] set_swap_remove [OF z(2)] i D(1,2) by simp
  have bd: "bound (ep_remove_at i S) = bound S - bound_one (endpts S ! i, binds S ! i)"
    unfolding bound_def e b using zip_swap_remove [of "endpts S" "binds S" i] sum_image_swap_remove [OF z(2)] z D(1,2) i by simp
  have o: "open_socks (ep_remove_at i S) = close_bind (binds S ! i) (open_socks S)" by (simp add: ep_remove_at_def Let_def)
  show "ep_core (ep_remove_at i S)"
    by (rule ep_core_I, unfold e b n o) (use D(1,2,4,5,8) c sub dn cl bd zs in \<open>auto simp: unat_pred\<close>)
qed

lemma ep_remove_at_locks [simp]:
  "endpt_lk (ep_remove_at i S) = endpt_lk S" "bind_lk (ep_remove_at i S) = bind_lk S"
  by (simp_all add: ep_remove_at_def Let_def)

lemma ep_del_loop_name:
  assumes "length (endpts S) = unat (endpt_count S)"
  shows "ep_del_loop (Some n) ti i r S =
    (case find_idx (\<lambda>x. ep_name x = n) (drop i (endpts S)) of None \<Rightarrow> (r, S) | Some k \<Rightarrow> (0, ep_remove_at (i + k) S))"
  using assms
proof (induction "unat (endpt_count S) - i" arbitrary: i)
  case 0
  then show ?case by (simp add: ep_del_loop.simps)
next
  case (Suc m)
  then have i: "i < length (endpts S)" and d: "drop i (endpts S) = endpts S ! i # drop (i + 1) (endpts S)"
    by (auto simp: Cons_nth_drop_Suc)
  have "ep_del_loop (Some n) ti (i + 1) r S =
    (case find_idx (\<lambda>x. ep_name x = n) (drop (i + 1) (endpts S)) of None \<Rightarrow> (r, S) | Some k \<Rightarrow> (0, ep_remove_at (i + 1 + k) S))"
    using Suc.hyps(1) [of "i + 1"] Suc.hyps(2) Suc.prems by (simp split: option.splits)
  then show ?case using i Suc.prems d
    by (subst ep_del_loop.simps) (auto split: option.splits)
qed

lemma ep_del_loop_ti:
  assumes "ep_del_loop name ti i r S = (r', S')" and "ep_core S" and "name = None"
  shows "ep_core S' \<and> endpt_lk S' = endpt_lk S \<and> bind_lk S' = bind_lk S \<and> (r' = r \<and> S' = S \<or> r' = 0)"
  using assms
proof (induction name ti i r S arbitrary: r' S' rule: ep_del_loop.induct)
  case (1 name ti i r S)
  show ?case
  proof (cases "unat (endpt_count S) \<le> i")
    case True
    then show ?thesis using 1(3-5) by (subst (asm) ep_del_loop.simps) simp
  next
    case False
    then have rm: "ep_core (ep_remove_at i S)" using ep_remove_at_spec(1) [OF 1(4)] by simp
    show ?thesis
    proof (cases "ep_ti (endpts S ! i) = ti")
      case True
      have "ep_del_loop name ti (i + 1) 0 (ep_remove_at i S) = (r', S')"
        using 1(3,5) False True by (subst (asm) ep_del_loop.simps) simp
      from 1(1) [OF False refl _ _ this rm 1(5)] show ?thesis using True 1(5) by auto
    next
      case ne: False
      have "ep_del_loop name ti (i + 1) r S = (r', S')"
        using 1(3,5) False ne by (subst (asm) ep_del_loop.simps) simp
      from 1(2) [OF False refl _ this 1(4,5)] show ?thesis using ne 1(5) by auto
    qed
  qed
qed

text \<open>Closing the sockets of all binds closes all sockets.\<close>

lemma fold_close_binds:
  assumes "length xs = length bs" and "mset socks = \<Sum>\<^sub># (image_mset bound_one (mset (zip xs bs)))" and "distinct (map fst socks)"
  shows "fold close_bind bs socks = []"
  using assms
proof (induction xs bs arbitrary: socks rule: list_induct2)
  case (Cons x xs b bs)
  have "bound_one (x, b) \<subseteq># mset socks" using Cons.prems(1) by simp
  note cl = close_bind_mset [OF Cons.prems(2) this]
  show ?case using Cons.IH [OF _ cl(2)] cl(1) Cons.prems(1) by simp
qed simp

section \<open>Every operation keeps the invariant\<close>

lemma ep_add_ok:
  assumes "ep_ok S" and "default_opts ti = Some os" and "endpt_count S + 1 \<noteq> 0" and "ae_endpts e" "ae_binds e" "ae_opts e"
  shows "n \<in> ep_name ` set (endpts S) \<Longrightarrow> nc_server_add_endpt (Some n) ti e S = Some (-1, S)"
    and "n \<notin> ep_name ` set (endpts S) \<Longrightarrow> \<exists>S'. nc_server_add_endpt (Some n) ti e S = Some (0, S') \<and>
      endpts S' = endpts S @ [new_endpt n ti os] \<and> binds S' = binds S @ [new_bind] \<and> ep_ok S'"
proof -
  note D = ep_ok_D [OF assms(1)]
  { assume "n \<in> ep_name ` set (endpts S)"
    then have "find_idx (\<lambda>x. ep_name x = n) (ep_tab S) \<noteq> None" using D(9) by (auto simp: find_idx_None)
    then show "nc_server_add_endpt (Some n) ti e S = Some (-1, S)" using D(7,8) by (auto simp: nc_server_add_endpt_def Let_def) }
  assume n: "n \<notin> ep_name ` set (endpts S)"
  then have f: "find_idx (\<lambda>x. ep_name x = n) (ep_tab S) = None" using D(9) by (auto simp: find_idx_None)
  let ?S = "S\<lparr>endpt_count := endpt_count S + 1, endpts := endpts S @ [new_endpt n ti os], binds := binds S @ [new_bind]\<rparr>"
  have "nc_server_add_endpt (Some n) ti e S = Some (0, ?S)"
    using f assms(2-6) D(2,7-9) by (simp add: nc_server_add_endpt_def Let_def)
  moreover have "unat (endpt_count S + 1) = unat (endpt_count S) + 1"
    using assms(3) unatSuc [of "endpt_count S"] by (simp add: add.commute)
  moreover have "opts_match ti os" using assms(2) by (cases ti) auto
  then have "ep_core ?S" using D n calculation(2)
    by (intro ep_core_I) (auto simp: bound_def bound_one_def new_bind_def new_endpt_def bind_ok_def)
  then have "ep_ok ?S" using D(7,8) by (simp add: ep_ok_core)
  ultimately show "\<exists>S'. nc_server_add_endpt (Some n) ti e S = Some (0, S') \<and>
      endpts S' = endpts S @ [new_endpt n ti os] \<and> binds S' = binds S @ [new_bind] \<and> ep_ok S'" by auto
qed

lemma ep_del_name_ok:
  assumes "ep_ok S"
  shows "n \<notin> ep_name ` set (endpts S) \<Longrightarrow> nc_server_del_endpt (Some n) ti S = (-1, S)"
    and "n \<in> ep_name ` set (endpts S) \<Longrightarrow> \<exists>i S'. nc_server_del_endpt (Some n) ti S = (0, S') \<and> i < length (endpts S) \<and>
      ep_name (endpts S ! i) = n \<and> endpts S' = swap_remove i (endpts S) \<and> ep_ok S'"
proof -
  note D = ep_ok_D [OF assms]
  let ?S = "S\<lparr>bind_lk := True, endpt_lk := RW_write\<rparr>"
  have c: "ep_core ?S" using assms by (simp add: ep_ok_core)
  have lp: "ep_del_loop (Some n) ti 0 (-1) ?S =
    (case find_idx (\<lambda>x. ep_name x = n) (endpts S) of None \<Rightarrow> (-1, ?S) | Some k \<Rightarrow> (0, ep_remove_at k ?S))"
    using ep_del_loop_name [of ?S n ti 0 "-1"] D(1) by (simp split: option.splits)
  { assume "n \<notin> ep_name ` set (endpts S)"
    then have "find_idx (\<lambda>x. ep_name x = n) (endpts S) = None" by (auto simp: find_idx_None)
    then show "nc_server_del_endpt (Some n) ti S = (-1, S)" using lp D(7,8) by (simp add: nc_server_del_endpt_def) }
  assume "n \<in> ep_name ` set (endpts S)"
  then obtain i where i: "find_idx (\<lambda>x. ep_name x = n) (endpts S) = Some i" by (metis (mono_tags) find_idx_ex imageE)
  then have il: "i < length (endpts S)" "ep_name (endpts S ! i) = n" by (auto dest: find_idx_Some_bound)
  have iu: "i < unat (endpt_count ?S)" using il(1) D(1) by simp
  note rm = ep_remove_at_spec [OF c iu]
  have "nc_server_del_endpt (Some n) ti S = (0, (ep_remove_at i ?S)\<lparr>endpt_lk := RW_free, bind_lk := False\<rparr>)"
    using lp i by (simp add: nc_server_del_endpt_def)
  then show "\<exists>i S'. nc_server_del_endpt (Some n) ti S = (0, S') \<and> i < length (endpts S) \<and>
      ep_name (endpts S ! i) = n \<and> endpts S' = swap_remove i (endpts S) \<and> ep_ok S'"
    using il rm by (auto simp: ep_ok_core)
qed

lemma ep_del_any_ok:
  assumes "ep_ok S" and "nc_server_del_endpt None ti S = (r, S')"
  shows "ep_ok S' \<and> (r \<noteq> 0 \<longrightarrow> S' = S)"
proof (cases "ti = NC_TI_NONE")
  case True
  note D = ep_ok_D [OF assms(1)]
  have "fold close_bind (binds S) (open_socks S) = []"
    by (rule fold_close_binds [of "endpts S"]) (use D(1,2,5,6) in \<open>simp_all add: bound_def\<close>)
  then have eq: "S' = S\<lparr>endpts := [], open_socks := [], binds := [], endpt_count := 0\<rparr>" and r: "r = (if endpt_count S = 0 then -1 else 0)"
    using assms(2) True D(2,7,8) by (auto simp: nc_server_del_endpt_def Let_def)
  have ok: "ep_ok S'" using eq D(7,8) by (simp add: ep_ok_def bound_def)
  have "endpt_count S = 0 \<Longrightarrow> S' = S"
  proof -
    assume z: "endpt_count S = 0"
    then have "endpts S = []" "binds S = []" using D(1,2) by simp_all
    moreover from this have "open_socks S = []" using D(5) by (simp add: bound_def)
    ultimately show "S' = S" using eq z by simp
  qed
  then show ?thesis using ok r by auto
next
  case False
  note D = ep_ok_D [OF assms(1)]
  let ?S = "S\<lparr>bind_lk := True, endpt_lk := RW_write\<rparr>"
  obtain r1 S1 where l: "ep_del_loop None ti 0 (-1) ?S = (r1, S1)" by fastforce
  have "ep_core ?S" using assms(1) by (simp add: ep_ok_core)
  from ep_del_loop_ti [OF l this refl] have "ep_core S1" "r1 = -1 \<and> S1 = ?S \<or> r1 = 0" by auto
  moreover have "r = r1" "S' = S1\<lparr>endpt_lk := RW_free, bind_lk := False\<rparr>"
    using assms(2) False l by (auto simp: nc_server_del_endpt_def Let_def)
  ultimately show ?thesis using D(7,8) by (auto simp: ep_ok_core)
qed

text \<open>What the system promises of new sockets: a descriptor that is not in use, and enough results
  for the options.\<close>

definition listen_ok :: "listen_env \<Rightarrow> nc_server_opts \<Rightarrow> bool" where
  "listen_ok e S \<longleftrightarrow> (le_socket e = -1 \<or> -1 < le_socket e \<and> le_socket e \<notin> fst ` set (open_socks S)) \<and> 4 \<le> length (le_keepalive e)"

lemma set_opts_total: "length xs \<le> length rs \<Longrightarrow> \<exists>r. set_opts xs rs = Some r"
  by (induction xs rs rule: set_opts.induct) auto

lemma listen_inet_cases:
  assumes "listen_ok e S" and "socks = open_socks S"
  shows "nc_sock_listen_inet a p ka e socks = Some (-1, socks) \<or>
    -1 < le_socket e \<and>
    nc_sock_listen_inet a p ka e socks
      = Some (le_socket e, (le_socket e, if CHR '':'' \<notin> set a then L_inet a p else L_inet6 a p) # socks)"
proof (cases "le_socket e = -1")
  case False
  then have f: "-1 < le_socket e" "le_socket e \<notin> fst ` set socks" using assms by (auto simp: listen_ok_def)
  obtain r os where k: "nc_sock_enable_keepalive ka (le_keepalive e) = Some (r, os)"
    using set_opts_total [of "SO_KEEPALIVE (ka_enabled ka) # (if ka_enabled ka
        then [TCP_KEEPIDLE (ka_idle_time ka), TCP_KEEPCNT (ka_max_probes ka), TCP_KEEPINTVL (ka_probe_interval ka)] else [])"
      "le_keepalive e"] assms(1)
    by (fastforce simp: nc_sock_enable_keepalive_def listen_ok_def)
  show ?thesis using f k by (auto simp: nc_sock_listen_inet_def Let_def close_sock_fresh)
qed (simp add: nc_sock_listen_inet_def)

lemma listen_unix_cases:
  assumes "listen_ok e S" and "socks = open_socks S"
  shows "nc_sock_listen_unix a u e socks = (-1, socks) \<or>
    -1 < le_socket e \<and> nc_sock_listen_unix a u e socks = (le_socket e, (le_socket e, L_unix (take 106 a)) # socks)"
proof (cases "le_socket e = -1")
  case False
  then have f: "-1 < le_socket e" "le_socket e \<notin> fst ` set socks" using assms by (auto simp: listen_ok_def)
  then show ?thesis by (auto simp: nc_sock_listen_unix_def Let_def close_sock_fresh)
qed (simp add: nc_sock_listen_unix_def Let_def)

text \<open>Replacing a bind together with its socket.\<close>

lemma ep_core_bind_update:
  assumes "ep_core S" and "i < length (endpts S)"
    and "mset socks = mset (open_socks S) - bound_one (endpts S ! i, binds S ! i) + bound_one (endpts S ! i, b)"
    and "distinct (map fst socks)" and "bind_ok (endpts S ! i, b)"
  shows "ep_core (S\<lparr>binds := (binds S)[i := b], open_socks := socks\<rparr>)"
proof -
  note D = ep_core_D [OF assms(1)]
  let ?z = "zip (endpts S) (binds S)"
  have z: "i < length ?z" "?z ! i = (endpts S ! i, binds S ! i)" using assms(2) D(1,2) by simp_all
  have zu: "zip (endpts S) ((binds S)[i := b]) = ?z[i := (endpts S ! i, b)]"
    using assms(2) update_zip [of "endpts S" "binds S" i "(endpts S ! i, b)"] by simp
  then have bd: "bound (S\<lparr>binds := (binds S)[i := b], open_socks := socks\<rparr>) = mset socks"
    using sum_image_update [OF z(1), of bound_one "(endpts S ! i, b)"] z(2) assms(3) D(5) by (simp add: bound_def)
  have "bind_ok p" if "p \<in> set (zip (endpts S) ((binds S)[i := b]))" for p
  proof -
    have "p = (endpts S ! i, b) \<or> p \<in> set ?z"
      using that subsetD [OF set_update_subset_insert [of ?z i "(endpts S ! i, b)"], of p] unfolding zu by blast
    then show ?thesis using assms(5) D(8) [of p] by (elim disjE) simp_all
  qed
  then show ?thesis using D(1-6) bd assms(4) by (intro ep_core_I) auto
qed

lemma ep_set_finish:
  assumes "ep_core S" and "i < length (endpts S)" and "listen_ok e S"
    and "-1 < le_socket e" and "w = listens_on (endpts S ! i) b" and "b_sock b = le_socket e" and "bind_ok (endpts S ! i, b)"
  shows "ep_core (S\<lparr>binds := (binds S)[i := b], open_socks := close_bind (binds S ! i) ((le_socket e, w) # open_socks S)\<rparr>)"
proof (rule ep_core_bind_update [OF assms(1,2)])
  note D = ep_core_D [OF assms(1)]
  show "bind_ok (endpts S ! i, b)" by (rule assms(7))
  have d: "distinct (map fst ((le_socket e, w) # open_socks S))" using D(6) assms(3,4) by (auto simp: listen_ok_def)
  note sub = bound_one_sub_core [OF assms(1,2)]
  then have sub': "bound_one (endpts S ! i, binds S ! i) \<subseteq># mset ((le_socket e, w) # open_socks S)"
    by (simp add: subset_mset.le_supI2 subset_mset.trans)
  note cl = close_bind_mset [OF d sub']
  have new: "bound_one (endpts S ! i, b) = {#(le_socket e, w)#}" using assms(4-6) by (simp add: bound_one_def)
  show "distinct (map fst (close_bind (binds S ! i) ((le_socket e, w) # open_socks S)))" by (rule cl(2))
  show "mset (close_bind (binds S ! i) ((le_socket e, w) # open_socks S))
      = mset (open_socks S) - bound_one (endpts S ! i, binds S ! i) + bound_one (endpts S ! i, b)"
    using cl(1) assms(4-6) multiset_diff_union_assoc [OF sub, of "{#(le_socket e, w)#}"]
    by (simp add: new union_commute)
qed

lemma lock_get_cases:
  assumes "ep_ok S"
  shows "(n \<notin> ep_name ` set (endpts S) \<and> nc_server_endpt_lock_get (Some n) NC_TI_NONE S = (None, S)) \<or>
    (\<exists>i. i < length (endpts S) \<and> ep_name (endpts S ! i) = n \<and>
       nc_server_endpt_lock_get (Some n) NC_TI_NONE S = (Some i, S\<lparr>endpt_lk := RW_write\<rparr>))"
proof (cases "find_idx (\<lambda>e. ep_name e = n) (endpts S)")
  case None
  then have "n \<notin> ep_name ` set (endpts S)" by (auto simp: find_idx_None)
  then show ?thesis using None ep_ok_D(7,9) [OF assms] by (simp add: nc_server_endpt_lock_get_def)
next
  case (Some i)
  then show ?thesis using find_idx_Some_bound [OF Some] ep_ok_D(9) [OF assms] by (simp add: nc_server_endpt_lock_get_def)
qed

lemma bind_set_spec:
  assumes "listen_ok e S" and "socks = open_socks S" and "bind_ok (x, b)" and "opts_match (ep_ti x) (ep_opts x)"
    and "\<not> (address = None \<and> prt = 0)"
  shows "\<exists>r b' socks'. bind_set x b address prt e True socks = Some (r, b', socks') \<and> bind_ok (x, b') \<and>
    (r = -1 \<and> b' = b \<and> socks' = socks \<or>
     r = 0 \<and> \<not> -1 < b_sock b \<and> \<not> -1 < b_sock b' \<and> socks' = socks \<or>
     r = 0 \<and> -1 < le_socket e \<and> b_sock b' = le_socket e \<and> socks' = close_bind b ((le_socket e, listens_on x b') # socks))"
proof -
  let ?a = "if address \<noteq> None then address else b_address b" and ?p = "if address \<noteq> None then b_port b else prt"
  let ?listens = "?a \<noteq> None \<and> (?p \<noteq> 0 \<or> ep_ti x = NC_TI_UNIX)"
  show ?thesis
  proof (cases "address = None \<and> ep_ti x = NC_TI_UNIX")
    case True
    then show ?thesis using assms(3) by (simp add: bind_set_def)
  next
    case nu: False
    show ?thesis
    proof (cases ?listens)
      case False
      then have "\<not> -1 < b_sock b" using assms(3,5) nu by (auto simp: bind_ok_def split: if_splits)
      then show ?thesis using False nu by (auto simp: bind_set_def bind_ok_def Let_def split: option.splits)
    next
      case True
      then obtain a where a: "?a = Some a" by auto
      show ?thesis
      proof (cases "ep_ti x = NC_TI_UNIX")
        case ux: True
        then obtain u where u: "ep_opts x = Unix_opts u" using assms(4) by (cases "ep_opts x") auto
        obtain ad where ad: "address = Some ad" using ux nu by auto
        show ?thesis using listen_unix_cases [OF assms(1,2), of ad u] ux u ad assms(3)
          by (auto simp: bind_set_def Let_def bind_ok_def listens_on_def)
      next
        case ni: False
        then have pnz: "?p \<noteq> 0" using True by simp
        let ?w = "if CHR '':'' \<notin> set a then L_inet a ?p else L_inet6 a ?p"
        let ?b = "(if address \<noteq> None then b\<lparr>b_sock := le_socket e, b_address := address\<rparr>
                   else b\<lparr>b_sock := le_socket e, b_port := prt\<rparr>)"
        from listen_inet_cases [OF assms(1,2), of a ?p "ep_ka x"] show ?thesis
        proof
          assume "nc_sock_listen_inet a ?p (ep_ka x) e socks = Some (-1, socks)"
          then have "bind_set x b address prt e True socks = Some (-1, b, socks)"
            using ni a pnz by (auto simp: bind_set_def Let_def split: if_splits)
          then show ?thesis using assms(3) by blast
        next
          assume l: "-1 < le_socket e \<and> nc_sock_listen_inet a ?p (ep_ka x) e socks = Some (le_socket e, (le_socket e, ?w) # socks)"
          have w: "listens_on x ?b = ?w" using ni a by (auto simp: listens_on_def Let_def split: if_splits)
          have k: "bind_ok (x, ?b)" using a pnz by (auto simp: bind_ok_def split: if_splits)
          have "bind_set x b address prt e True socks = Some (0, ?b, close_bind b ((le_socket e, ?w) # socks))"
            using ni a pnz l by (auto simp: bind_set_def Let_def split: if_splits)
          then have "bind_set x b address prt e True socks = Some (0, ?b, close_bind b ((le_socket e, listens_on x ?b) # socks))"
            unfolding w .
          moreover have "b_sock ?b = le_socket e" by simp
          ultimately show ?thesis using k l by blast
        qed
      qed
    qed
  qed
qed

lemma ep_set_ok:
  assumes "ep_ok S" and "listen_ok e S"
  shows "\<exists>r S'. nc_server_endpt_set_address_port (Some n) address prt e True S = Some (r, S') \<and> ep_ok S' \<and>
    endpts S' = endpts S \<and> (r \<noteq> 0 \<longrightarrow> S' = S)"
proof (cases "(address = None \<and> prt = 0) \<or> (address \<noteq> None \<and> prt \<noteq> 0)")
  case True
  then show ?thesis using assms(1) by (auto simp: nc_server_endpt_set_address_port_def)
next
  case False
  note D = ep_ok_D [OF assms(1)]
  consider (none) "nc_server_endpt_lock_get (Some n) NC_TI_NONE S = (None, S)"
    | (some) i where "i < length (endpts S)" "nc_server_endpt_lock_get (Some n) NC_TI_NONE S = (Some i, S\<lparr>endpt_lk := RW_write\<rparr>)"
    using lock_get_cases [OF assms(1), of n] by blast
  then show ?thesis
  proof cases
    case none
    then have "nc_server_endpt_lock_get (Some n) NC_TI_NONE (S\<lparr>bind_lk := True\<rparr>) = (None, S\<lparr>bind_lk := True\<rparr>)"
      using D(7) by (auto simp: nc_server_endpt_lock_get_def Let_def split: option.splits)
    moreover have "S\<lparr>bind_lk := False\<rparr> = S" using D(8) by simp
    ultimately show ?thesis using False assms(1) by (auto simp: nc_server_endpt_set_address_port_def)
  next
    case some
    let ?x = "endpts S ! i" and ?b = "binds S ! i"
    have l: "nc_server_endpt_lock_get (Some n) NC_TI_NONE (S\<lparr>bind_lk := True\<rparr>) = (Some i, S\<lparr>bind_lk := True, endpt_lk := RW_write\<rparr>)"
      using some(2) by (auto simp: nc_server_endpt_lock_get_def Let_def split: option.splits)
    have core: "ep_core S" using assms(1) by (simp add: ep_ok_core)
    have "(?x, ?b) \<in> set (zip (endpts S) (binds S))" using some(1) D(1,2) by (auto simp: set_zip)
    note bok = D(10) [OF this]
    have om: "opts_match (ep_ti ?x) (ep_opts ?x)" using D(4) some(1) by simp
    obtain r b socks where b: "bind_set ?x ?b address prt e True (open_socks S) = Some (r, b, socks)" "bind_ok (?x, b)"
      "r = -1 \<and> b = ?b \<and> socks = open_socks S \<or>
       r = 0 \<and> \<not> -1 < b_sock ?b \<and> \<not> -1 < b_sock b \<and> socks = open_socks S \<or>
       r = 0 \<and> -1 < le_socket e \<and> b_sock b = le_socket e \<and> socks = close_bind ?b ((le_socket e, listens_on ?x b) # open_socks S)"
      using bind_set_spec [OF assms(2) refl bok om, of address prt] False by blast
    let ?S = "S\<lparr>binds := (binds S)[i := b], open_socks := socks\<rparr>"
    have S: "nc_server_endpt_set_address_port (Some n) address prt e True S = Some (r, ?S)"
      using False l b(1) D(7,8) by (auto simp: nc_server_endpt_set_address_port_def)
    have "ep_core ?S \<and> (r \<noteq> 0 \<longrightarrow> ?S = S)"
      using b(3)
    proof (elim disjE conjE)
      assume "r = 0" "\<not> -1 < b_sock ?b" "\<not> -1 < b_sock b" "socks = open_socks S"
      then show ?thesis using ep_core_bind_update [OF core some(1) _ _ b(2), of "open_socks S"] D(6)
        by (simp add: bound_one_def)
    next
      assume "r = 0" "-1 < le_socket e" "b_sock b = le_socket e" "socks = close_bind ?b ((le_socket e, listens_on ?x b) # open_socks S)"
      then show ?thesis using ep_set_finish [OF core some(1) assms(2) _ refl _ b(2)] by simp
    qed (use core in simp)
    then show ?thesis using S D(7,8) by (auto simp: ep_ok_core)
  qed
qed

text \<open>Setters that change only options of an endpoint.\<close>

lemma ep_core_update:
  assumes "ep_core S" and "i < length (endpts S)" and "ep_name x = ep_name (endpts S ! i)" and "ep_ti x = ep_ti (endpts S ! i)"
    and "opts_match (ep_ti x) (ep_opts x)"
  shows "ep_core (S\<lparr>endpts := (endpts S)[i := x]\<rparr>)"
proof -
  note D = ep_core_D [OF assms(1)]
  let ?z = "zip (endpts S) (binds S)"
  have z: "i < length ?z" "?z ! i = (endpts S ! i, binds S ! i)" using assms(2) D(1,2) by simp_all
  have zu: "zip ((endpts S)[i := x]) (binds S) = ?z[i := (x, binds S ! i)]"
    using update_zip [of "endpts S" "binds S" i "(x, binds S ! i)"] by simp
  have b: "bound_one (x, binds S ! i) = bound_one (?z ! i)" and k: "bind_ok (x, binds S ! i) = bind_ok (?z ! i)"
    using assms(4) z(2) by (simp_all add: bound_one_def listens_on_def bind_ok_def)
  have "bound_one (?z ! i) \<subseteq># \<Sum>\<^sub># (image_mset bound_one (mset ?z))" using sum_image_nth [OF z(1), of bound_one] by simp
  then have bd: "bound (S\<lparr>endpts := (endpts S)[i := x]\<rparr>) = bound S"
    using sum_image_update [OF z(1), of bound_one "(x, binds S ! i)"] zu b by (simp add: bound_def)
  have "bind_ok (?z ! i)" using D(8) [OF nth_mem [OF z(1)]] .
  then have bk: "bind_ok p" if "p \<in> set (?z[i := (x, binds S ! i)])" for p
    using subsetD [OF set_update_subset_insert that] k D(8) [of p] by auto
  have mk: "map ep_name ((endpts S)[i := x]) = map ep_name (endpts S)"
    using by_name_update(2) [OF D(3) assms(2,3)] .
  have om: "opts_match (ep_ti y) (ep_opts y)" if "y \<in> set ((endpts S)[i := x])" for y
    using subsetD [OF set_update_subset_insert that] assms(5) D(4) by auto
  show ?thesis by (rule ep_core_I) (use D bd bk mk om zu in \<open>simp_all add: zu\<close>)
qed

lemma with_endpt_ok:
  assumes "ep_ok S"
    and "\<And>x. opts_match (ep_ti x) (ep_opts x) \<Longrightarrow> \<exists>r y. f x = Some (r, y) \<and> ep_name y = ep_name x \<and> ep_ti y = ep_ti x \<and>
      opts_match (ep_ti y) (ep_opts y) \<and> (r \<noteq> 0 \<longrightarrow> y = x)"
  shows "\<exists>r S'. with_endpt (Some n) NC_TI_NONE f S = Some (r, S') \<and> ep_ok S' \<and> (r \<noteq> 0 \<longrightarrow> S' = S)"
proof -
  note D = ep_ok_D [OF assms(1)]
  consider (none) "nc_server_endpt_lock_get (Some n) NC_TI_NONE S = (None, S)"
    | (some) i where "i < length (endpts S)" "nc_server_endpt_lock_get (Some n) NC_TI_NONE S = (Some i, S\<lparr>endpt_lk := RW_write\<rparr>)"
    using lock_get_cases [OF assms(1), of n] by blast
  then show ?thesis
  proof cases
    case none
    then show ?thesis using assms(1) by (simp add: with_endpt_def)
  next
    case some
    have "opts_match (ep_ti (endpts S ! i)) (ep_opts (endpts S ! i))" using D(4) some(1) by simp
    then obtain r y where y: "f (endpts S ! i) = Some (r, y)" "ep_name y = ep_name (endpts S ! i)" "ep_ti y = ep_ti (endpts S ! i)"
      "opts_match (ep_ti y) (ep_opts y)" "r \<noteq> 0 \<longrightarrow> y = endpts S ! i" using assms(2) by meson
    have "ep_core S" using assms(1) by (simp add: ep_ok_core)
    note c = ep_core_update [OF this some(1) y(2,3,4)]
    have "with_endpt (Some n) NC_TI_NONE f S = Some (r, S\<lparr>endpts := (endpts S)[i := y]\<rparr>)"
      using some(2) y(1) D(7) by (simp add: with_endpt_def)
    then show ?thesis using c D(7,8) y(5) by (auto simp: ep_ok_core)
  qed
qed

section \<open>Sequences of operations\<close>

datatype ep_op =
    Ep_add string nc_ti
  | Ep_del "string option" nc_ti
  | Ep_address string string listen_env
  | Ep_port string u16 listen_env
  | Ep_perms string u32 u32 u32
  | Ep_keepalive string bool
  | Ep_keepalives string int int int

definition mem_ok :: add_env where
  "mem_ok = \<lparr>ae_endpts = True, ae_binds = True, ae_opts = True\<rparr>"

fun ep_run :: "ep_op \<Rightarrow> nc_server_opts \<Rightarrow> (int \<times> nc_server_opts) option" where
  "ep_run (Ep_add n ti) S = nc_server_add_endpt (Some n) ti mem_ok S"
| "ep_run (Ep_del n ti) S = Some (nc_server_del_endpt n ti S)"
| "ep_run (Ep_address n a e) S = nc_server_endpt_set_address (Some n) (Some a) e True S"
| "ep_run (Ep_port n p e) S = nc_server_endpt_set_port (Some n) p e S"
| "ep_run (Ep_perms n m u g) S = nc_server_endpt_set_perms (Some n) m u g S"
| "ep_run (Ep_keepalive n b) S = nc_server_endpt_enable_keepalives (Some n) b S"
| "ep_run (Ep_keepalives n i m p) S = nc_server_endpt_set_keepalives (Some n) i m p S"

text \<open>What is asked of the caller and of the system: a transport to listen on, fewer than 65535
  endpoints, descriptors that are new.\<close>

fun ep_allowed :: "ep_op \<Rightarrow> nc_server_opts \<Rightarrow> bool" where
  "ep_allowed (Ep_add n ti) S \<longleftrightarrow> default_opts ti \<noteq> None \<and> endpt_count S + 1 \<noteq> 0"
| "ep_allowed (Ep_address n a e) S \<longleftrightarrow> listen_ok e S"
| "ep_allowed (Ep_port n p e) S \<longleftrightarrow> listen_ok e S"
| "ep_allowed _ S \<longleftrightarrow> True"

text \<open>The results of a sequence of operations, as long as each is allowed where it is made.\<close>

fun ep_runs :: "ep_op list \<Rightarrow> nc_server_opts \<Rightarrow> (int list \<times> nc_server_opts) option" where
  "ep_runs [] S = Some ([], S)"
| "ep_runs (x # xs) S =
     (case ep_run x S of None \<Rightarrow> None
      | Some (r, S') \<Rightarrow> map_option (\<lambda>(rs, T). (r # rs, T)) (ep_runs xs S'))"

fun ep_all_allowed :: "ep_op list \<Rightarrow> nc_server_opts \<Rightarrow> bool" where
  "ep_all_allowed [] S \<longleftrightarrow> True"
| "ep_all_allowed (x # xs) S \<longleftrightarrow>
     ep_allowed x S \<and> (case ep_run x S of None \<Rightarrow> True | Some (r, S') \<Rightarrow> ep_all_allowed xs S')"

lemma ep_step_ok:
  assumes "ep_ok S" and "ep_allowed op S"
  shows "\<exists>r S'. ep_run op S = Some (r, S') \<and> ep_ok S' \<and> (r \<noteq> 0 \<longrightarrow> S' = S)"
proof (cases op)
  case (Ep_add n ti)
  then obtain os where os: "default_opts ti = Some os" "endpt_count S + 1 \<noteq> 0" using assms(2) by auto
  have m: "ae_endpts mem_ok" "ae_binds mem_ok" "ae_opts mem_ok" by (simp_all add: mem_ok_def)
  show ?thesis using ep_add_ok [OF assms(1) os m, of n] Ep_add assms(1) by (cases "n \<in> ep_name ` set (endpts S)") auto
next
  case (Ep_del no ti)
  show ?thesis
  proof (cases no)
    case None
    obtain r S' where "nc_server_del_endpt None ti S = (r, S')" by fastforce
    then show ?thesis using ep_del_any_ok [OF assms(1)] Ep_del None by simp
  next
    case (Some n)
    then show ?thesis using ep_del_name_ok [OF assms(1), of n ti] Ep_del assms(1)
      by (cases "n \<in> ep_name ` set (endpts S)") auto
  qed
next
  case (Ep_address n a e)
  then show ?thesis using ep_set_ok [OF assms(1), of e n "Some a" 0] assms(2) by (auto simp: nc_server_endpt_set_address_def)
next
  case (Ep_port n p e)
  then show ?thesis using ep_set_ok [OF assms(1), of e n None p] assms(2) by (auto simp: nc_server_endpt_set_port_def)
next
  case (Ep_perms n m u g)
  show ?thesis
  proof (cases "m = 0")
    case True
    then show ?thesis using Ep_perms assms(1) by (simp add: nc_server_endpt_set_perms_def)
  next
    case False
    let ?f = "\<lambda>x. if ep_ti x \<noteq> NC_TI_UNIX then Some (-1, x)
             else case ep_opts x of
               Unix_opts uo \<Rightarrow> Some (0, x\<lparr>ep_opts := Unix_opts \<lparr>u_mode = m, u_uid = u, u_gid = g\<rparr>\<rparr>)
             | _ \<Rightarrow> None"
    have "\<exists>r y. ?f x = Some (r :: int, y) \<and> ep_name y = ep_name x \<and> ep_ti y = ep_ti x \<and>
      opts_match (ep_ti y) (ep_opts y) \<and> (r \<noteq> 0 \<longrightarrow> y = x)" if "opts_match (ep_ti x) (ep_opts x)" for x
      using that by (cases "ep_ti x"; cases "ep_opts x") auto
    from with_endpt_ok [OF assms(1), of ?f n, OF this] show ?thesis
      using Ep_perms False by (simp add: nc_server_endpt_set_perms_def)
  qed
next
  case (Ep_keepalive n b)
  have "\<exists>r S'. with_endpt (Some n) NC_TI_NONE (\<lambda>x. Some (0, x\<lparr>ep_ka := (ep_ka x)\<lparr>ka_enabled := b\<rparr>\<rparr>)) S = Some (r, S') \<and>
      ep_ok S' \<and> (r \<noteq> 0 \<longrightarrow> S' = S)"
    by (rule with_endpt_ok [OF assms(1)]) simp
  then show ?thesis using Ep_keepalive by (simp add: nc_server_endpt_enable_keepalives_def)
next
  case (Ep_keepalives n i m p)
  have "\<exists>r S'. with_endpt (Some n) NC_TI_NONE (\<lambda>x. Some (0, x\<lparr>ep_ka := ka_update i m p (ep_ka x)\<rparr>)) S = Some (r, S') \<and>
      ep_ok S' \<and> (r \<noteq> 0 \<longrightarrow> S' = S)"
    by (rule with_endpt_ok [OF assms(1)]) simp
  then show ?thesis using Ep_keepalives by (simp add: nc_server_endpt_set_keepalives_def)
qed

definition no_opts :: nc_server_opts where
  "no_opts =
     \<lparr>wd_basic_mode = NC_WD_UNKNOWN, wd_also_supported = 0, capabilities = [], content_id = no_clb, hello_timeout = 0,
      srv_idle_timeout = 0, passwd_auth = no_clb, pubkey_auth = no_clb, interactive_auth = no_clb, conf_name = None,
      conf_dir = None, user_verify_clb = None, server_cert_clb = no_clb, server_cert_chain_clb = no_clb,
      trusted_cert_list_clb = no_clb, authkeys = [], authkey_count = 0, hostkey_clb = no_clb, binds = [], bind_lk = False, endpts = [],
      endpt_count = 0, endpt_lk = RW_free, ch_clients = [], ch_client_count = 0, ch_client_lk = RW_free,
      new_session_id = 1, new_client_id = 1, open_socks = []\<rparr>"

lemma no_opts_ok: "ep_ok no_opts"
  by (simp add: ep_ok_def no_opts_def bound_def)


definition demo_listen :: "int \<Rightarrow> listen_env" where
  "demo_listen fd =
     \<lparr>le_socket = fd, le_reuseaddr = True, le_nodelay = True, le_keepalive = replicate 4 True, le_pton = True, le_bind = True,
      le_chmod = True, le_chown = True, le_listen = True\<rparr>"

definition demo_ep_ops :: "ep_op list" where
  "demo_ep_ops =
     [Ep_add ''a'' NC_TI_LIBSSH, Ep_add ''b'' NC_TI_UNIX, Ep_address ''a'' ''::1'' (demo_listen (-1)), Ep_port ''a'' 830 (demo_listen 5),
      Ep_address ''b'' ''/s'' (demo_listen 6), Ep_port ''a'' 831 (demo_listen 7), Ep_del (Some ''b'') NC_TI_NONE]"


section \<open>A table of names\<close>

lemma ep_add_dup:
  assumes "ep_ok S" and "n \<in> ep_name ` set (endpts S)"
  shows "nc_server_add_endpt (Some n) ti e S = Some (-1, S)"
proof -
  have "find_idx (\<lambda>x. ep_name x = n) (ep_tab S) \<noteq> None" using assms ep_ok_D(9) [OF assms(1)] by (auto simp: find_idx_None)
  then show ?thesis using ep_ok_D(7,8) [OF assms(1)] by (auto simp: nc_server_add_endpt_def Let_def)
qed

interpretation endpt_table: name_table endpts ep_name ep_ok
  "\<lambda>n ti. nc_server_add_endpt (Some n) ti mem_ok" "\<lambda>n. nc_server_del_endpt (Some n) NC_TI_NONE"
  "\<lambda>n S. fst (nc_server_is_endpt (Some n) S)" "\<lambda>ti S. default_opts ti \<noteq> None \<and> endpt_count S + 1 \<noteq> 0"
  "\<lambda>n ti S. new_endpt n ti (the (default_opts ti))"
proof (unfold_locales, goal_cases)
  case (1 s)
  then show ?case by (rule ep_ok_D(3))
next
  case (2 n a)
  show ?case by (simp add: new_endpt_def)
next
  case (3 s n a)
  then show ?case by (rule ep_add_dup)
next
  case (4 s a n)
  then show ?case using ep_add_ok(2) [of s a _ mem_ok n] by (auto simp: mem_ok_def)
next
  case (5 s n)
  then show ?case using ep_del_name_ok(2) [of s n NC_TI_NONE] by blast
next
  case (6 s n)
  then show ?case by (rule ep_del_name_ok(1))
next
  case (7 s n)
  then show ?case using ep_ok_D(9) [OF 7] by (auto simp: nc_server_is_endpt_def Let_def find_idx_None)
qed

text \<open>C18: the endpoint table implements a finite map from names to endpoints: an addition inserts a new
  endpoint with the default options of its transport when the name is free and fails without
  any change when it is taken, a removal deletes the name (and fails when it is not there),
  and the membership test tells whether the name is in the map.\<close>

theorem endpoints_refine_map:
  assumes "ep_ok S" and "default_opts ti = Some os" and "endpt_count S + 1 \<noteq> 0"
  defines "M \<equiv> by_name ep_name (endpts S)"
  shows "(\<exists>r S'. nc_server_add_endpt (Some n) ti mem_ok S = Some (r, S') \<and> ep_ok S' \<and>
      (if M n = None then r = 0 \<and> by_name ep_name (endpts S') = M(n \<mapsto> new_endpt n ti os) else r = -1 \<and> S' = S)) \<and>
    (\<exists>r S'. nc_server_del_endpt (Some n) NC_TI_NONE S = (r, S') \<and> ep_ok S' \<and>
      by_name ep_name (endpts S') = M(n := None) \<and> (if M n = None then r = -1 \<and> S' = S else r = 0)) \<and>
    (fst (nc_server_is_endpt (Some n) S) \<longleftrightarrow> M n \<noteq> None)"
  using endpt_table.add_map [OF assms(1), of ti n] endpt_table.del_map [OF assms(1), of n]
    endpt_table.has_map [OF assms(1), of n] assms(2,3)
  unfolding M_def endpt_table.abs_map_def by auto

theorem endpoints_refine_map_witness:
  "\<exists>S'. nc_server_add_endpt (Some ''a'') NC_TI_UNIX mem_ok no_opts = Some (0, S') \<and>
     by_name ep_name (endpts S') ''a'' = Some (new_endpt ''a'' NC_TI_UNIX (Unix_opts \<lparr>u_mode = -1, u_uid = -1, u_gid = -1\<rparr>))"
proof -
  have e: "endpts no_opts = []" "endpt_count no_opts + 1 \<noteq> 0" "by_name ep_name ([] :: nc_endpt list) ''a'' = None"
    by (simp_all add: no_opts_def by_name_def)
  show ?thesis using endpoints_refine_map [OF no_opts_ok default_opts.simps(3) e(2), of "''a''"] e(1,3) by auto
qed

section \<open>Defects of the tables\<close>


text \<open>C39: a failed addition is not undone. Adding an endpoint with a transport that cannot listen returns
  an error, but the endpoint has become part of the table: it is counted and found by name.\<close>

theorem failed_add_stays:
  assumes "ep_ok S" and "n \<notin> ep_name ` set (endpts S)" and "endpt_count S + 1 \<noteq> 0"
  shows "\<exists>S'. nc_server_add_endpt (Some n) NC_TI_FD mem_ok S = Some (-1, S') \<and>
    nc_server_endpt_count S' = nc_server_endpt_count S + 1 \<and> fst (nc_server_is_endpt (Some n) S')"
proof -
  note D = ep_ok_D [OF assms(1)]
  have f: "find_idx (\<lambda>x. ep_name x = n) (ep_tab S) = None" using assms(2) D(9) by (auto simp: find_idx_None)
  have c: "unat (endpt_count S + 1) = unat (endpt_count S) + 1"
    using assms(3) unatSuc [of "endpt_count S"] by (simp add: add.commute)
  let ?S = "S\<lparr>endpt_count := endpt_count S + 1, endpts := endpts S @ [new_endpt n NC_TI_FD No_opts], binds := binds S @ [new_bind]\<rparr>"
  have "nc_server_add_endpt (Some n) NC_TI_FD mem_ok S = Some (-1, ?S)"
    using f assms(3) D(2,7-9) by (simp add: nc_server_add_endpt_def Let_def mem_ok_def)
  moreover have "nc_server_endpt_count ?S = nc_server_endpt_count S + 1"
    using arg_cong [OF c, of int] by (simp add: nc_server_endpt_count_def)
  moreover have "fst (nc_server_is_endpt (Some n) ?S)"
    using c D(1) by (auto simp: nc_server_is_endpt_def Let_def find_idx_None new_endpt_def)
  ultimately show ?thesis by blast
qed

theorem failed_add_stays_witness:
  "\<exists>S'. nc_server_add_endpt (Some ''a'') NC_TI_FD mem_ok no_opts = Some (-1, S') \<and>
    nc_server_endpt_count S' = nc_server_endpt_count no_opts + 1 \<and> fst (nc_server_is_endpt (Some ''a'') S')"
  by (rule failed_add_stays [OF no_opts_ok]) (simp_all add: no_opts_def)

text \<open>A path of 107 characters passes the length check but loses its last character.\<close>

lemma unix_path_truncated:
  "nc_sock_listen_unix (replicate 107 CHR ''x'') \<lparr>u_mode = -1, u_uid = -1, u_gid = -1\<rparr> (demo_listen 5) []
     = (5, [(5, L_unix (replicate 106 CHR ''x''))])"
  by code_simp

section \<open>Accepting connections\<close>

text \<open>
  \<^verbatim>\<open>nc_sock_accept_binds\<close> polls all listening sockets and accepts on one of them. It keeps the
  events of the others in the \<^verbatim>\<open>pollin\<close> flags, for the next calls. The first loop: the sockets to
  poll, or the index of the first one with a kept event.
\<close>

fun acc_collect :: "nat \<Rightarrow> nc_bind list \<Rightarrow> int list \<times> nat option" where
  "acc_collect i [] = ([], None)"
| "acc_collect i (b # bs) =
     (if b_sock b < 0 then acc_collect (i + 1) bs
      else if b_pollin b then ([], Some i)
      else (case acc_collect (i + 1) bs of (fds, left) \<Rightarrow> (b_sock b # fds, left)))"

text \<open>The second loop, over the polled sockets with their POLLIN events: \<open>i\<close> is the index into the binds,
  \<open>ret\<close> the number of events left. The index of the socket to accept on, if any; \<open>None\<close> when the
  index runs past the array.\<close>

fun acc_pick :: "nat \<Rightarrow> (int \<times> bool) list \<Rightarrow> int \<Rightarrow> nc_bind list \<Rightarrow> (nat option \<times> nc_bind list) option" where
  "acc_pick i [] ret bs = Some (None, bs)"
| "acc_pick i ((fd, ev) # ps) ret bs =
     (case find_idx (\<lambda>b. b_sock b = fd) (drop i bs) of None \<Rightarrow> None
      | Some k \<Rightarrow>
          if ev
          then if ret - 1 = 0 then Some (Some (i + k), bs)
               else acc_pick (i + k + 1) ps (ret - 1) (bs[i + k := (bs ! (i + k))\<lparr>b_pollin := True\<rparr>])
          else acc_pick (i + k + 1) ps ret bs)"

datatype sa_family = AF_UNIX | AF_INET | AF_INET6 | AF_OTHER

text \<open>The results of the calls: \<^verbatim>\<open>malloc\<close>, \<^verbatim>\<open>poll\<close> (with the POLLIN events), \<^verbatim>\<open>accept\<close>, \<^verbatim>\<open>fcntl\<close>, the address
  family of the peer, and what \<^verbatim>\<open>sock_host_unix\<close>, \<^verbatim>\<open>sock_host_inet\<close> or \<^verbatim>\<open>sock_host_inet6\<close> finds out about it
  (\<open>None\<close> on failure).\<close>

record accept_env =
  ac_alloc :: bool
  ac_poll :: int
  ac_revents :: "bool list"
  ac_accept :: int
  ac_fcntl :: bool
  ac_family :: sa_family
  ac_peer :: "(string option \<times> u16) option"

text \<open>On success the socket of the client, its host and port, and the index of the bind; otherwise 0
  (timeout) or -1. Descriptors of accepted connections that are closed again are returned last.\<close>

definition nc_sock_accept_binds ::
  "nc_bind list \<Rightarrow> accept_env \<Rightarrow> (int \<times> (string option \<times> u16 \<times> nat) option \<times> nc_bind list \<times> int list) option"
where
  "nc_sock_accept_binds bs e =
     (if \<not> ac_alloc e then Some (-1, None, bs, [])
      else case (case acc_collect 0 bs of
             (fds, Some i) \<Rightarrow> Some (None, Some i, bs[i := (bs ! i)\<lparr>b_pollin := False\<rparr>])
           | (fds, None) \<Rightarrow>
               if ac_poll e = 0 then Some (Some 0, None, bs)
               else if ac_poll e = -1 then Some (Some (-1), None, bs)
               else map_option (\<lambda>(i, bs'). (None, i, bs')) (acc_pick 0 (zip fds (ac_revents e)) (ac_poll e) bs)) of
             None \<Rightarrow> None
           | Some (Some r, _, bs') \<Rightarrow> Some (r, None, bs', [])
           | Some (None, None, bs') \<Rightarrow> Some (-1, None, bs', [])
           | Some (None, Some i, bs') \<Rightarrow>
               if ac_accept e < 0 then Some (-1, None, bs', [])
               else if \<not> ac_fcntl e then Some (-1, None, bs', [ac_accept e])
               else if ac_family e = AF_OTHER then Some (-1, None, bs', [ac_accept e])
               else case ac_peer e of None \<Rightarrow> Some (-1, None, bs', [ac_accept e])
                 | Some (h, p) \<Rightarrow>
                     Some (ac_accept e, Some (h, if ac_family e = AF_UNIX then 0 else p, i), bs', []))"

text \<open>Which binds had an event: the events of \<^verbatim>\<open>poll\<close> belong to the binds with a socket, in order.\<close>

fun had_event :: "nc_bind list \<Rightarrow> bool list \<Rightarrow> bool list" where
  "had_event [] rs = []"
| "had_event (b # bs) rs =
     (if b_sock b < 0 then False # had_event bs rs
      else case rs of [] \<Rightarrow> False # had_event bs [] | r # rs' \<Rightarrow> r # had_event bs rs')"

lemma acc_pick_skip:
  assumes "i < length bs" and "b_sock (bs ! i) < 0" and "\<forall>p \<in> set ps. 0 \<le> fst p"
  shows "acc_pick i ps ret bs = acc_pick (i + 1) ps ret bs"
proof (cases ps)
  case (Cons p ps')
  obtain fd ev where p: "p = (fd, ev)" by fastforce
  have "drop i bs = bs ! i # drop (i + 1) bs" using assms(1) by (simp add: Cons_nth_drop_Suc)
  then have "find_idx (\<lambda>b. b_sock b = fd) (drop i bs) = map_option Suc (find_idx (\<lambda>b. b_sock b = fd) (drop (i + 1) bs))"
    using assms(2,3) Cons p by auto
  then show ?thesis using Cons p by (auto split: option.splits)
qed simp

lemma acc_pick_spec:
  assumes "length rs = length (filter (\<lambda>b. 0 \<le> b_sock b) suf)" and "ret = int (length (filter (\<lambda>r. r) rs))" and "0 < ret"
  shows "\<exists>j suf'. acc_pick (length pre) (zip (map b_sock (filter (\<lambda>b. 0 \<le> b_sock b) suf)) rs) ret (pre @ suf)
      = Some (Some (length pre + j), pre @ suf') \<and> j < length suf \<and> had_event suf rs ! j \<and> length suf' = length suf \<and>
    (\<forall>k < length suf. suf' ! k = (if had_event suf rs ! k \<and> k \<noteq> j then (suf ! k)\<lparr>b_pollin := True\<rparr> else suf ! k))"
  using assms
proof (induction suf arbitrary: pre rs ret)
  case (Cons b suf)
  show ?case
  proof (cases "b_sock b < 0")
    case True
    have "acc_pick (length pre) (zip (map b_sock (filter (\<lambda>b. 0 \<le> b_sock b) suf)) rs) ret (pre @ b # suf)
        = acc_pick (length pre + 1) (zip (map b_sock (filter (\<lambda>b. 0 \<le> b_sock b) suf)) rs) ret (pre @ b # suf)"
      by (rule acc_pick_skip) (use True in \<open>auto dest: set_zip_leftD\<close>)
    moreover have l: "length rs = length (filter (\<lambda>b. 0 \<le> b_sock b) suf)" using Cons.prems(1) True by simp
    obtain j suf' where j: "acc_pick (length pre + 1) (zip (map b_sock (filter (\<lambda>b. 0 \<le> b_sock b) suf)) rs) ret (pre @ b # suf)
        = Some (Some (length pre + 1 + j), pre @ b # suf')" "j < length suf" "had_event suf rs ! j" "length suf' = length suf"
      "\<forall>k < length suf. suf' ! k = (if had_event suf rs ! k \<and> k \<noteq> j then (suf ! k)\<lparr>b_pollin := True\<rparr> else suf ! k)"
      using Cons.IH [OF l Cons.prems(2,3), of "pre @ [b]"] by auto
    ultimately show ?thesis using True by (intro exI [of _ "j + 1"] exI [of _ "b # suf'"]) (auto simp: All_less_Suc2)
  next
    case False
    then obtain r rs' where rs: "rs = r # rs'" using Cons.prems(1) by (cases rs) auto
    have fi: "find_idx (\<lambda>x. b_sock x = b_sock b) (drop (length pre) (pre @ b # suf)) = Some 0" by simp
    show ?thesis
    proof (cases "r \<and> ret - 1 = 0")
      case True
      then have none: "\<not> r'" if "r' \<in> set rs'" for r'
        using Cons.prems(2) rs that by (auto simp: filter_empty_conv)
      have "\<not> had_event suf rs' ! k" if "k < length suf" for k
        using none that
      proof (induction suf rs' arbitrary: k rule: had_event.induct)
        case (2 b bs rs)
        then show ?case by (cases k; cases rs) auto
      qed simp
      then show ?thesis using True False rs fi
        by (intro exI [of _ 0] exI [of _ "b # suf"]) (auto simp: All_less_Suc2)
    next
      case nl: False
      let ?b = "if r then b\<lparr>b_pollin := True\<rparr> else b" and ?ret = "if r then ret - 1 else ret"
      have l: "length rs' = length (filter (\<lambda>b. 0 \<le> b_sock b) suf)" "?ret = int (length (filter (\<lambda>r. r) rs'))" "0 < ?ret"
        using Cons.prems rs False nl by auto
      obtain j suf' where j: "acc_pick (length pre + 1) (zip (map b_sock (filter (\<lambda>b. 0 \<le> b_sock b) suf)) rs') ?ret (pre @ ?b # suf)
          = Some (Some (length pre + 1 + j), pre @ ?b # suf')" "j < length suf" "had_event suf rs' ! j" "length suf' = length suf"
        "\<forall>k < length suf. suf' ! k = (if had_event suf rs' ! k \<and> k \<noteq> j then (suf ! k)\<lparr>b_pollin := True\<rparr> else suf ! k)"
        using Cons.IH [OF l, of "pre @ [?b]"] by auto
      have "acc_pick (length pre) (zip (map b_sock (filter (\<lambda>b. 0 \<le> b_sock b) (b # suf))) rs) ret (pre @ b # suf)
          = Some (Some (length pre + (j + 1)), pre @ ?b # suf')"
        using j(1) nl False rs fi by (auto simp: list_update_append)
      then show ?thesis using j(2-5) False rs
        by (intro exI [of _ "j + 1"] exI [of _ "?b # suf'"]) (auto simp: All_less_Suc2)
    qed
  qed
qed simp

lemma acc_collect_none:
  "\<forall>b \<in> set bs. 0 \<le> b_sock b \<longrightarrow> \<not> b_pollin b \<Longrightarrow> acc_collect i bs = (map b_sock (filter (\<lambda>b. 0 \<le> b_sock b) bs), None)"
  by (induction bs arbitrary: i) auto

lemma acc_collect_some:
  "find_idx (\<lambda>b. 0 \<le> b_sock b \<and> b_pollin b) bs = Some k \<Longrightarrow> \<exists>fds. acc_collect i bs = (fds, Some (i + k))"
proof (induction bs arbitrary: i k)
  case (Cons b bs)
  show ?case
  proof (cases "0 \<le> b_sock b \<and> b_pollin b")
    case False
    then obtain k' where "find_idx (\<lambda>b. 0 \<le> b_sock b \<and> b_pollin b) bs = Some k'" "k = Suc k'" using Cons.prems by auto
    then show ?thesis using Cons.IH [of k' "i + 1"] False by (auto split: prod.splits)
  qed (use Cons.prems in simp)
qed simp

text \<open>C19: no connection request is forgotten. When the peer can be accepted: if some bind still has an
  event kept from an earlier call, the first such bind is served, without polling, and its
  event is cleared; otherwise, if \<^verbatim>\<open>poll\<close> reports n > 0 sockets ready to accept, one of them is
  served and exactly the other ones are kept for later calls. The index returned is the one of
  the bind that was served, also when binds without a socket are in between.\<close>

theorem accept_keeps_events:
  assumes "ac_alloc e" and "0 \<le> ac_accept e" and "ac_fcntl e" and "ac_family e \<noteq> AF_OTHER" and "ac_peer e = Some (h, p)"
  defines "peer \<equiv> \<lambda>i. Some (h, if ac_family e = AF_UNIX then 0 else p, i)"
  shows "(\<forall>k. find_idx (\<lambda>b. 0 \<le> b_sock b \<and> b_pollin b) bs = Some k \<longrightarrow>
      nc_sock_accept_binds bs e = Some (ac_accept e, peer k, bs[k := (bs ! k)\<lparr>b_pollin := False\<rparr>], [])) \<and>
    (find_idx (\<lambda>b. 0 \<le> b_sock b \<and> b_pollin b) bs = None \<and> 0 < ac_poll e \<and>
     length (ac_revents e) = length (filter (\<lambda>b. 0 \<le> b_sock b) bs) \<and>
     ac_poll e = int (length (filter (\<lambda>r. r) (ac_revents e))) \<longrightarrow>
      (\<exists>j bs'. nc_sock_accept_binds bs e = Some (ac_accept e, peer j, bs', []) \<and> j < length bs \<and> length bs' = length bs \<and>
         had_event bs (ac_revents e) ! j \<and>
         (\<forall>k < length bs. bs' ! k =
            (if had_event bs (ac_revents e) ! k \<and> k \<noteq> j then (bs ! k)\<lparr>b_pollin := True\<rparr> else bs ! k))))"
proof (intro conjI allI impI, goal_cases)
  case (1 k)
  then show ?case using acc_collect_some [OF 1, of 0] assms(1-5) by (auto simp: nc_sock_accept_binds_def peer_def)
next
  case 2
  then have "acc_collect 0 bs = (map b_sock (filter (\<lambda>b. 0 \<le> b_sock b) bs), None)"
    by (intro acc_collect_none) (auto simp: find_idx_None)
  then show ?case using acc_pick_spec [of "ac_revents e" bs "ac_poll e" "[]"] 2 assms(1-5)
    by (auto simp: nc_sock_accept_binds_def peer_def)
qed

definition demo_binds :: "nc_bind list" where
  "demo_binds = map (\<lambda>fd. \<lparr>b_address = Some ''h'', b_port = 830, b_sock = fd, b_pollin = False\<rparr>) [4, -1, 5]"

theorem accept_keeps_events_witness:
  "\<exists>j bs'. nc_sock_accept_binds demo_binds
      \<lparr>ac_alloc = True, ac_poll = 2, ac_revents = [True, True], ac_accept = 9, ac_fcntl = True, ac_family = AF_INET,
       ac_peer = Some (Some ''peer'', 4000)\<rparr> = Some (9, Some (Some ''peer'', 4000, j), bs', []) \<and>
     j < length demo_binds \<and> map b_pollin bs' = [True, False, False]"
proof -
  let ?e = "\<lparr>ac_alloc = True, ac_poll = 2, ac_revents = [True, True], ac_accept = 9, ac_fcntl = True, ac_family = AF_INET,
       ac_peer = Some (Some ''peer'', 4000 :: u16)\<rparr>"
  have v: "map_option (\<lambda>(_, _, bs', _). map b_pollin bs') (nc_sock_accept_binds demo_binds ?e) = Some [True, False, False]" by code_simp
  show ?thesis using accept_keeps_events [of ?e "Some ''peer''" 4000 demo_binds] v
    by (auto simp: demo_binds_def find_idx.simps)
qed

end
