(* ===== verification/NC_CallHome.thy ===== *)
theory NC_CallHome
  imports NC_Endpoints
begin

text \<open>
  Call Home of the server (\<^verbatim>\<open>session_server.c\<close>): the table of Call Home clients, the endpoints of
  each client, their settings, and the thread that keeps a client connected. Clients and
  endpoints are two more instances of the named tables. The thread is a function of the
  rounds it goes through: what the connection attempt gave and what it finds when it has taken
  the lock again.
\<close>

section \<open>Endpoints of a client\<close>

definition new_ch_endpt :: "string \<Rightarrow> nc_ti \<Rightarrow> ep_opts \<Rightarrow> nc_ch_endpt" where
  "new_ch_endpt n ti opts =
     \<lparr>ce_name = n, ce_ti = ti, ce_address = None, ce_port = 0, ce_sock_pending = -1,
      ce_ka = \<lparr>ka_enabled = False, ka_idle_time = 1, ka_max_probes = 10, ka_probe_interval = 5\<rparr>, ce_opts = opts\<rparr>"

text \<open>Only SSH and TLS can call home.\<close>

fun ch_default_opts :: "nc_ti \<Rightarrow> ep_opts option" where
  "ch_default_opts NC_TI_LIBSSH = Some (Ssh_opts ssh_defaults)"
| "ch_default_opts NC_TI_OPENSSL = Some (Tls_opts tls_defaults)"
| "ch_default_opts _ = None"

text \<open>Adding an endpoint to a locked client; the flags are the outcomes of the two allocations. \<open>None\<close> when
  the count wraps around.\<close>

definition ch_add_endpt :: "string \<Rightarrow> nc_ti \<Rightarrow> bool \<Rightarrow> bool \<Rightarrow> nc_ch_client \<Rightarrow> (int \<times> nc_ch_client) option" where
  "ch_add_endpt n ti al1 al2 c =
     (if find_idx (\<lambda>x. ce_name x = n) (ce_tab c) \<noteq> None then Some (-1, c)
      else if ch_endpt_count c + 1 = 0 then None
      else
        let c1 = c\<lparr>ch_endpt_count := ch_endpt_count c + 1\<rparr>
        in if \<not> al1 then Some (-1, c1\<lparr>ch_endpts := []\<rparr>)
           else case ch_default_opts ti of
                  None \<Rightarrow> Some (-1, c1\<lparr>ch_endpts := ce_tab c @ [new_ch_endpt n ti No_opts]\<rparr>)
                | Some opts \<Rightarrow>
                    if \<not> al2 then Some (-1, c1\<lparr>ch_endpts := ce_tab c @ [new_ch_endpt n ti No_opts]\<rparr>)
                    else Some (0, c1\<lparr>ch_endpts := ce_tab c @ [new_ch_endpt n ti opts]\<rparr>))"

text \<open>\<^verbatim>\<open>_nc_server_ch_client_del_endpt\<close>: the result, the client, and the pending sockets that are closed.\<close>

definition pending :: "nc_ch_endpt \<Rightarrow> int list" where
  "pending x = (if ce_sock_pending x \<noteq> -1 then [ce_sock_pending x] else [])"

definition nc_server_ch_client_del_endpt_int ::
  "string option \<Rightarrow> nc_ti \<Rightarrow> nc_ch_client \<Rightarrow> int \<times> nc_ch_client \<times> int list"
where
  "nc_server_ch_client_del_endpt_int name ti c =
     (case name of
        None \<Rightarrow> (0, c\<lparr>ch_endpts := [], ch_endpt_count := 0\<rparr>, concat (map pending (ce_tab c)))
      | Some n \<Rightarrow>
          (case find_idx (\<lambda>x. ce_name x = n \<and> (ti = NC_TI_NONE \<or> ti = ce_ti x)) (ce_tab c) of
             None \<Rightarrow> (-1, c, [])
           | Some i \<Rightarrow>
               (0, c\<lparr>ch_endpt_count := ch_endpt_count c - 1, ch_endpts := swap_remove i (ce_tab c)\<rparr>,
                pending (ch_endpts c ! i))))"

definition ch_has_endpt :: "string \<Rightarrow> nc_ch_client \<Rightarrow> bool" where
  "ch_has_endpt n c \<longleftrightarrow> find_idx (\<lambda>x. ce_name x = n) (ce_tab c) \<noteq> None"

section \<open>Clients\<close>

text \<open>The options of periodic connections are not initialised; nothing reads them before
  \<^verbatim>\<open>nc_server_ch_client_set_conn_type\<close> has written them.\<close>

definition new_client :: "string \<Rightarrow> u32 \<Rightarrow> nc_ch_client" where
  "new_client n i =
     \<lparr>cc_name = n, ch_endpts = [], ch_endpt_count = 0, conn_type = NC_CH_CT_NOT_SET, period = 0, anchor_time = 0, idle_timeout = 0,
      start_with = NC_CH_FIRST_LISTED, max_attempts = 3, cc_id = i, cc_lock = False\<rparr>"

definition nc_server_ch_add_client :: "string option \<Rightarrow> bool \<Rightarrow> nc_server_opts \<Rightarrow> (int \<times> nc_server_opts) option" where
  "nc_server_ch_add_client name alloc S =
     (case name of None \<Rightarrow> Some (-1, S)
      | Some n \<Rightarrow>
          if find_idx (\<lambda>c. cc_name c = n) (cl_tab S) \<noteq> None then Some (-1, S\<lparr>ch_client_lk := RW_free\<rparr>)
          else if ch_client_count S + 1 = 0 then None
          else
            let S1 = S\<lparr>ch_client_lk := RW_free, ch_client_count := ch_client_count S + 1\<rparr>
            in if \<not> alloc then Some (-1, S1\<lparr>ch_clients := []\<rparr>)
               else Some (0, S1\<lparr>ch_clients := cl_tab S @ [new_client n (new_client_id S)],
                                new_client_id := new_client_id S + 1\<rparr>))"

definition nc_server_ch_del_client :: "string option \<Rightarrow> nc_server_opts \<Rightarrow> int \<times> nc_server_opts" where
  "nc_server_ch_del_client name S =
     (case name of
        None \<Rightarrow> (if ch_client_count S = 0 then -1 else 0, S\<lparr>ch_clients := [], ch_client_count := 0, ch_client_lk := RW_free\<rparr>)
      | Some n \<Rightarrow>
          (case find_idx (\<lambda>c. cc_name c = n) (cl_tab S) of
             None \<Rightarrow> (-1, S\<lparr>ch_client_lk := RW_free\<rparr>)
           | Some i \<Rightarrow>
               (0, S\<lparr>ch_client_count := ch_client_count S - 1, ch_clients := swap_remove i (cl_tab S), ch_client_lk := RW_free\<rparr>)))"

definition nc_server_ch_is_client :: "string option \<Rightarrow> nc_server_opts \<Rightarrow> bool \<times> nc_server_opts" where
  "nc_server_ch_is_client name S =
     (case name of None \<Rightarrow> (False, S)
      | Some n \<Rightarrow> (find_idx (\<lambda>c. cc_name c = n) (cl_tab S) \<noteq> None, S\<lparr>ch_client_lk := RW_free\<rparr>))"

definition nc_server_ch_client_is_endpt :: "string option \<Rightarrow> string option \<Rightarrow> nc_server_opts \<Rightarrow> bool \<times> nc_server_opts" where
  "nc_server_ch_client_is_endpt name ename S =
     (case (name, ename) of
        (Some n, Some m) \<Rightarrow>
          (case find_idx (\<lambda>c. cc_name c = n) (cl_tab S) of None \<Rightarrow> False | Some i \<Rightarrow> ch_has_endpt m (ch_clients S ! i),
           S\<lparr>ch_client_lk := RW_free\<rparr>)
      | _ \<Rightarrow> (False, S))"

section \<open>Settings\<close>

text \<open>The two shapes of a setter: on a locked client, and on a locked endpoint of a client.\<close>

definition with_ch_client ::
  "string option \<Rightarrow> (nc_ch_client \<Rightarrow> (int \<times> nc_ch_client) option) \<Rightarrow> nc_server_opts \<Rightarrow> (int \<times> nc_server_opts) option"
where
  "with_ch_client name f S =
     (case nc_server_ch_client_lock name None NC_TI_NONE S of
        (None, _, S1) \<Rightarrow> Some (-1, S1)
      | (Some i, _, S1) \<Rightarrow>
          map_option (\<lambda>(r, c). (r, nc_server_ch_client_unlock i (S1\<lparr>ch_clients := (ch_clients S1)[i := c]\<rparr>))) (f (ch_clients S1 ! i)))"

definition with_ch_endpt ::
  "string option \<Rightarrow> string option \<Rightarrow> nc_ti \<Rightarrow> (nc_ch_endpt \<Rightarrow> (int \<times> nc_ch_endpt) option) \<Rightarrow> nc_server_opts \<Rightarrow>
   (int \<times> nc_server_opts) option"
where
  "with_ch_endpt name ename ti f S =
     (case nc_server_ch_client_lock name ename ti S of
        (Some i, Some j, S1) \<Rightarrow>
          map_option (\<lambda>(r, x).
              let c = ch_clients S1 ! i
              in (r, nc_server_ch_client_unlock i (S1\<lparr>ch_clients := (ch_clients S1)[i := c\<lparr>ch_endpts := (ch_endpts c)[j := x]\<rparr>]\<rparr>)))
            (f (ch_endpts (ch_clients S1 ! i) ! j))
      | (_, _, S1) \<Rightarrow> Some (-1, S1))"

definition nc_server_ch_client_add_endpt ::
  "string option \<Rightarrow> string option \<Rightarrow> nc_ti \<Rightarrow> bool \<Rightarrow> bool \<Rightarrow> nc_server_opts \<Rightarrow> (int \<times> nc_server_opts) option"
where
  "nc_server_ch_client_add_endpt name ename ti al1 al2 S =
     (case (name, ename) of
        (Some n, Some m) \<Rightarrow>
          if ti = NC_TI_NONE then Some (-1, S) else with_ch_client name (ch_add_endpt m ti al1 al2) S
      | _ \<Rightarrow> Some (-1, S))"

definition nc_server_ch_client_del_endpt ::
  "string option \<Rightarrow> string option \<Rightarrow> nc_ti \<Rightarrow> nc_server_opts \<Rightarrow> (int \<times> nc_server_opts) option"
where
  "nc_server_ch_client_del_endpt name ename ti S =
     with_ch_client name (\<lambda>c. case nc_server_ch_client_del_endpt_int ename ti c of (r, c', _) \<Rightarrow> Some (r, c')) S"

text \<open>\<open>addr_ok\<close> is the outcome of copying the address.\<close>

definition nc_server_ch_client_endpt_set_address ::
  "string option \<Rightarrow> string option \<Rightarrow> string option \<Rightarrow> bool \<Rightarrow> nc_server_opts \<Rightarrow> (int \<times> nc_server_opts) option"
where
  "nc_server_ch_client_endpt_set_address name ename address addr_ok S =
     (if name = None \<or> ename = None \<or> address = None then Some (-1, S)
      else with_ch_endpt name ename NC_TI_NONE (\<lambda>x. Some (0, x\<lparr>ce_address := (if addr_ok then address else None)\<rparr>)) S)"

definition nc_server_ch_client_endpt_set_port ::
  "string option \<Rightarrow> string option \<Rightarrow> u16 \<Rightarrow> nc_server_opts \<Rightarrow> (int \<times> nc_server_opts) option"
where
  "nc_server_ch_client_endpt_set_port name ename prt S =
     (if name = None \<or> ename = None \<or> prt = 0 then Some (-1, S)
      else with_ch_endpt name ename NC_TI_NONE (\<lambda>x. Some (0, x\<lparr>ce_port := prt\<rparr>)) S)"

definition nc_server_ch_client_endpt_enable_keepalives ::
  "string option \<Rightarrow> string option \<Rightarrow> bool \<Rightarrow> nc_server_opts \<Rightarrow> (int \<times> nc_server_opts) option"
where
  "nc_server_ch_client_endpt_enable_keepalives name ename enable S =
     (if name = None \<or> ename = None then Some (-1, S)
      else with_ch_endpt name ename NC_TI_NONE (\<lambda>x. Some (0, x\<lparr>ce_ka := (ce_ka x)\<lparr>ka_enabled := enable\<rparr>\<rparr>)) S)"

definition nc_server_ch_client_endpt_set_keepalives ::
  "string option \<Rightarrow> string option \<Rightarrow> int \<Rightarrow> int \<Rightarrow> int \<Rightarrow> nc_server_opts \<Rightarrow> (int \<times> nc_server_opts) option"
where
  "nc_server_ch_client_endpt_set_keepalives name ename idle_time max_probes probe_interval S =
     (if name = None \<or> ename = None then Some (-1, S)
      else with_ch_endpt name ename NC_TI_NONE
        (\<lambda>x. Some (0, x\<lparr>ce_ka := ka_update idle_time max_probes probe_interval (ce_ka x)\<rparr>)) S)"

definition nc_server_ch_client_set_conn_type ::
  "string option \<Rightarrow> nc_ch_conn_type \<Rightarrow> nc_server_opts \<Rightarrow> (int \<times> nc_server_opts) option"
where
  "nc_server_ch_client_set_conn_type name ct S =
     (if name = None \<or> ct = NC_CH_CT_NOT_SET then Some (-1, S)
      else with_ch_client name
        (\<lambda>c. Some (0, if conn_type c = ct then c
                      else if ct = NC_CH_PERIOD
                      then c\<lparr>conn_type := ct, period := 60, anchor_time := 0, idle_timeout := 120\<rparr>
                      else c\<lparr>conn_type := ct\<rparr>)) S)"

text \<open>The options of periodic connections can be set only for clients of that type.\<close>

definition on_periodic :: "(nc_ch_client \<Rightarrow> nc_ch_client) \<Rightarrow> nc_ch_client \<Rightarrow> (int \<times> nc_ch_client) option" where
  "on_periodic f c = (if conn_type c \<noteq> NC_CH_PERIOD then Some (-1, c) else Some (0, f c))"

definition nc_server_ch_client_periodic_set_period ::
  "string option \<Rightarrow> u16 \<Rightarrow> nc_server_opts \<Rightarrow> (int \<times> nc_server_opts) option"
where
  "nc_server_ch_client_periodic_set_period name p S =
     (if name = None \<or> p = 0 then Some (-1, S) else with_ch_client name (on_periodic (\<lambda>c. c\<lparr>period := p\<rparr>)) S)"

definition nc_server_ch_client_periodic_set_anchor_time ::
  "string option \<Rightarrow> int \<Rightarrow> nc_server_opts \<Rightarrow> (int \<times> nc_server_opts) option"
where
  "nc_server_ch_client_periodic_set_anchor_time name t S =
     (if name = None then Some (-1, S) else with_ch_client name (on_periodic (\<lambda>c. c\<lparr>anchor_time := t\<rparr>)) S)"

definition nc_server_ch_client_periodic_set_idle_timeout ::
  "string option \<Rightarrow> u16 \<Rightarrow> nc_server_opts \<Rightarrow> (int \<times> nc_server_opts) option"
where
  "nc_server_ch_client_periodic_set_idle_timeout name t S =
     (if name = None then Some (-1, S) else with_ch_client name (on_periodic (\<lambda>c. c\<lparr>idle_timeout := t\<rparr>)) S)"

definition nc_server_ch_client_set_start_with ::
  "string option \<Rightarrow> nc_ch_start_with \<Rightarrow> nc_server_opts \<Rightarrow> (int \<times> nc_server_opts) option"
where
  "nc_server_ch_client_set_start_with name sw S =
     (if name = None then Some (-1, S) else with_ch_client name (\<lambda>c. Some (0, c\<lparr>start_with := sw\<rparr>)) S)"

definition nc_server_ch_client_set_max_attempts ::
  "string option \<Rightarrow> u8 \<Rightarrow> nc_server_opts \<Rightarrow> (int \<times> nc_server_opts) option"
where
  "nc_server_ch_client_set_max_attempts name m S =
     (if name = None \<or> m = 0 then Some (-1, S) else with_ch_client name (\<lambda>c. Some (0, c\<lparr>max_attempts := m\<rparr>)) S)"

section \<open>The invariant\<close>

text \<open>A client's endpoints are as many as counted, have unique names and the options of their transport.\<close>

fun ch_match :: "nc_ti \<Rightarrow> ep_opts \<Rightarrow> bool" where
  "ch_match NC_TI_LIBSSH (Ssh_opts _) = True"
| "ch_match NC_TI_OPENSSL (Tls_opts _) = True"
| "ch_match _ _ = False"

definition ce_ok :: "nc_ch_client \<Rightarrow> bool" where
  "ce_ok c \<longleftrightarrow> length (ch_endpts c) = unat (ch_endpt_count c) \<and> distinct (map ce_name (ch_endpts c)) \<and>
     (\<forall>x \<in> set (ch_endpts c). ch_match (ce_ti x) (ce_opts x))"

text \<open>Clients are as many as counted, have unique names and identifiers that were not given out twice; no
  lock is held.\<close>

definition ch_ok :: "nc_server_opts \<Rightarrow> bool" where
  "ch_ok S \<longleftrightarrow> length (ch_clients S) = unat (ch_client_count S) \<and> distinct (map cc_name (ch_clients S)) \<and>
     distinct (map cc_id (ch_clients S)) \<and> (\<forall>c \<in> set (ch_clients S). ce_ok c \<and> \<not> cc_lock c \<and> cc_id c < new_client_id S) \<and>
     ch_client_lk S = RW_free"

lemma ch_ok_D:
  assumes "ch_ok S"
  shows "length (ch_clients S) = unat (ch_client_count S)" and "distinct (map cc_name (ch_clients S))"
    and "distinct (map cc_id (ch_clients S))" and "c \<in> set (ch_clients S) \<Longrightarrow> ce_ok c"
    and "c \<in> set (ch_clients S) \<Longrightarrow> \<not> cc_lock c" and "c \<in> set (ch_clients S) \<Longrightarrow> cc_id c < new_client_id S"
    and "ch_client_lk S = RW_free" and "cl_tab S = ch_clients S"
  using assms by (simp_all add: ch_ok_def)

lemma ce_ok_D:
  assumes "ce_ok c"
  shows "length (ch_endpts c) = unat (ch_endpt_count c)" and "distinct (map ce_name (ch_endpts c))"
    and "x \<in> set (ch_endpts c) \<Longrightarrow> ch_match (ce_ti x) (ce_opts x)" and "ce_tab c = ch_endpts c"
  using assms by (simp_all add: ce_ok_def)

lemma ce_ok_lock [simp]: "ce_ok (c\<lparr>cc_lock := b\<rparr>) = ce_ok c"
  by (simp add: ce_ok_def)

lemma unat_succ: "(k :: u16) + 1 \<noteq> 0 \<Longrightarrow> unat (k + 1) = unat k + 1"
  using unatSuc [of k] by (simp add: add.commute)

text \<open>The operations on the endpoints of a client.\<close>

lemma ch_add_endpt_dup:
  "ce_ok c \<Longrightarrow> n \<in> ce_name ` set (ch_endpts c) \<Longrightarrow> ch_add_endpt n ti a1 a2 c = Some (-1, c)"
  using ce_ok_D(4) [of c] by (auto simp: ch_add_endpt_def find_idx_None)

lemma ch_add_endpt_new:
  assumes "ce_ok c" and "n \<notin> ce_name ` set (ch_endpts c)" and "ch_default_opts ti = Some os" and "ch_endpt_count c + 1 \<noteq> 0"
  defines "c' \<equiv> c\<lparr>ch_endpt_count := ch_endpt_count c + 1, ch_endpts := ch_endpts c @ [new_ch_endpt n ti os]\<rparr>"
  shows "ch_add_endpt n ti True True c = Some (0, c')" and "ce_ok c'"
proof -
  note D = ce_ok_D [OF assms(1)]
  have f: "find_idx (\<lambda>x. ce_name x = n) (ce_tab c) = None" using assms(2) D(4) by (auto simp: find_idx_None)
  show "ch_add_endpt n ti True True c = Some (0, c')"
    using f assms(3,4) D(4) by (simp add: ch_add_endpt_def Let_def c'_def)
  have "ch_match ti os" using assms(3) by (cases ti) auto
  then show "ce_ok c'" using assms(1,2) D(1,2,3) unat_succ [OF assms(4)] by (auto simp: ce_ok_def c'_def new_ch_endpt_def)
qed

lemma ch_del_endpt_cases:
  assumes "ce_ok c"
  shows "(\<exists>i. nc_server_ch_client_del_endpt_int (Some n) ti c
        = (0, c\<lparr>ch_endpt_count := ch_endpt_count c - 1, ch_endpts := swap_remove i (ch_endpts c)\<rparr>, pending (ch_endpts c ! i)) \<and>
      i < length (ch_endpts c) \<and> ce_name (ch_endpts c ! i) = n \<and>
      ce_ok (c\<lparr>ch_endpt_count := ch_endpt_count c - 1, ch_endpts := swap_remove i (ch_endpts c)\<rparr>)) \<or>
    nc_server_ch_client_del_endpt_int (Some n) ti c = (-1, c, []) \<and>
      (\<forall>x \<in> set (ch_endpts c). ce_name x = n \<longrightarrow> ti \<noteq> NC_TI_NONE \<and> ti \<noteq> ce_ti x)"
proof (cases "find_idx (\<lambda>x. ce_name x = n \<and> (ti = NC_TI_NONE \<or> ti = ce_ti x)) (ch_endpts c)")
  case None
  then have "nc_server_ch_client_del_endpt_int (Some n) ti c = (-1, c, [])"
    using ce_ok_D(4) [OF assms] by (simp add: nc_server_ch_client_del_endpt_int_def)
  moreover have "\<forall>x \<in> set (ch_endpts c). ce_name x = n \<longrightarrow> ti \<noteq> NC_TI_NONE \<and> ti \<noteq> ce_ti x"
    using None by (auto simp: find_idx_None)
  ultimately show ?thesis by blast
next
  case (Some i)
  note D = ce_ok_D [OF assms]
  have i: "i < length (ch_endpts c)" "ce_name (ch_endpts c ! i) = n" using find_idx_Some_bound [OF Some] by auto
  have nz: "ch_endpt_count c \<noteq> 0" using i(1) D(1) by auto
  have "ce_ok (c\<lparr>ch_endpt_count := ch_endpt_count c - 1, ch_endpts := swap_remove i (ch_endpts c)\<rparr>)"
    using D(1,3) by_name_swap_remove(1) [OF D(2) i(1)] set_swap_remove [OF i(1)] unat_pred [OF nz] by (auto simp: ce_ok_def)
  then show ?thesis using Some i D(4) by (auto simp: nc_server_ch_client_del_endpt_int_def)
qed

interpretation ch_endpt_table: name_table ch_endpts ce_name ce_ok
  "\<lambda>n ti. ch_add_endpt n ti True True"
  "\<lambda>n c. case nc_server_ch_client_del_endpt_int (Some n) NC_TI_NONE c of (r, c', _) \<Rightarrow> (r, c')"
  ch_has_endpt "\<lambda>ti c. ch_default_opts ti \<noteq> None \<and> ch_endpt_count c + 1 \<noteq> 0"
  "\<lambda>n ti c. new_ch_endpt n ti (the (ch_default_opts ti))"
proof (unfold_locales, goal_cases)
  case (1 c)
  then show ?case by (rule ce_ok_D(2))
next
  case (4 c ti n)
  then show ?case using ch_add_endpt_new [of c n ti] by auto
next
  case (5 c n)
  then show ?case using ch_del_endpt_cases [OF 5(1), of n NC_TI_NONE] by auto
next
  case (6 c n)
  then show ?case using ch_del_endpt_cases [OF 6(1), of n NC_TI_NONE] by auto
next
  case (7 c n)
  then show ?case using ce_ok_D(4) [OF 7] by (auto simp: ch_has_endpt_def find_idx_None)
qed (auto simp: new_ch_endpt_def intro: ch_add_endpt_dup)

text \<open>The operations on the table of clients.\<close>

lemma ch_add_client_dup:
  assumes "ch_ok S" and "n \<in> cc_name ` set (ch_clients S)"
  shows "nc_server_ch_add_client (Some n) a S = Some (-1, S)"
proof -
  have "find_idx (\<lambda>c. cc_name c = n) (cl_tab S) \<noteq> None" using assms ch_ok_D(8) [OF assms(1)] by (auto simp: find_idx_None)
  moreover have "S\<lparr>ch_client_lk := RW_free\<rparr> = S" using ch_ok_D(7) [OF assms(1)] by simp
  ultimately show ?thesis by (simp add: nc_server_ch_add_client_def)
qed

lemma ch_add_client_new:
  assumes "ch_ok S" and "n \<notin> cc_name ` set (ch_clients S)" and "ch_client_count S + 1 \<noteq> 0" and "new_client_id S + 1 \<noteq> 0"
  defines "S' \<equiv> S\<lparr>ch_client_count := ch_client_count S + 1, ch_clients := ch_clients S @ [new_client n (new_client_id S)],
                  new_client_id := new_client_id S + 1\<rparr>"
  shows "nc_server_ch_add_client (Some n) True S = Some (0, S')" and "ch_ok S'"
proof -
  note D = ch_ok_D [OF assms(1)]
  have f: "find_idx (\<lambda>c. cc_name c = n) (cl_tab S) = None" using assms(2) D(8) by (auto simp: find_idx_None)
  show "nc_server_ch_add_client (Some n) True S = Some (0, S')"
    using f assms(3) D(7,8) by (simp add: nc_server_ch_add_client_def Let_def S'_def)
  have lt: "new_client_id S < new_client_id S + 1" using assms(4) unatSuc [of "new_client_id S"] by (simp add: word_less_nat_alt add.commute)
  then have "cc_id c < new_client_id S + 1" if "c \<in> set (ch_clients S)" for c using D(6) [OF that] by simp
  moreover have "new_client_id S \<notin> cc_id ` set (ch_clients S)" using D(6) by fastforce
  ultimately show "ch_ok S'"
    using D lt assms(2) unat_succ [OF assms(3)] by (auto simp: ch_ok_def S'_def new_client_def ce_ok_def)
qed

lemma ch_ok_update:
  assumes "ch_ok S" and "i < length (ch_clients S)" and "ce_ok c" and "\<not> cc_lock c"
    and "cc_name c = cc_name (ch_clients S ! i)" and "cc_id c = cc_id (ch_clients S ! i)"
  shows "ch_ok (S\<lparr>ch_clients := (ch_clients S)[i := c]\<rparr>)"
proof -
  note D = ch_ok_D [OF assms(1)]
  have n: "map cc_name ((ch_clients S)[i := c]) = map cc_name (ch_clients S)" and d: "map cc_id ((ch_clients S)[i := c]) = map cc_id (ch_clients S)"
    using assms(2,5,6) by (metis list_update_id map_update)+
  have "ce_ok x \<and> \<not> cc_lock x \<and> cc_id x < new_client_id S" if "x \<in> set ((ch_clients S)[i := c])" for x
    using subsetD [OF set_update_subset_insert that] assms(2-4,6) D(4-6) by auto
  then show ?thesis using D(1-3,7) n d by (simp add: ch_ok_def)
qed

lemma ch_del_client_cases:
  assumes "ch_ok S"
  shows "(\<exists>i. nc_server_ch_del_client (Some n) S
        = (0, S\<lparr>ch_client_count := ch_client_count S - 1, ch_clients := swap_remove i (ch_clients S)\<rparr>) \<and>
      i < length (ch_clients S) \<and> cc_name (ch_clients S ! i) = n \<and>
      ch_ok (S\<lparr>ch_client_count := ch_client_count S - 1, ch_clients := swap_remove i (ch_clients S)\<rparr>)) \<or>
    nc_server_ch_del_client (Some n) S = (-1, S) \<and> n \<notin> cc_name ` set (ch_clients S)"
proof (cases "find_idx (\<lambda>c. cc_name c = n) (ch_clients S)")
  case None
  moreover have "S\<lparr>ch_client_lk := RW_free\<rparr> = S" using ch_ok_D(7) [OF assms] by simp
  ultimately have "nc_server_ch_del_client (Some n) S = (-1, S)"
    using ch_ok_D(8) [OF assms] by (simp add: nc_server_ch_del_client_def)
  moreover have "n \<notin> cc_name ` set (ch_clients S)" using None by (auto simp: find_idx_None)
  ultimately show ?thesis by blast
next
  case (Some i)
  note D = ch_ok_D [OF assms]
  have i: "i < length (ch_clients S)" "cc_name (ch_clients S ! i) = n" using find_idx_Some_bound [OF Some] by auto
  have nz: "ch_client_count S \<noteq> 0" using i(1) D(1) by auto
  have "distinct (map cc_id (swap_remove i (ch_clients S)))"
    using distinct_swap_remove [of i "map cc_id (ch_clients S)"] D(3) i(1) by (simp add: swap_remove_map)
  then have "ch_ok (S\<lparr>ch_client_count := ch_client_count S - 1, ch_clients := swap_remove i (ch_clients S)\<rparr>)"
    using D(1,4-7) by_name_swap_remove(1) [OF D(2) i(1)] set_swap_remove [OF i(1)] unat_pred [OF nz]
    by (auto simp: ch_ok_def)
  moreover have "nc_server_ch_del_client (Some n) S
      = (0, S\<lparr>ch_client_count := ch_client_count S - 1, ch_clients := swap_remove i (ch_clients S)\<rparr>)"
    using Some D(7,8) by (simp add: nc_server_ch_del_client_def)
  ultimately show ?thesis using i by blast
qed

interpretation client_table: name_table ch_clients cc_name ch_ok
  "\<lambda>n (_ :: unit). nc_server_ch_add_client (Some n) True" "\<lambda>n. nc_server_ch_del_client (Some n)"
  "\<lambda>n S. fst (nc_server_ch_is_client (Some n) S)" "\<lambda>_ S. ch_client_count S + 1 \<noteq> 0 \<and> new_client_id S + 1 \<noteq> 0"
  "\<lambda>n _ S. new_client n (new_client_id S)"
proof (unfold_locales, goal_cases)
  case (1 S)
  then show ?case by (rule ch_ok_D(2))
next
  case (4 S a n)
  then show ?case using ch_add_client_new [of S n] by auto
next
  case (5 S n)
  then show ?case using ch_del_client_cases [OF 5(1), of n] by auto
next
  case (6 S n)
  then show ?case using ch_del_client_cases [OF 6(1), of n] by auto
next
  case (7 S n)
  then show ?case using ch_ok_D(8) [OF 7] by (auto simp: nc_server_ch_is_client_def find_idx_None)
qed (auto simp: new_client_def intro: ch_add_client_dup)

section \<open>Every operation keeps the invariant\<close>

lemma ch_lock_client:
  assumes "ch_ok S"
  shows "(n \<notin> cc_name ` set (ch_clients S) \<and> nc_server_ch_client_lock (Some n) e ti S = (None, None, S)) \<or>
    (\<exists>i. i < length (ch_clients S) \<and> cc_name (ch_clients S ! i) = n \<and> find_idx (\<lambda>c. cc_name c = n) (ch_clients S) = Some i)"
proof (cases "find_idx (\<lambda>c. cc_name c = n) (ch_clients S)")
  case None
  then have "n \<notin> cc_name ` set (ch_clients S)" by (auto simp: find_idx_None)
  then show ?thesis using None ch_ok_D(7,8) [OF assms] by (simp add: nc_server_ch_client_lock_def)
next
  case (Some i)
  then show ?thesis using find_idx_Some_bound [OF Some] by simp
qed

lemma with_ch_client_ok:
  assumes "ch_ok S"
    and "\<And>c. c \<in> set (ch_clients S) \<Longrightarrow> cc_name c = n \<Longrightarrow> \<exists>r c'. f (c\<lparr>cc_lock := True\<rparr>) = Some (r, c') \<and> ce_ok c' \<and>
      cc_name c' = n \<and> cc_id c' = cc_id c \<and> (r \<noteq> 0 \<longrightarrow> c' = c\<lparr>cc_lock := True\<rparr>)"
  shows "\<exists>r S'. with_ch_client (Some n) f S = Some (r, S') \<and> ch_ok S' \<and> (r \<noteq> 0 \<longrightarrow> S' = S)"
  using ch_lock_client [OF assms(1), of n None NC_TI_NONE]
proof (elim disjE exE conjE)
  assume "nc_server_ch_client_lock (Some n) None NC_TI_NONE S = (None, None, S)"
  then show ?thesis using assms(1) by (simp add: with_ch_client_def)
next
  fix i assume i: "i < length (ch_clients S)" "cc_name (ch_clients S ! i) = n" "find_idx (\<lambda>c. cc_name c = n) (ch_clients S) = Some i"
  note D = ch_ok_D [OF assms(1)]
  let ?c = "ch_clients S ! i"
  have m: "?c \<in> set (ch_clients S)" using i(1) by simp
  obtain r c' where f: "f (?c\<lparr>cc_lock := True\<rparr>) = Some (r, c')" "ce_ok c'" "cc_name c' = n" "cc_id c' = cc_id ?c"
    "r \<noteq> 0 \<longrightarrow> c' = ?c\<lparr>cc_lock := True\<rparr>" using assms(2) [OF m i(2)] by auto
  have "nc_server_ch_client_lock (Some n) None NC_TI_NONE S
      = (Some i, None, S\<lparr>ch_client_lk := RW_read, ch_clients := (ch_clients S)[i := ?c\<lparr>cc_lock := True\<rparr>]\<rparr>)"
    using i(3) D(8) by (simp add: nc_server_ch_client_lock_def)
  then have w: "with_ch_client (Some n) f S = Some (r, S\<lparr>ch_clients := (ch_clients S)[i := c'\<lparr>cc_lock := False\<rparr>]\<rparr>)"
    using f(1) i(1) D(7) by (simp add: with_ch_client_def nc_server_ch_client_unlock_def)
  have "ch_ok (S\<lparr>ch_clients := (ch_clients S)[i := c'\<lparr>cc_lock := False\<rparr>]\<rparr>)"
    by (rule ch_ok_update [OF assms(1) i(1)]) (use f i(2) in simp_all)
  moreover have "?c\<lparr>cc_lock := False\<rparr> = ?c" using D(5) [OF m] by simp
  then have "r \<noteq> 0 \<Longrightarrow> S\<lparr>ch_clients := (ch_clients S)[i := c'\<lparr>cc_lock := False\<rparr>]\<rparr> = S" using f(5) by simp
  ultimately show ?thesis using w by blast
qed

lemma with_ch_endpt_ok:
  assumes "ch_ok S"
    and "\<And>c. c \<in> set (ch_clients S) \<Longrightarrow> cc_name c = n \<Longrightarrow> m \<in> ce_name ` set (ch_endpts c)"
    and "\<And>x. ch_match (ce_ti x) (ce_opts x) \<Longrightarrow> \<exists>y. f x = Some (0, y) \<and> ce_name y = ce_name x \<and> ch_match (ce_ti y) (ce_opts y)"
  shows "\<exists>r S'. with_ch_endpt (Some n) (Some m) NC_TI_NONE f S = Some (r, S') \<and> ch_ok S' \<and> (r \<noteq> 0 \<longrightarrow> S' = S)"
  using ch_lock_client [OF assms(1), of n "Some m" NC_TI_NONE]
proof (elim disjE exE conjE)
  assume "nc_server_ch_client_lock (Some n) (Some m) NC_TI_NONE S = (None, None, S)"
  then show ?thesis using assms(1) by (simp add: with_ch_endpt_def)
next
  fix i assume i: "i < length (ch_clients S)" "cc_name (ch_clients S ! i) = n" "find_idx (\<lambda>c. cc_name c = n) (ch_clients S) = Some i"
  note D = ch_ok_D [OF assms(1)]
  let ?c = "ch_clients S ! i"
  have mem: "?c \<in> set (ch_clients S)" using i(1) by simp
  note C = ce_ok_D [OF D(4) [OF mem]]
  obtain j where j: "find_idx (\<lambda>x. ce_name x = m) (ch_endpts ?c) = Some j"
    using assms(2) [OF mem i(2)] find_idx_ex [of _ "ch_endpts ?c" "\<lambda>x. ce_name x = m"] by blast
  then have jl: "j < length (ch_endpts ?c)" "ce_name (ch_endpts ?c ! j) = m" using find_idx_Some_bound [OF j] by auto
  have "ch_match (ce_ti (ch_endpts ?c ! j)) (ce_opts (ch_endpts ?c ! j))" using C(3) jl(1) by simp
  then obtain y where y: "f (ch_endpts ?c ! j) = Some (0, y)" "ce_name y = ce_name (ch_endpts ?c ! j)" "ch_match (ce_ti y) (ce_opts y)"
    using assms(3) by blast
  let ?d = "?c\<lparr>ch_endpts := (ch_endpts ?c)[j := y]\<rparr>"
  have l: "nc_server_ch_client_lock (Some n) (Some m) NC_TI_NONE S
      = (Some i, Some j, S\<lparr>ch_client_lk := RW_read, ch_clients := (ch_clients S)[i := ?c\<lparr>cc_lock := True\<rparr>]\<rparr>)"
    using i(3) j D(8) C(4) by (simp add: nc_server_ch_client_lock_def)
  have nl: "\<not> cc_lock ?c" using D(5) [OF mem] .
  have dl: "?c\<lparr>ch_endpts := (ch_endpts ?c)[j := y], cc_lock := False\<rparr> = ?d" using nl by (cases "ch_clients S ! i") simp
  have w: "with_ch_endpt (Some n) (Some m) NC_TI_NONE f S = Some (0, S\<lparr>ch_clients := (ch_clients S)[i := ?d]\<rparr>)"
    using l y(1) i(1) D(7) dl by (simp add: with_ch_endpt_def nc_server_ch_client_unlock_def Let_def)
  have "ce_ok ?d"
    using C(1) by_name_update(2) [OF C(2) jl(1) y(2)] C(2) subsetD [OF set_update_subset_insert, of _ "ch_endpts ?c" j y] C(3) y(3)
    by (auto simp: ce_ok_def)
  then have "ch_ok (S\<lparr>ch_clients := (ch_clients S)[i := ?d]\<rparr>)" by (intro ch_ok_update [OF assms(1) i(1)]) (use nl in simp_all)
  then show ?thesis using w by blast
qed

datatype ch_op =
    Ch_add string | Ch_del "string option"
  | Ch_add_endpt string string nc_ti | Ch_del_endpt string "string option" nc_ti
  | Ch_address string string string | Ch_port string string u16
  | Ch_keepalive string string bool | Ch_keepalives string string int int int
  | Ch_conn_type string nc_ch_conn_type | Ch_period string u16 | Ch_anchor string int | Ch_idle string u16
  | Ch_start string nc_ch_start_with | Ch_attempts string u8

fun ch_run :: "ch_op \<Rightarrow> nc_server_opts \<Rightarrow> (int \<times> nc_server_opts) option" where
  "ch_run (Ch_add n) S = nc_server_ch_add_client (Some n) True S"
| "ch_run (Ch_del no) S = Some (nc_server_ch_del_client no S)"
| "ch_run (Ch_add_endpt n m ti) S = nc_server_ch_client_add_endpt (Some n) (Some m) ti True True S"
| "ch_run (Ch_del_endpt n mo ti) S = nc_server_ch_client_del_endpt (Some n) mo ti S"
| "ch_run (Ch_address n m a) S = nc_server_ch_client_endpt_set_address (Some n) (Some m) (Some a) True S"
| "ch_run (Ch_port n m p) S = nc_server_ch_client_endpt_set_port (Some n) (Some m) p S"
| "ch_run (Ch_keepalive n m b) S = nc_server_ch_client_endpt_enable_keepalives (Some n) (Some m) b S"
| "ch_run (Ch_keepalives n m i k p) S = nc_server_ch_client_endpt_set_keepalives (Some n) (Some m) i k p S"
| "ch_run (Ch_conn_type n ct) S = nc_server_ch_client_set_conn_type (Some n) ct S"
| "ch_run (Ch_period n p) S = nc_server_ch_client_periodic_set_period (Some n) p S"
| "ch_run (Ch_anchor n t) S = nc_server_ch_client_periodic_set_anchor_time (Some n) t S"
| "ch_run (Ch_idle n t) S = nc_server_ch_client_periodic_set_idle_timeout (Some n) t S"
| "ch_run (Ch_start n sw) S = nc_server_ch_client_set_start_with (Some n) sw S"
| "ch_run (Ch_attempts n k) S = nc_server_ch_client_set_max_attempts (Some n) k S"

text \<open>What is asked of the caller: no counter is at its maximum, endpoints are added for a transport that can
  call home, and settings of an endpoint are made only for endpoints that exist.\<close>

definition has_all :: "string \<Rightarrow> string \<Rightarrow> nc_server_opts \<Rightarrow> bool" where
  "has_all n m S \<longleftrightarrow> (\<forall>c \<in> set (ch_clients S). cc_name c = n \<longrightarrow> m \<in> ce_name ` set (ch_endpts c))"

fun ch_allowed :: "ch_op \<Rightarrow> nc_server_opts \<Rightarrow> bool" where
  "ch_allowed (Ch_add n) S \<longleftrightarrow> ch_client_count S + 1 \<noteq> 0 \<and> new_client_id S + 1 \<noteq> 0"
| "ch_allowed (Ch_add_endpt n m ti) S \<longleftrightarrow> ch_default_opts ti \<noteq> None \<and> (\<forall>c \<in> set (ch_clients S). ch_endpt_count c + 1 \<noteq> 0)"
| "ch_allowed (Ch_address n m a) S \<longleftrightarrow> has_all n m S"
| "ch_allowed (Ch_port n m p) S \<longleftrightarrow> has_all n m S"
| "ch_allowed (Ch_keepalive n m b) S \<longleftrightarrow> has_all n m S"
| "ch_allowed (Ch_keepalives n m i k p) S \<longleftrightarrow> has_all n m S"
| "ch_allowed _ S \<longleftrightarrow> True"

lemma ch_del_any_ok:
  assumes "ch_ok S" and "nc_server_ch_del_client no S = (r, S')"
  shows "ch_ok S' \<and> (r \<noteq> 0 \<longrightarrow> S' = S)"
proof (cases no)
  case None
  note D = ch_ok_D [OF assms(1)]
  have r: "r = (if ch_client_count S = 0 then -1 else 0)" and S': "S' = S\<lparr>ch_clients := [], ch_client_count := 0\<rparr>"
    using assms(2) None D(7) by (auto simp: nc_server_ch_del_client_def)
  have "ch_ok S'" using D(7) by (simp add: S' ch_ok_def)
  moreover have "S' = S" if "ch_client_count S = 0"
  proof -
    have "ch_clients S = []" using that D(1) by simp
    then show ?thesis using that by (simp add: S')
  qed
  ultimately show ?thesis using r by auto
next
  case (Some n)
  then show ?thesis using ch_del_client_cases [OF assms(1), of n] assms by auto
qed

lemma ch_periodic_ok:
  assumes "ch_ok S" and "\<And>c. ce_ok (g c) = ce_ok c \<and> cc_name (g c) = cc_name c \<and> cc_id (g c) = cc_id c"
  shows "\<exists>r S'. with_ch_client (Some n) (on_periodic g) S = Some (r, S') \<and> ch_ok S' \<and> (r \<noteq> 0 \<longrightarrow> S' = S)"
  by (rule with_ch_client_ok [OF assms(1)]) (use assms(2) ch_ok_D(4) [OF assms(1)] in \<open>auto simp: on_periodic_def\<close>)

lemma ch_setting_ok:
  assumes "ch_ok S" and "\<And>c. ce_ok (g c) = ce_ok c \<and> cc_name (g c) = cc_name c \<and> cc_id (g c) = cc_id c"
  shows "\<exists>r S'. with_ch_client (Some n) (\<lambda>c. Some (0, g c)) S = Some (r, S') \<and> ch_ok S' \<and> (r \<noteq> 0 \<longrightarrow> S' = S)"
  by (rule with_ch_client_ok [OF assms(1)]) (use assms(2) ch_ok_D(4) [OF assms(1)] in auto)

lemma ce_ok_set [simp]:
  "ce_ok (c\<lparr>conn_type := a\<rparr>) = ce_ok c" "ce_ok (c\<lparr>period := b\<rparr>) = ce_ok c" "ce_ok (c\<lparr>anchor_time := t\<rparr>) = ce_ok c"
  "ce_ok (c\<lparr>idle_timeout := b\<rparr>) = ce_ok c" "ce_ok (c\<lparr>start_with := sw\<rparr>) = ce_ok c" "ce_ok (c\<lparr>max_attempts := k\<rparr>) = ce_ok c"
  by (simp_all add: ce_ok_def)

lemma ch_del_int_ok:
  assumes "ce_ok c"
  shows "\<exists>r c' p. nc_server_ch_client_del_endpt_int mo ti c = (r, c', p) \<and> ce_ok c' \<and> cc_name c' = cc_name c \<and> cc_id c' = cc_id c \<and>
    (r \<noteq> 0 \<longrightarrow> c' = c)"
proof (cases mo)
  case None
  then show ?thesis by (simp add: nc_server_ch_client_del_endpt_int_def ce_ok_def)
next
  case (Some m)
  then show ?thesis using ch_del_endpt_cases [OF assms, of m ti] assms by auto
qed

lemma ch_step_ok:
  assumes "ch_ok S" and "ch_allowed op S"
  shows "\<exists>r S'. ch_run op S = Some (r, S') \<and> ch_ok S' \<and> (r \<noteq> 0 \<longrightarrow> S' = S)"
proof -
  have ep: "\<exists>r S'. with_ch_endpt (Some n) (Some m) NC_TI_NONE (\<lambda>x. Some (0, g x)) S = Some (r, S') \<and> ch_ok S' \<and> (r \<noteq> 0 \<longrightarrow> S' = S)"
    if "has_all n m S" "\<And>x. ce_name (g x) = ce_name x \<and> ce_ti (g x) = ce_ti x \<and> ce_opts (g x) = ce_opts x" for n m g
    by (rule with_ch_endpt_ok [OF assms(1)]) (use that in \<open>auto simp: has_all_def\<close>)
  show ?thesis
  proof (cases op)
    case (Ch_add n)
    then have "ch_client_count S + 1 \<noteq> 0 \<and> new_client_id S + 1 \<noteq> 0" using assms(2) by simp
    from client_table.add_map [OF assms(1) this, of n] show ?thesis
      unfolding Ch_add ch_run.simps by (metis (no_types, lifting))
  next
    case (Ch_del no)
    then show ?thesis using ch_del_any_ok [OF assms(1), of no] by (cases "nc_server_ch_del_client no S") auto
  next
    case (Ch_add_endpt n m ti)
    then obtain os where os: "ch_default_opts ti = Some os" "ti \<noteq> NC_TI_NONE"
      using assms(2) by (cases ti) auto
    have "\<exists>r S'. with_ch_client (Some n) (ch_add_endpt m ti True True) S = Some (r, S') \<and> ch_ok S' \<and> (r \<noteq> 0 \<longrightarrow> S' = S)"
    proof (rule with_ch_client_ok [OF assms(1)])
      fix c assume c: "c \<in> set (ch_clients S)" "cc_name c = n"
      let ?c = "c\<lparr>cc_lock := True\<rparr>"
      have "ce_ok ?c" "ch_endpt_count ?c + 1 \<noteq> 0" using ch_ok_D(4) [OF assms(1) c(1)] assms(2) Ch_add_endpt c(1) by simp_all
      then show "\<exists>r c'. ch_add_endpt m ti True True ?c = Some (r, c') \<and> ce_ok c' \<and> cc_name c' = n \<and> cc_id c' = cc_id c \<and> (r \<noteq> 0 \<longrightarrow> c' = ?c)"
        using ch_add_endpt_dup [of ?c m ti True True] ch_add_endpt_new [of ?c m, OF _ _ os(1)] c(2)
        by (cases "m \<in> ce_name ` set (ch_endpts ?c)") auto
    qed
    then show ?thesis using Ch_add_endpt os(2) by (simp add: nc_server_ch_client_add_endpt_def)
  next
    case (Ch_del_endpt n mo ti)
    have "\<exists>r S'. with_ch_client (Some n) (\<lambda>c. case nc_server_ch_client_del_endpt_int mo ti c of (r, c', _) \<Rightarrow> Some (r, c')) S
        = Some (r, S') \<and> ch_ok S' \<and> (r \<noteq> 0 \<longrightarrow> S' = S)"
    proof (rule with_ch_client_ok [OF assms(1)])
      fix c assume c: "c \<in> set (ch_clients S)" "cc_name c = n"
      have "ce_ok (c\<lparr>cc_lock := True\<rparr>)" using ch_ok_D(4) [OF assms(1) c(1)] by simp
      then show "\<exists>r c'. (case nc_server_ch_client_del_endpt_int mo ti (c\<lparr>cc_lock := True\<rparr>) of (r, c', _) \<Rightarrow> Some (r, c')) = Some (r, c') \<and>
          ce_ok c' \<and> cc_name c' = n \<and> cc_id c' = cc_id c \<and> (r \<noteq> 0 \<longrightarrow> c' = c\<lparr>cc_lock := True\<rparr>)"
        using ch_del_int_ok [of "c\<lparr>cc_lock := True\<rparr>" mo ti] c(2) by auto
    qed
    then show ?thesis using Ch_del_endpt by (simp add: nc_server_ch_client_del_endpt_def)
  next
    case (Ch_address n m a)
    then show ?thesis using ep [of n m "\<lambda>x. x\<lparr>ce_address := Some a\<rparr>"] assms(2)
      by (auto simp: nc_server_ch_client_endpt_set_address_def)
  next
    case (Ch_port n m p)
    then show ?thesis using ep [of n m "\<lambda>x. x\<lparr>ce_port := p\<rparr>"] assms by (auto simp: nc_server_ch_client_endpt_set_port_def)
  next
    case (Ch_keepalive n m b)
    then show ?thesis using ep [of n m "\<lambda>x. x\<lparr>ce_ka := (ce_ka x)\<lparr>ka_enabled := b\<rparr>\<rparr>"] assms(2)
      by (auto simp: nc_server_ch_client_endpt_enable_keepalives_def)
  next
    case (Ch_keepalives n m i k p)
    then show ?thesis using ep [of n m "\<lambda>x. x\<lparr>ce_ka := ka_update i k p (ce_ka x)\<rparr>"] assms(2)
      by (auto simp: nc_server_ch_client_endpt_set_keepalives_def)
  next
    case (Ch_conn_type n ct)
    then show ?thesis using ch_setting_ok [OF assms(1), of "\<lambda>c. if conn_type c = ct then c else if ct = NC_CH_PERIOD
          then c\<lparr>conn_type := ct, period := 60, anchor_time := 0, idle_timeout := 120\<rparr> else c\<lparr>conn_type := ct\<rparr>" n] assms(1)
      by (auto simp: nc_server_ch_client_set_conn_type_def)
  next
    case (Ch_period n p)
    then show ?thesis using ch_periodic_ok [OF assms(1), of "\<lambda>c. c\<lparr>period := p\<rparr>" n] assms(1)
      by (auto simp: nc_server_ch_client_periodic_set_period_def)
  next
    case (Ch_anchor n t)
    then show ?thesis using ch_periodic_ok [OF assms(1), of "\<lambda>c. c\<lparr>anchor_time := t\<rparr>" n]
      by (auto simp: nc_server_ch_client_periodic_set_anchor_time_def)
  next
    case (Ch_idle n t)
    then show ?thesis using ch_periodic_ok [OF assms(1), of "\<lambda>c. c\<lparr>idle_timeout := t\<rparr>" n]
      by (auto simp: nc_server_ch_client_periodic_set_idle_timeout_def)
  next
    case (Ch_start n sw)
    then show ?thesis using ch_setting_ok [OF assms(1), of "\<lambda>c. c\<lparr>start_with := sw\<rparr>" n]
      by (auto simp: nc_server_ch_client_set_start_with_def)
  next
    case (Ch_attempts n k)
    then show ?thesis using ch_setting_ok [OF assms(1), of "\<lambda>c. c\<lparr>max_attempts := k\<rparr>" n] assms(1)
      by (auto simp: nc_server_ch_client_set_max_attempts_def)
  qed
qed

fun ch_runs :: "ch_op list \<Rightarrow> nc_server_opts \<Rightarrow> (int list \<times> nc_server_opts) option" where
  "ch_runs [] S = Some ([], S)"
| "ch_runs (x # xs) S =
     (case ch_run x S of None \<Rightarrow> None
      | Some (r, S') \<Rightarrow> map_option (\<lambda>(rs, T). (r # rs, T)) (ch_runs xs S'))"

fun ch_all_allowed :: "ch_op list \<Rightarrow> nc_server_opts \<Rightarrow> bool" where
  "ch_all_allowed [] S \<longleftrightarrow> True"
| "ch_all_allowed (x # xs) S \<longleftrightarrow>
     ch_allowed x S \<and> (case ch_run x S of None \<Rightarrow> True | Some (r, S') \<Rightarrow> ch_all_allowed xs S')"

lemma no_opts_ch_ok: "ch_ok no_opts"
  by (simp add: ch_ok_def no_opts_def)


definition demo_ch_ops :: "ch_op list" where
  "demo_ch_ops =
     [Ch_add ''c'', Ch_add_endpt ''c'' ''e'' NC_TI_LIBSSH, Ch_address ''c'' ''e'' ''10.0.0.1'', Ch_port ''c'' ''e'' 4334, Ch_del (Some ''c''),
      Ch_add ''c'', Ch_conn_type ''c'' NC_CH_PERIOD, Ch_add_endpt ''c'' ''f'' NC_TI_OPENSSL]"


text \<open>C38: a setting for an endpoint that does not exist blocks the client for good. The lookup releases its
  locks for a missing endpoint only when a transport was given too; the setters that give none
  return the error with the read lock of the table and the lock of the client still held.\<close>

theorem missing_ch_endpt_keeps_locks:
  assumes "ch_ok S" and "i < length (ch_clients S)" and "cc_name (ch_clients S ! i) = n"
    and "m \<notin> ce_name ` set (ch_endpts (ch_clients S ! i))"
  shows "\<exists>S'. nc_server_ch_client_endpt_set_address (Some n) (Some m) (Some a) True S = Some (-1, S') \<and>
    nc_server_ch_client_endpt_set_port (Some n) (Some m) 830 S = Some (-1, S') \<and>
    ch_client_lk S' = RW_read \<and> cc_lock (ch_clients S' ! i)"
proof -
  note D = ch_ok_D [OF assms(1)]
  have "find_idx (\<lambda>c. cc_name c = n) (ch_clients S) = Some i"
    unfolding find_idx_Some using assms(2,3) D(2) by (auto simp: distinct_conv_nth)
  moreover have "ce_ok (ch_clients S ! i)" using D(4) assms(2) by simp
  note C = ce_ok_D(4) [OF this]
  have "find_idx (\<lambda>x. ce_name x = m) (ch_endpts (ch_clients S ! i)) = None" using assms(4) by (auto simp: find_idx_None)
  ultimately have "nc_server_ch_client_lock (Some n) (Some m) NC_TI_NONE S
      = (Some i, None, S\<lparr>ch_client_lk := RW_read, ch_clients := (ch_clients S)[i := (ch_clients S ! i)\<lparr>cc_lock := True\<rparr>]\<rparr>)"
    using D(8) C by (simp add: nc_server_ch_client_lock_def)
  then show ?thesis using assms(2)
    by (simp add: nc_server_ch_client_endpt_set_address_def nc_server_ch_client_endpt_set_port_def with_ch_endpt_def)
qed

theorem missing_ch_endpt_keeps_locks_witness:
  "\<exists>S S'. ch_runs [Ch_add ''c''] no_opts = Some ([0], S) \<and>
     nc_server_ch_client_endpt_set_address (Some ''c'') (Some ''e'') (Some ''h'') True S = Some (-1, S') \<and> ch_client_lk S' = RW_read"
proof -
  have a: "ch_all_allowed [Ch_add ''c''] no_opts" by code_simp
  obtain S where S: "ch_runs [Ch_add ''c''] no_opts = Some ([0], S)" "map cc_name (ch_clients S) = [''c'']" "map ch_endpts (ch_clients S) = [[]]"
  proof -
    have "map_option (\<lambda>(rs, S). (rs, map cc_name (ch_clients S), map ch_endpts (ch_clients S))) (ch_runs [Ch_add ''c''] no_opts)
      = Some ([0], [''c''], [[]])" by code_simp
    then show thesis using that by auto
  qed
  have "ch_ok S" using ch_step_ok [OF no_opts_ch_ok, of "Ch_add ''c''"] a S(1) by (auto split: option.splits)
  then show ?thesis using missing_ch_endpt_keeps_locks [of S 0 "''c''" "''e''" "''h''"] S by (auto simp: map_eq_Cons_conv)
qed

section \<open>The thread of a client\<close>

text \<open>The next endpoint to try after a session has ended. \<open>rnd\<close> is the result of \<^verbatim>\<open>rand\<close>.\<close>

definition ch_next_connected :: "nc_ch_client \<Rightarrow> string \<Rightarrow> nat \<Rightarrow> nat" where
  "ch_next_connected c cur rnd =
     (case start_with c of
        NC_CH_FIRST_LISTED \<Rightarrow> 0
      | NC_CH_LAST_CONNECTED \<Rightarrow> (case find_idx (\<lambda>x. ce_name x = cur) (ce_tab c) of None \<Rightarrow> 0 | Some i \<Rightarrow> i)
      | NC_CH_RANDOM \<Rightarrow> rnd mod unat (ch_endpt_count c))"

text \<open>The next endpoint after a failed attempt, with the number of attempts so far, and the client (a
  pending socket of an endpoint that is given up is closed).\<close>

definition ch_next_failed :: "nc_ch_client \<Rightarrow> string \<Rightarrow> u8 \<Rightarrow> nat \<times> u8 \<times> nc_ch_client" where
  "ch_next_failed c cur attempts =
     (let k = attempts + 1 in
      case find_idx (\<lambda>x. ce_name x = cur) (ce_tab c) of
        None \<Rightarrow> (0, 0, c)
      | Some i \<Rightarrow>
          if k = max_attempts c
          then (if int i < uint (ch_endpt_count c) - 1 then i + 1 else 0, 0,
                if -1 < ce_sock_pending (ch_endpts c ! i)
                then c\<lparr>ch_endpts := (ch_endpts c)[i := (ch_endpts c ! i)\<lparr>ce_sock_pending := -1\<rparr>]\<rparr> else c)
          else (i, k, c))"

text \<open>Seconds to sleep before a periodic client connects again; the subtraction and the remainder are done
  on \<^verbatim>\<open>time_t\<close> and stored in 32 bits.\<close>

definition ch_reconnect_in :: "nc_ch_client \<Rightarrow> int \<Rightarrow> u32" where
  "ch_reconnect_in c now =
     (if anchor_time c \<noteq> 0 then of_int ((now - anchor_time c) smod (uint (period c) * 60))
      else of_int (uint (period c) * 60))"

text \<open>
  One round: whether a session was established; the result of waiting for its end; the client as it is
  found when the lock is taken again (\<open>None\<close> when it is gone), and once more after the pause of
  a periodic client; a random number.
\<close>

record ch_round =
  cr_established :: bool
  cr_wait :: int
  cr_client :: "nc_ch_client option"
  cr_client2 :: "nc_ch_client option"
  cr_rand :: nat

text \<open>The loop of \<^verbatim>\<open>nc_ch_client_thread\<close>: the names of the endpoints it connects to.\<close>

fun ch_thread :: "u32 \<Rightarrow> string \<Rightarrow> u8 \<Rightarrow> ch_round list \<Rightarrow> string list" where
  "ch_thread client_id cur attempts [] = [cur]"
| "ch_thread client_id cur attempts (r # rs) =
     cur #
     (if cr_established r then
        if cr_wait r \<noteq> 0 then []
        else case cr_client r of None \<Rightarrow> []
        | Some c \<Rightarrow>
            if cc_id c \<noteq> client_id then []
            else case (if conn_type c = NC_CH_PERIOD then cr_client2 r else Some c) of None \<Rightarrow> []
            | Some c2 \<Rightarrow>
                if cc_id c2 \<noteq> client_id then []
                else ch_thread client_id (ce_name (ch_endpts c2 ! ch_next_connected c2 cur (cr_rand r))) attempts rs
      else
        case cr_client r of None \<Rightarrow> []
        | Some c \<Rightarrow>
            if cc_id c \<noteq> client_id then []
            else case ch_next_failed c cur attempts of (i, k, c') \<Rightarrow> ch_thread client_id (ce_name (ch_endpts c' ! i)) k rs)"

lemma ch_next_failed_names:
  assumes "ch_next_failed c cur k = (i, k', c')"
  shows "map ce_name (ch_endpts c') = map ce_name (ch_endpts c)"
proof -
  have "map ce_name ((ch_endpts c)[j := (ch_endpts c ! j)\<lparr>ce_sock_pending := -1\<rparr>]) = map ce_name (ch_endpts c)"
    if "j < length (ch_endpts c)" for j using that by (metis (no_types, lifting) list_update_id map_update nc_ch_endpt.select_convs(1)
        nc_ch_endpt.simps(1) nc_ch_endpt.surjective nc_ch_endpt.update_convs(5))
  moreover have "j < length (ch_endpts c)" if "find_idx (\<lambda>x. ce_name x = cur) (ce_tab c) = Some j" for j
    using find_idx_Some_bound [OF that] by simp
  ultimately show ?thesis using assms by (auto simp: ch_next_failed_def Let_def split: option.splits if_splits)
qed

text \<open>C25: the next endpoint always exists. Whatever happened to the endpoints of a client while the thread
  did not hold its lock, as long as the client has an endpoint, the index chosen after a
  session (first listed, last connected or random) and the one chosen after a failed attempt
  are within the array.\<close>

theorem ch_next_in_bounds:
  assumes "ce_ok c" and "ch_endpt_count c \<noteq> 0"
  shows "ch_next_connected c cur rnd < length (ch_endpts c) \<and> fst (ch_next_failed c cur k) < length (ch_endpts c)"
proof -
  note C = ce_ok_D [OF assms(1)]
  have n: "0 < length (ch_endpts c)" using C(1) assms(2) by (simp add: unat_gt_0)
  have f: "i < length (ch_endpts c)" if "find_idx (\<lambda>x. ce_name x = cur) (ce_tab c) = Some i" for i
    using find_idx_Some_bound [OF that] by simp
  have "ch_next_connected c cur rnd < length (ch_endpts c)"
    using n f C(1) by (auto simp: ch_next_connected_def split: nc_ch_start_with.split option.split)
  moreover have "i + 1 < length (ch_endpts c)" if "int i < uint (ch_endpt_count c) - 1" for i
    using that C(1) uint_nat [of "ch_endpt_count c"] by linarith
  then have "fst (ch_next_failed c cur k) < length (ch_endpts c)"
    using n f by (auto simp: ch_next_failed_def Let_def split: option.split)
  ultimately show ?thesis by blast
qed

text \<open>One failed attempt, on a client that does not change: the next attempt goes to the same endpoint until
  the limit is reached, then to the next one in the cycle.\<close>

lemma ch_failed_step:
  assumes "ce_ok c" and "i < length (ch_endpts c)" and "unat k < unat (max_attempts c)"
  shows "\<exists>c'. ch_next_failed c (ce_name (ch_endpts c ! i)) k =
      (if unat k + 1 = unat (max_attempts c) then ((i + 1) mod length (ch_endpts c), 0, c') else (i, k + 1, c))"
    and "unat k + 1 \<noteq> unat (max_attempts c) \<Longrightarrow> unat (k + 1) < unat (max_attempts c)"
proof -
  note C = ce_ok_D [OF assms(1)]
  have f: "find_idx (\<lambda>x. ce_name x = ce_name (ch_endpts c ! i)) (ce_tab c) = Some i"
    unfolding find_idx_Some C(4) using assms(2) C(2) by (auto simp: distinct_conv_nth)
  have "unat k + 1 < 2 ^ 8" using assms(3) unsigned_less [of "max_attempts c", where 'a = nat] by simp
  then have k1: "unat (k + 1) = unat k + 1" by (simp add: unat_word_ariths)
  then show "unat k + 1 \<noteq> unat (max_attempts c) \<Longrightarrow> unat (k + 1) < unat (max_attempts c)" using assms(3) by simp
  have eq: "k + 1 = max_attempts c \<longleftrightarrow> unat k + 1 = unat (max_attempts c)" using k1 by (metis unsigned_word_eqI)
  have "int i < uint (ch_endpt_count c) - 1 \<longleftrightarrow> i + 1 < length (ch_endpts c)" using C(1) uint_nat [of "ch_endpt_count c"] by linarith
  moreover have "(i + 1) mod length (ch_endpts c) = (if i + 1 < length (ch_endpts c) then i + 1 else 0)"
    using assms(2) by (auto simp: mod_if)
  ultimately show "\<exists>c'. ch_next_failed c (ce_name (ch_endpts c ! i)) k =
      (if unat k + 1 = unat (max_attempts c) then ((i + 1) mod length (ch_endpts c), 0, c') else (i, k + 1, c))"
    using f eq by (simp add: ch_next_failed_def Let_def)
qed

lemma ch_thread_failing:
  assumes "ce_ok c" and "\<forall>r \<in> set rs. \<not> cr_established r \<and> cr_client r = Some c"
    and "i < length (ch_endpts c)" and "unat k < unat (max_attempts c)" and "t \<le> length rs"
  shows "ch_thread (cc_id c) (ce_name (ch_endpts c ! i)) k rs ! t
    = ce_name (ch_endpts c ! ((i + (unat k + t) div unat (max_attempts c)) mod length (ch_endpts c)))"
  using assms(2-5)
proof (induction rs arbitrary: i k t)
  case (Cons r rs)
  let ?m = "unat (max_attempts c)" and ?n = "length (ch_endpts c)"
  show ?case
  proof (cases t)
    case 0
    then show ?thesis using Cons.prems(2,3) by simp
  next
    case (Suc t')
    have r: "\<not> cr_established r" "cr_client r = Some c" using Cons.prems(1) by auto
    obtain c' where c': "ch_next_failed c (ce_name (ch_endpts c ! i)) k =
        (if unat k + 1 = ?m then ((i + 1) mod ?n, 0, c') else (i, k + 1, c))"
      using ch_failed_step(1) [OF assms(1) Cons.prems(2,3)] by blast
    show ?thesis
    proof (cases "unat k + 1 = ?m")
      case True
      let ?j = "(i + 1) mod ?n"
      have j: "?j < ?n" using Cons.prems(2) by (metis gr_zeroI less_zeroE mod_less_divisor)
      have nf: "ch_next_failed c (ce_name (ch_endpts c ! i)) k = (?j, 0, c')" using c' True by simp
      have nm: "map ce_name (ch_endpts c') = map ce_name (ch_endpts c)" by (rule ch_next_failed_names [OF nf])
      then have "ce_name (ch_endpts c' ! ?j) = ce_name (ch_endpts c ! ?j)"
        using j by (metis length_map nth_map)
      then have "ch_thread (cc_id c) (ce_name (ch_endpts c ! i)) k (r # rs) ! t
          = ch_thread (cc_id c) (ce_name (ch_endpts c ! ?j)) 0 rs ! t'" using r nf Suc by simp
      also have "\<dots> = ce_name (ch_endpts c ! ((?j + (unat (0 :: u8) + t') div ?m) mod ?n))"
        by (rule Cons.IH) (use Cons.prems j Suc in auto)
      also have "(?j + (unat (0 :: u8) + t') div ?m) mod ?n = (i + (unat k + t) div ?m) mod ?n"
      proof -
        have "unat k + t = ?m + t'" using True Suc by simp
        moreover have "?m \<noteq> 0" using Cons.prems(3) by simp
        ultimately have "(unat k + t) div ?m = 1 + t' div ?m" using div_add_self1 [of ?m t'] by simp
        then show ?thesis by (simp add: mod_add_left_eq add.assoc)
      qed
      finally show ?thesis .
    next
      case False
      have nf: "ch_next_failed c (ce_name (ch_endpts c ! i)) k = (i, k + 1, c)" using c' False by simp
      have lt: "unat (k + 1) < ?m" by (rule ch_failed_step(2) [OF assms(1) Cons.prems(2,3) False])
      have "unat k + 1 < 2 ^ 8" using Cons.prems(3) unsigned_less [of "max_attempts c", where 'a = nat] by simp
      then have k1: "unat (k + 1) = unat k + 1" by (simp add: unat_word_ariths)
      have "ch_thread (cc_id c) (ce_name (ch_endpts c ! i)) k (r # rs) ! t
          = ch_thread (cc_id c) (ce_name (ch_endpts c ! i)) (k + 1) rs ! t'" using r nf Suc by simp
      also have "\<dots> = ce_name (ch_endpts c ! ((i + (unat (k + 1) + t') div ?m) mod ?n))"
        by (rule Cons.IH) (use Cons.prems lt Suc in auto)
      finally show ?thesis using k1 Suc by simp
    qed
  qed
qed (simp add: mod_less)


definition demo_client :: nc_ch_client where
  "demo_client = (new_client ''c'' 1)\<lparr>ch_endpts := map (\<lambda>n. new_ch_endpt n NC_TI_LIBSSH (Ssh_opts ssh_defaults)) [''a'', ''b''],
     ch_endpt_count := 2\<rparr>"

definition demo_round :: "bool \<Rightarrow> ch_round" where
  "demo_round b = \<lparr>cr_established = b, cr_wait = 0, cr_client = Some demo_client, cr_client2 = None, cr_rand = 0\<rparr>"

lemma demo_client_ok: "ce_ok demo_client" "ch_endpt_count demo_client \<noteq> 0" "max_attempts demo_client \<noteq> 0" "cc_id demo_client = 1"
  by (simp_all add: demo_client_def ce_ok_def new_client_def new_ch_endpt_def)

theorem ch_next_in_bounds_witness:
  "ch_next_connected demo_client ''gone'' 7 < 2 \<and> fst (ch_next_failed demo_client ''b'' 2) < 2"
proof -
  have "length (ch_endpts demo_client) = 2" by (simp add: demo_client_def)
  then show ?thesis
    using ch_next_in_bounds [OF demo_client_ok(1,2), of "''gone''" 7 2] ch_next_in_bounds [OF demo_client_ok(1,2), of "''b''" 7 2] by simp
qed


text \<open>The count of attempts is not reset by a session: after two failures, a session and one more failure the
  thread gives up the endpoint, although the limit is three.\<close>

lemma attempts_not_reset:
  "ch_thread 1 ''a'' 0 (map demo_round [False, False, True, False]) = [''a'', ''a'', ''a'', ''a'', ''b'']"
  by code_simp

text \<open>An anchored periodic client sleeps for the time since the last anchored instant, not for the time to
  the next one: 10 seconds after the anchor, with a period of one minute, it connects at 20.\<close>

lemma anchored_reconnect_wrong:
  "ch_reconnect_in (demo_client\<lparr>conn_type := NC_CH_PERIOD, period := 1, anchor_time := 1000\<rparr>) 1010 = 10"
  by code_simp

section \<open>Waiting\<close>

text \<open>\<^verbatim>\<open>nc_server_ch_client_with_endpt_lock\<close> looks at the options again and again (in the states they are in at
  those times) until the client has an endpoint or is gone.\<close>

fun nc_server_ch_client_with_endpt_lock :: "string \<Rightarrow> nc_server_opts list \<Rightarrow> (nat option \<times> nc_server_opts) option" where
  "nc_server_ch_client_with_endpt_lock n [] = None"
| "nc_server_ch_client_with_endpt_lock n (S # Ss) =
     (case nc_server_ch_client_lock (Some n) None NC_TI_NONE S of
        (None, _, S1) \<Rightarrow> Some (None, S1)
      | (Some i, _, S1) \<Rightarrow>
          if ch_endpt_count (ch_clients S1 ! i) \<noteq> 0 then Some (Some i, S1)
          else nc_server_ch_client_with_endpt_lock n Ss)"

text \<open>A wake-up of the thread that waits for the end of a session: the result of the wait, the session as it
  is then, the client (\<open>None\<close> when it was removed), the time.\<close>

record ch_wake =
  cw_res :: lock_res
  cw_sess :: nc_session
  cw_client :: "nc_ch_client option"
  cw_now :: int

fun ch_wait_loop :: "ch_wake list \<Rightarrow> (int \<times> nc_session) option" where
  "ch_wait_loop [] = None"
| "ch_wait_loop (w # ws) =
     (let s = cw_sess w in
      if cw_res w = LK_OK \<and> status s \<noteq> NC_STATUS_RUNNING then Some (0, s)
      else if cw_res w \<noteq> LK_OK \<and> cw_res w \<noteq> LK_ETIMEDOUT then Some (-1, s)
      else case cw_client w of None \<Rightarrow> Some (1, s)
      | Some c \<Rightarrow>
          let it = (if conn_type c = NC_CH_PERIOD then uint (idle_timeout c) else 0);
              s' = (if nc_session_get_notif_status (Some s) = 0 \<and> it \<noteq> 0 \<and> cw_now w \<ge> last_rpc s + it
                    then invalidate NC_SESSION_TERM_TIMEOUT s else s)
          in if status s' = NC_STATUS_RUNNING then ch_wait_loop ws else Some (0, s'))"

text \<open>\<open>clb_ret\<close> is what the application's callback returns; when it refuses the session, the session is
  freed (\<open>None\<close>).\<close>

definition nc_server_ch_client_thread_session_cond_wait ::
  "int \<Rightarrow> ch_wake list \<Rightarrow> nc_session \<Rightarrow> (int \<times> nc_session option) option"
where
  "nc_server_ch_client_thread_session_cond_wait clb_ret ws s =
     (if clb_ret \<noteq> 0 then Some (0, None)
      else map_option (\<lambda>(r, s'). (r, Some (s'\<lparr>flags := flags s' AND NOT NC_SESSION_CH_THREAD\<rparr>))) (ch_wait_loop ws))"

lemma ch_wait_loop_zero: "ch_wait_loop ws = Some (0, s) \<Longrightarrow> status s \<noteq> NC_STATUS_RUNNING"
  by (induction ws) (auto simp: Let_def split: if_splits option.splits)

text \<open>When the thread goes on to connect again, the session has ended or was given back, and in either case
  it is no longer marked as watched by the thread.\<close>

lemma ch_wait_done:
  assumes "nc_server_ch_client_thread_session_cond_wait clb ws s = Some (r, Some s')"
  shows "\<not> flag_set s' NC_SESSION_CH_THREAD" and "r = 0 \<Longrightarrow> status s' \<noteq> NC_STATUS_RUNNING"
proof -
  obtain t where t: "ch_wait_loop ws = Some (r, t)" "s' = t\<lparr>flags := flags t AND NOT NC_SESSION_CH_THREAD\<rparr>"
    using assms by (auto simp: nc_server_ch_client_thread_session_cond_wait_def split: if_splits)
  show "\<not> flag_set s' NC_SESSION_CH_THREAD"
    by (simp add: t(2) flag_set_def and.assoc)
  show "r = 0 \<Longrightarrow> status s' \<noteq> NC_STATUS_RUNNING" using ch_wait_loop_zero [of ws t] t by simp
qed

text \<open>\<^verbatim>\<open>nc_connect_ch_client_dispatch\<close>: whether the thread runs. The flags tell which arguments are given and
  how the allocations and the creation of the thread go.\<close>

definition nc_connect_ch_client_dispatch :: "string option \<Rightarrow> bool \<Rightarrow> bool \<Rightarrow> bool \<Rightarrow> bool \<Rightarrow> bool \<Rightarrow> bool \<Rightarrow> int \<times> bool" where
  "nc_connect_ch_client_dispatch name acquire_clb release_clb new_session_clb alloc alloc_name created =
     (if name = None \<or> \<not> acquire_clb \<or> \<not> release_clb \<or> \<not> new_session_clb then (-1, False)
      else if \<not> alloc then (-1, False)
      else if \<not> alloc_name then (-1, False)
      else if \<not> created then (-1, False)
      else (0, True))"

end
