(* ===== verification/NC_SshOpts.thy ===== *)
theory NC_SshOpts
  imports NC_CallHome
begin

text \<open>
  The SSH options of endpoints (\<^verbatim>\<open>session_server_ssh.c\<close>): the array of host keys, the authentication
  settings, and the table of authorized keys. The array of host keys is modelled slot by slot,
  so that moves of too few bytes and pointers to freed memory show: such slots hold \<open>Garbage\<close>,
  and code that reads one has no defined behaviour (\<open>None\<close>).
\<close>

section \<open>Access to the options\<close>

definition with_ssh ::
  "string option \<Rightarrow> (nc_server_ssh_opts \<Rightarrow> (int \<times> nc_server_ssh_opts) option) \<Rightarrow> nc_server_opts \<Rightarrow> (int \<times> nc_server_opts) option"
where
  "with_ssh name f S =
     with_endpt name NC_TI_LIBSSH
       (\<lambda>x. case ep_opts x of
              Ssh_opts o1 \<Rightarrow> map_option (\<lambda>(r, o2). (r, x\<lparr>ep_opts := Ssh_opts o2\<rparr>)) (f o1)
            | _ \<Rightarrow> None) S"

definition with_ch_ssh ::
  "string option \<Rightarrow> string option \<Rightarrow> (nc_server_ssh_opts \<Rightarrow> (int \<times> nc_server_ssh_opts) option) \<Rightarrow> nc_server_opts \<Rightarrow>
   (int \<times> nc_server_opts) option"
where
  "with_ch_ssh name ename f S =
     with_ch_endpt name ename NC_TI_LIBSSH
       (\<lambda>x. case ce_opts x of
              Ssh_opts o1 \<Rightarrow> map_option (\<lambda>(r, o2). (r, x\<lparr>ce_opts := Ssh_opts o2\<rparr>)) (f o1)
            | _ \<Rightarrow> None) S"

section \<open>Host keys\<close>

text \<open>The loop that compares names from the start: the index of the first match.\<close>

fun find_key :: "string \<Rightarrow> slot list \<Rightarrow> nat option option" where
  "find_key n [] = Some None"
| "find_key n (Garbage # ks) = None"
| "find_key n (Key k # ks) = (if k = n then Some (Some 0) else map_option (map_option Suc) (find_key n ks))"

text \<open>The slots the count speaks of; the array is missing after a failed allocation.\<close>

definition key_slots :: "nc_server_ssh_opts \<Rightarrow> slot list option" where
  "key_slots opts =
     (if length (hostkeys opts) < unat (hostkey_count opts) then None
      else Some (take (unat (hostkey_count opts)) (hostkeys opts)))"

text \<open>\<^verbatim>\<open>memmove(hostkeys + idx + 1, hostkeys + idx, n)\<close> moves \<open>n\<close> bytes; a slot has eight. A slot of which only
  some bytes are overwritten is no pointer any more.\<close>

definition move_up_bytes :: "nat \<Rightarrow> nat \<Rightarrow> slot list \<Rightarrow> slot list" where
  "move_up_bytes idx n ks =
     (let q = n div 8;
          moved = take (idx + 1) ks @ take q (drop idx ks) @ drop (idx + 1 + q) ks
      in if n mod 8 = 0 then moved else moved[idx + 1 + q := Garbage])"

text \<open>\<open>alloc\<close> is the outcome of \<^verbatim>\<open>nc_realloc\<close>. \<open>None\<close> when the 8-bit count wraps around, and where garbage is
  read.\<close>

definition nc_server_ssh_add_hostkey ::
  "string option \<Rightarrow> int \<Rightarrow> bool \<Rightarrow> nc_server_ssh_opts \<Rightarrow> (int \<times> nc_server_ssh_opts) option"
where
  "nc_server_ssh_add_hostkey name idx alloc opts =
     (case name of None \<Rightarrow> Some (-1, opts)
      | Some n \<Rightarrow>
          if uint (hostkey_count opts) < idx then Some (-1, opts)
          else case Option.bind (key_slots opts) (find_key n) of
                 None \<Rightarrow> None
               | Some (Some _) \<Rightarrow> Some (-1, opts)
               | Some None \<Rightarrow>
                   let cnt = hostkey_count opts + 1;
                       grown = take (unat (hostkey_count opts)) (hostkeys opts) @ [Garbage];
                       i = (if idx < 0 then unat cnt - 1 else nat idx);
                       moved = (if i \<noteq> unat cnt - 1 then move_up_bytes i (unat cnt - i) grown else grown)
                   in if cnt = 0 then None
                      else if \<not> alloc then Some (-1, opts\<lparr>hostkey_count := cnt, hostkeys := []\<rparr>)
                      else Some (0, opts\<lparr>hostkey_count := cnt, hostkeys := moved[i := Key n]\<rparr>))"

text \<open>Removing the entry at index \<open>i\<close>: its memory is freed, the count drops, and the following entries move
  down when there are at least two of them.\<close>

definition slot_remove :: "nat \<Rightarrow> slot list \<Rightarrow> slot list" where
  "slot_remove i ks =
     (let cnt = length ks - 1;
          freed = ks[i := Garbage];
          moved = (if int i < int cnt - 1 then take i freed @ take (cnt - i) (drop (i + 1) freed) @ drop cnt freed else freed)
      in take cnt moved)"

definition remove_idx :: "nat \<Rightarrow> nc_server_ssh_opts \<Rightarrow> nc_server_ssh_opts option" where
  "remove_idx i opts =
     (case key_slots opts of
        None \<Rightarrow> None
      | Some ks \<Rightarrow>
          if length ks \<le> i \<or> ks ! i = Garbage then None
          else Some (opts\<lparr>hostkey_count := hostkey_count opts - 1, hostkeys := slot_remove i ks\<rparr>))"

definition nc_server_ssh_del_hostkey ::
  "string option \<Rightarrow> int \<Rightarrow> nc_server_ssh_opts \<Rightarrow> (int \<times> nc_server_ssh_opts) option"
where
  "nc_server_ssh_del_hostkey name idx opts =
     (case name of
        None \<Rightarrow>
          if idx < 0
          then (case key_slots opts of
                  None \<Rightarrow> None
                | Some ks \<Rightarrow> if Garbage \<in> set ks then None else Some (0, opts\<lparr>hostkeys := [], hostkey_count := 0\<rparr>))
          else map_option (Pair 0) (remove_idx (nat idx) opts)
      | Some n \<Rightarrow>
          if -1 < idx then Some (-1, opts)
          else case Option.bind (key_slots opts) (find_key n) of
                 None \<Rightarrow> None
               | Some None \<Rightarrow> Some (-1, opts)
               | Some (Some i) \<Rightarrow> map_option (Pair 0) (remove_idx i opts))"

definition nc_server_ssh_clear_opts :: "nc_server_ssh_opts \<Rightarrow> (int \<times> nc_server_ssh_opts) option" where
  "nc_server_ssh_clear_opts opts = nc_server_ssh_del_hostkey None (-1) opts"

text \<open>The search loop of \<^verbatim>\<open>nc_server_ssh_mov_hostkey\<close> from index \<open>i\<close>: the indices of the two keys, -1 when
  not found; it stops as soon as it has all it looks for.\<close>

fun mov_scan :: "string option \<Rightarrow> string \<Rightarrow> int \<Rightarrow> int \<Rightarrow> int \<Rightarrow> slot list \<Rightarrow> (int \<times> int) option" where
  "mov_scan ka km i ai mi [] = Some (ai, mi)"
| "mov_scan ka km i ai mi (Garbage # ks) =
     (if (ka \<noteq> None \<and> ai = -1) \<or> mi = -1 then None else mov_scan ka km (i + 1) ai mi ks)"
| "mov_scan ka km i ai mi (Key k # ks) =
     (let ai' = (if ai = -1 \<and> ka = Some k then i else ai);
          mi' = (if mi = -1 \<and> km = k then i else mi)
      in if (ka = None \<or> -1 < ai') \<and> -1 < mi' then Some (ai', mi') else mov_scan ka km (i + 1) ai' mi' ks)"

text \<open>The move itself: \<open>a\<close> is the index of the key to put it after (-1 for the front), \<open>m\<close> its own.\<close>

definition mov_slots :: "int \<Rightarrow> int \<Rightarrow> slot list \<Rightarrow> slot list" where
  "mov_slots a m ks =
     (let key = ks ! nat m in
      if a < m
      then (let d = nat (a + 1); n = nat (m - a - 1)
            in (take (d + 1) ks @ take n (drop d ks) @ drop (d + 1 + n) ks)[d := key])
      else (let n = nat (a - m)
            in (take (nat m) ks @ take n (drop (nat m + 1) ks) @ drop (nat m + n) ks)[nat a := key]))"

definition nc_server_ssh_mov_hostkey ::
  "string option \<Rightarrow> string option \<Rightarrow> nc_server_ssh_opts \<Rightarrow> (int \<times> nc_server_ssh_opts) option"
where
  "nc_server_ssh_mov_hostkey key_mov key_after opts =
     (case key_mov of None \<Rightarrow> Some (-1, opts)
      | Some km \<Rightarrow>
          (case Option.bind (key_slots opts) (mov_scan key_after km 0 (-1) (-1)) of
             None \<Rightarrow> None
           | Some (a, m) \<Rightarrow>
               if key_after \<noteq> None \<and> a = -1 then Some (-1, opts)
               else if m = -1 then Some (-1, opts)
               else if m = a \<or> m = a + 1 then Some (0, opts)
               else Some (0, opts\<lparr>hostkeys := mov_slots a m (hostkeys opts)\<rparr>)))"

section \<open>Authentication settings\<close>

text \<open>The interactive method needs the name of a PAM configuration file.\<close>

definition nc_server_ssh_set_auth_methods :: "string option \<Rightarrow> u32 \<Rightarrow> nc_server_ssh_opts \<Rightarrow> (int \<times> nc_server_ssh_opts) option" where
  "nc_server_ssh_set_auth_methods conf m opts =
     (if m AND NC_SSH_AUTH_INTERACTIVE \<noteq> 0 \<and> conf = None then Some (1, opts)
      else Some (0, opts\<lparr>auth_methods := m\<rparr>))"

definition nc_server_ssh_set_auth_attempts :: "u16 \<Rightarrow> nc_server_ssh_opts \<Rightarrow> (int \<times> nc_server_ssh_opts) option" where
  "nc_server_ssh_set_auth_attempts k opts = (if k = 0 then Some (-1, opts) else Some (0, opts\<lparr>auth_attempts := k\<rparr>))"

definition nc_server_ssh_set_auth_timeout :: "u16 \<Rightarrow> nc_server_ssh_opts \<Rightarrow> (int \<times> nc_server_ssh_opts) option" where
  "nc_server_ssh_set_auth_timeout t opts = (if t = 0 then Some (-1, opts) else Some (0, opts\<lparr>auth_timeout := t\<rparr>))"

section \<open>The operations on endpoints\<close>

definition nc_server_ssh_endpt_add_hostkey ::
  "string option \<Rightarrow> string option \<Rightarrow> int \<Rightarrow> bool \<Rightarrow> nc_server_opts \<Rightarrow> (int \<times> nc_server_opts) option"
where
  "nc_server_ssh_endpt_add_hostkey en n idx alloc S = with_ssh en (nc_server_ssh_add_hostkey n idx alloc) S"

definition nc_server_ssh_ch_client_endpt_add_hostkey ::
  "string option \<Rightarrow> string option \<Rightarrow> string option \<Rightarrow> int \<Rightarrow> bool \<Rightarrow> nc_server_opts \<Rightarrow> (int \<times> nc_server_opts) option"
where
  "nc_server_ssh_ch_client_endpt_add_hostkey cn en n idx alloc S = with_ch_ssh cn en (nc_server_ssh_add_hostkey n idx alloc) S"

definition nc_server_ssh_endpt_del_hostkey ::
  "string option \<Rightarrow> string option \<Rightarrow> int \<Rightarrow> nc_server_opts \<Rightarrow> (int \<times> nc_server_opts) option"
where
  "nc_server_ssh_endpt_del_hostkey en n idx S = with_ssh en (nc_server_ssh_del_hostkey n idx) S"

definition nc_server_ssh_ch_client_endpt_del_hostkey ::
  "string option \<Rightarrow> string option \<Rightarrow> string option \<Rightarrow> int \<Rightarrow> nc_server_opts \<Rightarrow> (int \<times> nc_server_opts) option"
where
  "nc_server_ssh_ch_client_endpt_del_hostkey cn en n idx S = with_ch_ssh cn en (nc_server_ssh_del_hostkey n idx) S"

definition nc_server_ssh_endpt_mov_hostkey ::
  "string option \<Rightarrow> string option \<Rightarrow> string option \<Rightarrow> nc_server_opts \<Rightarrow> (int \<times> nc_server_opts) option"
where
  "nc_server_ssh_endpt_mov_hostkey en km ka S = with_ssh en (nc_server_ssh_mov_hostkey km ka) S"

definition nc_server_ssh_ch_client_endpt_mov_hostkey ::
  "string option \<Rightarrow> string option \<Rightarrow> string option \<Rightarrow> string option \<Rightarrow> nc_server_opts \<Rightarrow> (int \<times> nc_server_opts) option"
where
  "nc_server_ssh_ch_client_endpt_mov_hostkey cn en km ka S = with_ch_ssh cn en (nc_server_ssh_mov_hostkey km ka) S"

definition nc_server_ssh_endpt_set_auth_methods :: "string option \<Rightarrow> u32 \<Rightarrow> nc_server_opts \<Rightarrow> (int \<times> nc_server_opts) option" where
  "nc_server_ssh_endpt_set_auth_methods en m S = with_ssh en (nc_server_ssh_set_auth_methods (conf_name S) m) S"

definition nc_server_ssh_ch_client_endpt_set_auth_methods ::
  "string option \<Rightarrow> string option \<Rightarrow> u32 \<Rightarrow> nc_server_opts \<Rightarrow> (int \<times> nc_server_opts) option"
where
  "nc_server_ssh_ch_client_endpt_set_auth_methods cn en m S = with_ch_ssh cn en (nc_server_ssh_set_auth_methods (conf_name S) m) S"

definition nc_server_ssh_endpt_get_auth_methods :: "string option \<Rightarrow> nc_server_opts \<Rightarrow> (int \<times> nc_server_opts) option" where
  "nc_server_ssh_endpt_get_auth_methods en S = with_ssh en (\<lambda>opts. Some (sint (auth_methods opts), opts)) S"

definition nc_server_ssh_ch_client_endpt_get_auth_methods ::
  "string option \<Rightarrow> string option \<Rightarrow> nc_server_opts \<Rightarrow> (int \<times> nc_server_opts) option"
where
  "nc_server_ssh_ch_client_endpt_get_auth_methods cn en S = with_ch_ssh cn en (\<lambda>opts. Some (sint (auth_methods opts), opts)) S"

definition nc_server_ssh_endpt_set_auth_attempts :: "string option \<Rightarrow> u16 \<Rightarrow> nc_server_opts \<Rightarrow> (int \<times> nc_server_opts) option" where
  "nc_server_ssh_endpt_set_auth_attempts en k S = with_ssh en (nc_server_ssh_set_auth_attempts k) S"

definition nc_server_ssh_ch_client_endpt_set_auth_attempts ::
  "string option \<Rightarrow> string option \<Rightarrow> u16 \<Rightarrow> nc_server_opts \<Rightarrow> (int \<times> nc_server_opts) option"
where
  "nc_server_ssh_ch_client_endpt_set_auth_attempts cn en k S = with_ch_ssh cn en (nc_server_ssh_set_auth_attempts k) S"

definition nc_server_ssh_endpt_set_auth_timeout :: "string option \<Rightarrow> u16 \<Rightarrow> nc_server_opts \<Rightarrow> (int \<times> nc_server_opts) option" where
  "nc_server_ssh_endpt_set_auth_timeout en t S = with_ssh en (nc_server_ssh_set_auth_timeout t) S"

definition nc_server_ssh_ch_client_endpt_set_auth_timeout ::
  "string option \<Rightarrow> string option \<Rightarrow> u16 \<Rightarrow> nc_server_opts \<Rightarrow> (int \<times> nc_server_opts) option"
where
  "nc_server_ssh_ch_client_endpt_set_auth_timeout cn en t S = with_ch_ssh cn en (nc_server_ssh_set_auth_timeout t) S"

section \<open>Callbacks and PAM\<close>

definition nc_server_ssh_set_passwd_auth_clb :: "nat option \<Rightarrow> nat option \<Rightarrow> nat option \<Rightarrow> nc_server_opts \<Rightarrow> nc_server_opts" where
  "nc_server_ssh_set_passwd_auth_clb f d fr S = S\<lparr>passwd_auth := \<lparr>cb_fn = f, cb_data = d, cb_free = fr\<rparr>\<rparr>"

definition nc_server_ssh_set_interactive_auth_clb :: "nat option \<Rightarrow> nat option \<Rightarrow> nat option \<Rightarrow> nc_server_opts \<Rightarrow> nc_server_opts" where
  "nc_server_ssh_set_interactive_auth_clb f d fr S = S\<lparr>interactive_auth := \<lparr>cb_fn = f, cb_data = d, cb_free = fr\<rparr>\<rparr>"

definition nc_server_ssh_set_pubkey_auth_clb :: "nat option \<Rightarrow> nat option \<Rightarrow> nat option \<Rightarrow> nc_server_opts \<Rightarrow> nc_server_opts" where
  "nc_server_ssh_set_pubkey_auth_clb f d fr S = S\<lparr>pubkey_auth := \<lparr>cb_fn = f, cb_data = d, cb_free = fr\<rparr>\<rparr>"

definition nc_server_ssh_set_hostkey_clb :: "nat option \<Rightarrow> nat option \<Rightarrow> nat option \<Rightarrow> nc_server_opts \<Rightarrow> nc_server_opts" where
  "nc_server_ssh_set_hostkey_clb f d fr S =
     (if f = None then S else S\<lparr>hostkey_clb := \<lparr>cb_fn = f, cb_data = d, cb_free = fr\<rparr>\<rparr>)"

text \<open>\<open>libpam\<close> and \<open>confdir\<close> tell what the library was built with; the last flags are the outcomes of the
  copies.\<close>

definition nc_server_ssh_set_pam_conf_path ::
  "bool \<Rightarrow> bool \<Rightarrow> string option \<Rightarrow> string option \<Rightarrow> bool \<Rightarrow> bool \<Rightarrow> nc_server_opts \<Rightarrow> int \<times> nc_server_opts"
where
  "nc_server_ssh_set_pam_conf_path libpam confdir name dir al_dir al_name S =
     (if \<not> libpam then (-1, S)
      else
        let S0 = S\<lparr>conf_name := None, conf_dir := None\<rparr>
        in if dir \<noteq> None \<and> (\<not> confdir \<or> \<not> al_dir) then (-1, S0)
           else
             let S1 = S0\<lparr>conf_dir := dir\<rparr>
             in if name \<noteq> None \<and> \<not> al_name then (-1, S1) else (0, S1\<lparr>conf_name := name\<rparr>))"

section \<open>Authorized keys\<close>

text \<open>\<open>alloc\<close> is the outcome of \<^verbatim>\<open>nc_realloc\<close>; \<open>None\<close> when the 16-bit count wraps around or the array was
  lost to an earlier failure.\<close>

definition add_authkey_int ::
  "string option \<Rightarrow> string option \<Rightarrow> nc_ssh_key_type \<Rightarrow> string \<Rightarrow> bool \<Rightarrow> nc_server_opts \<Rightarrow> (int \<times> nc_server_opts) option"
where
  "add_authkey_int pth b64 ty user alloc S =
     (let cnt = authkey_count S + 1
      in if cnt = 0 then None
         else if \<not> alloc then Some (-1, S\<lparr>authkey_count := cnt, authkeys := []\<rparr>)
         else if length (authkeys S) \<noteq> unat (authkey_count S) then None
         else Some (0, S\<lparr>authkey_count := cnt,
                authkeys := authkeys S @ [\<lparr>ak_path = pth, ak_base64 = b64, ak_type = ty, ak_username = Some user\<rparr>]\<rparr>))"

definition nc_server_ssh_add_authkey_path ::
  "string option \<Rightarrow> string option \<Rightarrow> bool \<Rightarrow> nc_server_opts \<Rightarrow> (int \<times> nc_server_opts) option"
where
  "nc_server_ssh_add_authkey_path pth user alloc S =
     (case (pth, user) of
        (Some p, Some u) \<Rightarrow> add_authkey_int (Some p) None NC_SSH_KEY_UNKNOWN u alloc S
      | _ \<Rightarrow> Some (-1, S))"

definition nc_server_ssh_add_authkey ::
  "string option \<Rightarrow> nc_ssh_key_type \<Rightarrow> string option \<Rightarrow> bool \<Rightarrow> nc_server_opts \<Rightarrow> (int \<times> nc_server_opts) option"
where
  "nc_server_ssh_add_authkey b64 ty user alloc S =
     (case (b64, user) of
        (Some b, Some u) \<Rightarrow>
          if ty = NC_SSH_KEY_UNKNOWN then Some (-1, S) else add_authkey_int None (Some b) ty u alloc S
      | _ \<Rightarrow> Some (-1, S))"

text \<open>The test of one key against the arguments that are given; comparing with a missing string is
  undefined. The conditions are evaluated from left to right.\<close>

definition str_crit :: "string option \<Rightarrow> string option \<Rightarrow> bool option" where
  "str_crit want have1 = (case want of None \<Rightarrow> Some True | Some w \<Rightarrow> map_option (\<lambda>h. h = w) have1)"

definition and_then :: "bool option \<Rightarrow> bool option \<Rightarrow> bool option" where
  "and_then a b = (case a of None \<Rightarrow> None | Some False \<Rightarrow> Some False | Some True \<Rightarrow> b)"

definition ak_match :: "string option \<Rightarrow> string option \<Rightarrow> nc_ssh_key_type \<Rightarrow> string option \<Rightarrow> authkey \<Rightarrow> bool option" where
  "ak_match pth b64 ty user k =
     and_then (str_crit pth (ak_path k))
       (and_then (str_crit b64 (ak_base64 k))
         (and_then (Some (ty = NC_SSH_KEY_UNKNOWN \<or> ak_type k = ty))
           (str_crit user (ak_username k))))"

text \<open>The removal loop: a matching key is replaced by the last one, and the index moves on.\<close>

function ak_del_loop :: "(authkey \<Rightarrow> bool option) \<Rightarrow> nat \<Rightarrow> authkey list \<Rightarrow> int \<Rightarrow> (int \<times> authkey list) option" where
  "ak_del_loop test i ks ret =
     (if i < length ks
      then case test (ks ! i) of
             None \<Rightarrow> None
           | Some True \<Rightarrow> ak_del_loop test (i + 1) (swap_remove i ks) 0
           | Some False \<Rightarrow> ak_del_loop test (i + 1) ks ret
      else Some (ret, ks))"
  by pat_completeness auto
termination by (relation "measure (\<lambda>(t, i, ks, r). length ks - i)") auto

definition nc_server_ssh_del_authkey ::
  "string option \<Rightarrow> string option \<Rightarrow> nc_ssh_key_type \<Rightarrow> string option \<Rightarrow> nc_server_opts \<Rightarrow> (int \<times> nc_server_opts) option"
where
  "nc_server_ssh_del_authkey pth b64 ty user S =
     (if length (authkeys S) \<noteq> unat (authkey_count S) then None
      else if pth = None \<and> b64 = None \<and> ty = NC_SSH_KEY_UNKNOWN \<and> user = None
      then Some (if authkey_count S = 0 then -1 else 0, S\<lparr>authkeys := [], authkey_count := 0\<rparr>)
      else map_option (\<lambda>(r, ks). (r, S\<lparr>authkeys := ks, authkey_count := of_nat (length ks)\<rparr>))
             (ak_del_loop (ak_match pth b64 ty user) 0 (authkeys S) (-1)))"

declare ak_del_loop.simps [simp del]

text \<open>Keys that do not match all stay, whatever is removed.\<close>

lemma ak_del_loop_keeps:
  assumes "ak_del_loop test i ks ret = Some (r, ks')"
  shows "filter_mset (\<lambda>k. test k \<noteq> Some True) (mset ks') = filter_mset (\<lambda>k. test k \<noteq> Some True) (mset ks) \<and>
    mset ks' \<subseteq># mset ks \<and> (r = 0 \<longleftrightarrow> ret = 0 \<or> ks' \<noteq> ks)"
  using assms
proof (induction test i ks ret rule: ak_del_loop.induct)
  case (1 test i ks ret)
  show ?case
  proof (cases "i < length ks")
    case False
    then show ?thesis using "1.prems" by (simp add: ak_del_loop.simps [of test i ks])
  next
    case i: True
    then obtain b where b: "test (ks ! i) = Some b"
      using "1.prems" by (cases "test (ks ! i)") (simp_all add: ak_del_loop.simps [of test i ks])
    show ?thesis
    proof (cases b)
      case False
      then show ?thesis using "1.IH"(2) [OF i b] "1.prems" i b by (simp add: ak_del_loop.simps [of test i ks])
    next
      case True
      have run: "ak_del_loop test (i + 1) (swap_remove i ks) 0 = Some (r, ks')"
        using "1.prems" i b True by (simp add: ak_del_loop.simps [of test i ks])
      have bT: "test (ks ! i) = Some True" using b True by simp
      note IH = "1.IH"(1) [OF i bT refl run]
      have p: "mset (swap_remove i ks) = mset ks - {#ks ! i#}" by (rule swap_remove_perm [OF i])
      have "size (mset ks') \<le> size (mset (swap_remove i ks))" using IH by (meson size_mset_mono)
      then have "length ks' < length ks" using i by simp
      then have ne: "ks' \<noteq> ks" by auto
      have "filter_mset (\<lambda>k. test k \<noteq> Some True) (mset ks - {#ks ! i#}) = filter_mset (\<lambda>k. test k \<noteq> Some True) (mset ks)"
        using b True by (simp add: filter_diff_mset)
      moreover have "mset ks' \<subseteq># mset ks" using IH p by (metis diff_subset_eq_self subset_mset.order_trans)
      ultimately show ?thesis using IH p ne by simp
    qed
  qed
qed

text \<open>The loop does not look at the key it has just moved: two keys of one user, and only one of them
  goes.\<close>

definition demo_authkeys :: nc_server_opts where
  "demo_authkeys = no_opts\<lparr>authkey_count := 2, authkeys :=
     [\<lparr>ak_path = Some ''k1'', ak_base64 = None, ak_type = NC_SSH_KEY_UNKNOWN, ak_username = Some ''u''\<rparr>,
      \<lparr>ak_path = Some ''k2'', ak_base64 = None, ak_type = NC_SSH_KEY_UNKNOWN, ak_username = Some ''u''\<rparr>]\<rparr>"

lemma del_authkey_leaves_match:
  "map_option (\<lambda>(r, S). (r, map ak_path (authkeys S), map ak_username (authkeys S)))
     (nc_server_ssh_del_authkey None None NC_SSH_KEY_UNKNOWN (Some ''u'') demo_authkeys) =
   Some (0, [Some ''k2''], [Some ''u''])"
  by code_simp

text \<open>Removing by path when a key was added by its data compares with a missing string.\<close>

lemma del_authkey_undefined:
  assumes "authkeys S = k # ks" and "length (authkeys S) = unat (authkey_count S)" and "ak_path k = None"
  shows "nc_server_ssh_del_authkey (Some p) b64 ty user S = None"
  using assms by (simp add: nc_server_ssh_del_authkey_def ak_del_loop.simps [of _ 0] ak_match_def str_crit_def and_then_def)

section \<open>Properties of the host keys\<close>

text \<open>The keys of an endpoint, in order.\<close>

definition hk_list :: "nc_server_ssh_opts \<Rightarrow> string list \<Rightarrow> bool" where
  "hk_list opts ns \<longleftrightarrow> hostkeys opts = map Key ns \<and> unat (hostkey_count opts) = length ns"

lemma key_slots_hk [simp]: "hk_list opts ns \<Longrightarrow> key_slots opts = Some (map Key ns)"
  by (simp add: hk_list_def key_slots_def)

lemma find_key_hk [simp]: "find_key n (map Key ns) = Some (find_idx (\<lambda>k. k = n) ns)"
  by (induction ns) auto

text \<open>What the search of \<^verbatim>\<open>nc_server_ssh_mov_hostkey\<close> finds: the positions, -1 for none.\<close>

definition pos_from :: "int \<Rightarrow> string \<Rightarrow> string list \<Rightarrow> int" where
  "pos_from i k ns = (case find_idx (\<lambda>x. x = k) ns of None \<Rightarrow> -1 | Some j \<Rightarrow> i + int j)"

lemma pos_from_simps [simp]:
  "pos_from i k [] = -1"
  "pos_from i k (x # ns) = (if x = k then i else pos_from (i + 1) k ns)"
  by (auto simp: pos_from_def split: option.splits)

lemma mov_scan_hk:
  assumes "0 \<le> i" and "-1 \<le> ai" and "-1 \<le> mi" and "ka = None \<longrightarrow> ai = -1"
  shows "mov_scan ka km i ai mi (map Key ns) =
    Some (if ai = -1 then (case ka of None \<Rightarrow> -1 | Some a \<Rightarrow> pos_from i a ns) else ai,
          if mi = -1 then pos_from i km ns else mi)"
  using assms
proof (induction ns arbitrary: i ai mi)
  case Nil
  then show ?case by (auto split: option.splits)
next
  case (Cons x ns)
  then show ?case by (cases ka) (auto simp: Let_def)
qed

lemma pos_from_mem: "0 \<le> i \<Longrightarrow> pos_from i k ns = -1 \<longleftrightarrow> k \<notin> set ns"
  by (induction ns arbitrary: i) auto

lemma pos_from_split: "k \<notin> set xs \<Longrightarrow> pos_from i k (xs @ k # zs) = i + int (length xs)"
  by (induction xs arbitrary: i) auto

lemma mov_slots_up:
  assumes "ys \<noteq> []"
  shows "mov_slots (int (length xs) - 1) (int (length xs + length ys)) (xs @ ys @ k # zs) = xs @ k # ys @ zs"
proof -
  obtain y ys' where ys: "ys = y # ys'" using assms by (cases ys) auto
  have n: "nat (int (length xs + length ys) - (int (length xs) - 1) - 1) = length ys" by simp
  have nn: "nat (int (length xs + length ys)) = length xs + length ys" by (simp only: nat_int)
  have k: "(xs @ ys @ k # zs) ! nat (int (length xs + length ys)) = k" unfolding nn by (simp add: nth_append)
  show ?thesis
    unfolding mov_slots_def Let_def k n by (simp add: ys nth_append list_update_append)
qed

lemma mov_slots_down:
  assumes "ys \<noteq> []"
  shows "mov_slots (int (length xs + length ys)) (int (length xs)) (xs @ k # ys @ zs) = xs @ ys @ k # zs"
proof -
  obtain ys' y where ys: "ys = ys' @ [y]" using assms by (cases ys rule: rev_cases) auto
  have n: "nat (int (length xs + length ys) - int (length xs)) = length ys" by simp
  have a: "nat (int (length xs + length ys)) = length xs + length ys" by (simp only: nat_int)
  have m: "nat (int (length xs)) = length xs" by simp
  have d: "drop (length xs + length ys) (xs @ k # ys @ zs) = y # zs" by (simp add: ys)
  have t: "take (length ys) (drop (length xs + 1) (xs @ k # ys @ zs)) = ys" by simp
  show ?thesis
    using assms unfolding mov_slots_def Let_def n a m d t by (simp add: nth_append list_update_append)
qed

text \<open>The specification: the key is taken out and put to the front, or right after the other one.\<close>

definition mov_spec :: "string \<Rightarrow> string option \<Rightarrow> string list \<Rightarrow> string list" where
  "mov_spec km ka ns =
     (let rest = remove1 km ns
      in case ka of
           None \<Rightarrow> km # rest
         | Some a \<Rightarrow> if a = km then ns else takeWhile (\<lambda>x. x \<noteq> a) rest @ a # km # tl (dropWhile (\<lambda>x. x \<noteq> a) rest))"

lemma mov_spec_up:
  assumes "distinct (xs @ a # ys @ km # zs)"
  shows "mov_spec km (Some a) (xs @ a # ys @ km # zs) = xs @ a # km # ys @ zs"
proof -
  have r: "remove1 km (xs @ a # ys @ km # zs) = xs @ a # ys @ zs" using assms by (auto simp: remove1_append)
  have t: "takeWhile (\<lambda>x. x \<noteq> a) (xs @ a # ys @ zs) = xs" and d: "dropWhile (\<lambda>x. x \<noteq> a) (xs @ a # ys @ zs) = a # ys @ zs"
    using assms by (auto simp: takeWhile_append dropWhile_append)
  show ?thesis using assms by (simp add: mov_spec_def r t d)
qed

lemma mov_spec_down:
  assumes "distinct (xs @ km # ys @ a # zs)"
  shows "mov_spec km (Some a) (xs @ km # ys @ a # zs) = xs @ ys @ a # km # zs"
proof -
  have r: "remove1 km (xs @ km # ys @ a # zs) = (xs @ ys) @ a # zs" using assms by (auto simp: remove1_append)
  have na: "a \<notin> set (xs @ ys)" using assms by auto
  have t: "takeWhile (\<lambda>x. x \<noteq> a) ((xs @ ys) @ a # zs) = xs @ ys" and d: "dropWhile (\<lambda>x. x \<noteq> a) ((xs @ ys) @ a # zs) = a # zs"
    using na by (auto simp: takeWhile_append dropWhile_append)
  have "a \<noteq> km" using assms by auto
  then show ?thesis unfolding mov_spec_def Let_def r option.case t d by simp
qed

lemma mov_hk:
  assumes "hk_list opts ns"
  shows "nc_server_ssh_mov_hostkey (Some km) ka opts =
    (let a = (case ka of None \<Rightarrow> -1 | Some x \<Rightarrow> pos_from 0 x ns); m = pos_from 0 km ns
     in if ka \<noteq> None \<and> a = -1 then Some (-1, opts)
        else if m = -1 then Some (-1, opts)
        else if m = a \<or> m = a + 1 then Some (0, opts)
        else Some (0, opts\<lparr>hostkeys := mov_slots a m (map Key ns)\<rparr>))"
proof -
  have "hostkeys opts = map Key ns" using assms by (simp add: hk_list_def)
  then show ?thesis using assms by (simp add: nc_server_ssh_mov_hostkey_def mov_scan_hk Let_def)
qed

text \<open>Moves to the front, and after another key on either side.\<close>

lemma mov_front:
  assumes "hk_list opts ns" and "km \<in> set ns"
  shows "nc_server_ssh_mov_hostkey (Some km) None opts = Some (0, opts\<lparr>hostkeys := map Key (mov_spec km None ns)\<rparr>)"
proof -
  obtain ys zs where ns: "ns = ys @ km # zs" and nk: "km \<notin> set ys"
    using split_list_first [OF assms(2)] by blast
  have h: "hostkeys opts = map Key ns" using assms(1) by (simp add: hk_list_def)
  have r: "mov_spec km None ns = km # ys @ zs" using nk by (simp add: mov_spec_def ns remove1_append)
  have p: "pos_from 0 km ns = int (length ys)" using pos_from_split [OF nk, of 0 zs] ns by simp
  show ?thesis
  proof (cases "ys = []")
    case True
    have "opts\<lparr>hostkeys := map Key (km # zs)\<rparr> = opts" using h ns True by simp
    then show ?thesis using p r True unfolding mov_hk [OF assms(1)] by simp
  next
    case False
    have "mov_slots (-1) (int (length ys)) (map Key ns) = map Key (km # ys @ zs)"
      using mov_slots_up [of "map Key ys" "[]" "Key km" "map Key zs"] False ns by simp
    then show ?thesis using p r False unfolding mov_hk [OF assms(1)] by simp
  qed
qed

lemma mov_up:
  assumes "hk_list opts (xs @ a # ys @ km # zs)" and d: "distinct (xs @ a # ys @ km # zs)"
  shows "nc_server_ssh_mov_hostkey (Some km) (Some a) opts = Some (0, opts\<lparr>hostkeys := map Key (xs @ a # km # ys @ zs)\<rparr>)"
proof -
  let ?ns = "xs @ a # ys @ km # zs"
  have h: "hostkeys opts = map Key ?ns" using assms(1) by (simp add: hk_list_def)
  have pa: "pos_from 0 a ?ns = int (length xs)" using pos_from_split [of a xs 0] d by simp
  have pm: "pos_from 0 km ?ns = int (length xs + 1 + length ys)"
    using pos_from_split [of km "xs @ a # ys" 0 zs] d by auto
  show ?thesis
  proof (cases "ys = []")
    case True
    have "opts\<lparr>hostkeys := map Key (xs @ a # km # zs)\<rparr> = opts" using h True by simp
    then show ?thesis using pa pm True unfolding mov_hk [OF assms(1)] by simp
  next
    case False
    have "mov_slots (int (length xs)) (int (length xs + 1 + length ys)) (map Key ?ns) = map Key (xs @ a # km # ys @ zs)"
      using mov_slots_up [of "map Key ys" "map Key (xs @ [a])" "Key km" "map Key zs"] False by simp
    then show ?thesis using pa pm False unfolding mov_hk [OF assms(1)] by simp
  qed
qed

lemma mov_down:
  assumes "hk_list opts (xs @ km # ys @ a # zs)" and d: "distinct (xs @ km # ys @ a # zs)"
  shows "nc_server_ssh_mov_hostkey (Some km) (Some a) opts = Some (0, opts\<lparr>hostkeys := map Key (xs @ ys @ a # km # zs)\<rparr>)"
proof -
  let ?ns = "xs @ km # ys @ a # zs"
  have h: "hostkeys opts = map Key ?ns" using assms(1) by (simp add: hk_list_def)
  have pm: "pos_from 0 km ?ns = int (length xs)" using pos_from_split [of km xs 0] d by simp
  have pa: "pos_from 0 a ?ns = int (length xs + length (ys @ [a]))"
    using pos_from_split [of a "xs @ km # ys" 0 zs] d by auto
  have "mov_slots (int (length xs + length (ys @ [a]))) (int (length xs)) (map Key ?ns) = map Key (xs @ ys @ a # km # zs)"
    using mov_slots_down [of "map Key (ys @ [a])" "map Key xs" "Key km" "map Key zs"] by simp
  then show ?thesis using pa pm unfolding mov_hk [OF assms(1)] by simp
qed

text \<open>C21: Moving a host key gives exactly the list with that key taken out and put to the front or right
  after the named one, with all other keys in their order; a name that is not there is refused and
  nothing changes.\<close>

theorem mov_hostkey_correct:
  assumes "hk_list opts ns" and "distinct ns"
  shows "nc_server_ssh_mov_hostkey (Some km) ka opts =
    (if km \<in> set ns \<and> set_option ka \<subseteq> set ns
     then Some (0, opts\<lparr>hostkeys := map Key (mov_spec km ka ns)\<rparr>) else Some (-1, opts))"
proof (cases "km \<in> set ns \<and> set_option ka \<subseteq> set ns")
  case False
  then show ?thesis unfolding mov_hk [OF assms(1)] by (cases ka) (auto simp: pos_from_mem Let_def)
next
  case True
  show ?thesis
  proof (cases ka)
    case None
    then show ?thesis using mov_front [OF assms(1)] True by simp
  next
    case (Some a)
    have same: "opts\<lparr>hostkeys := map Key ns\<rparr> = opts" using assms(1) by (simp add: hk_list_def)
    have am: "a \<in> set ns" using True Some by simp
    then consider "a = km" | xs ys zs where "ns = xs @ a # ys @ km # zs" | xs ys zs where "ns = xs @ km # ys @ a # zs"
      using True by (metis append.assoc append_Cons in_set_conv_decomp set_ConsD Un_iff set_append)
    then show ?thesis
    proof cases
      case 1
      then show ?thesis using True Some same unfolding mov_hk [OF assms(1)] by (simp add: pos_from_mem mov_spec_def)
    next
      case 2
      then show ?thesis using True Some assms mov_up [of opts xs a ys km zs] mov_spec_up [of xs a ys km zs] by simp
    next
      case 3
      then show ?thesis using True Some assms mov_down [of opts xs km ys a zs] mov_spec_down [of xs km ys a zs] by simp
    qed
  qed
qed

definition demo_ssh :: nc_server_ssh_opts where
  "demo_ssh = ssh_defaults\<lparr>hostkeys := map Key [''rsa'', ''dsa'', ''ec''], hostkey_count := 3\<rparr>"

lemma demo_ssh_ok: "hk_list demo_ssh [''rsa'', ''dsa'', ''ec'']"
  by (simp add: hk_list_def demo_ssh_def)

theorem mov_hostkey_correct_witness:
  "hk_list demo_ssh [''rsa'', ''dsa'', ''ec''] \<and> distinct [''rsa'', ''dsa'', ''ec''] \<and>
   nc_server_ssh_mov_hostkey (Some ''rsa'') (Some ''ec'') demo_ssh =
     Some (0, demo_ssh\<lparr>hostkeys := map Key [''dsa'', ''ec'', ''rsa'']\<rparr>)"
  using mov_hostkey_correct [OF demo_ssh_ok, of "''rsa''" "Some ''ec''"] by (simp add: demo_ssh_ok mov_spec_def)

text \<open>A key can be added at the end only: any insertion before it moves too few bytes, so the last slot
  is never written and slots before it lose their pointers.\<close>

lemma nth_update_same: "xs ! k = g \<Longrightarrow> k < length xs \<Longrightarrow> xs[j := g] ! k = g"
  by (cases "j = k") simp_all

lemma move_up_bytes_last:
  assumes "idx + n = length ks" and "2 \<le> n" and "ks ! (length ks - 1) = Garbage"
  shows "move_up_bytes idx n ks ! (length ks - 1) = Garbage" and "length (move_up_bytes idx n ks) = length ks"
proof -
  let ?q = "n div 8"
  have q: "?q + 1 < n" using assms(2) by simp
  let ?l = "take (idx + 1) ks @ take ?q (drop idx ks)"
  have len: "length ?l = idx + 1 + ?q" using q assms(1) by simp
  have ge: "\<not> length ks - 1 < length ?l" using len q assms(1) by simp
  have "(?l @ drop (idx + 1 + ?q) ks) ! (length ks - 1) = drop (idx + 1 + ?q) ks ! (length ks - 1 - length ?l)"
    using ge by (simp only: nth_append if_False)
  also have "\<dots> = ks ! (idx + 1 + ?q + (length ks - 1 - (idx + 1 + ?q)))"
    unfolding len by (rule nth_drop) (use q assms(1) in simp)
  also have "idx + 1 + ?q + (length ks - 1 - (idx + 1 + ?q)) = length ks - 1" using q assms(1) by simp
  finally have m: "(take (idx + 1) ks @ take ?q (drop idx ks) @ drop (idx + 1 + ?q) ks) ! (length ks - 1) = Garbage"
    using assms(3) by simp
  have ll: "length (take (idx + 1) ks @ take ?q (drop idx ks) @ drop (idx + 1 + ?q) ks) = length ks"
    using q assms(1) by simp
  show "move_up_bytes idx n ks ! (length ks - 1) = Garbage"
    unfolding move_up_bytes_def Let_def using m nth_update_same [OF m, of "idx + 1 + ?q"] ll assms(1,2) by simp
  show "length (move_up_bytes idx n ks) = length ks" unfolding move_up_bytes_def Let_def using ll by simp
qed

lemma u8_succ: "unat (c :: u8) < 255 \<Longrightarrow> unat (c + 1) = unat c + 1"
  by (simp add: unat_word_ariths)

lemma add_hostkey_step:
  assumes "hk_list opts ns" and "length ns < 255" and "n \<notin> set ns" and "idx \<le> int (length ns)"
  shows "nc_server_ssh_add_hostkey (Some n) idx True opts =
    (let i = (if idx < 0 then length ns else nat idx); grown = map Key ns @ [Garbage];
         moved = (if i \<noteq> length ns then move_up_bytes i (length ns + 1 - i) grown else grown)
     in Some (0, opts\<lparr>hostkey_count := hostkey_count opts + 1, hostkeys := moved[i := Key n]\<rparr>))"
proof -
  have u: "unat (hostkey_count opts) = length ns" and h: "hostkeys opts = map Key ns"
    using assms(1) by (simp_all add: hk_list_def)
  have i: "uint (hostkey_count opts) = int (length ns)" using u uint_nat [of "hostkey_count opts"] by simp
  have c: "unat (hostkey_count opts + 1) = length ns + 1" using u8_succ [of "hostkey_count opts"] u assms(2) by simp
  then have n0: "hostkey_count opts + 1 \<noteq> 0" by auto
  have f: "find_idx (\<lambda>k. k = n) ns = None" using assms(3) by (auto simp: find_idx_None)
  show ?thesis using assms(1,4) u h i c n0 f by (simp add: nc_server_ssh_add_hostkey_def Let_def)
qed

lemma add_hostkey_exact:
  assumes "hk_list opts ns" and "length ns < 255" and "n \<notin> set ns" and "idx \<le> int (length ns)"
  shows "\<exists>opts'. nc_server_ssh_add_hostkey (Some n) idx True opts = Some (0, opts') \<and>
    (if idx < 0 \<or> idx = int (length ns) then hk_list opts' (ns @ [n]) else last (hostkeys opts') = Garbage)"
proof (cases "idx < 0 \<or> idx = int (length ns)")
  case True
  have c: "unat (hostkey_count opts + 1) = length ns + 1"
    using u8_succ [of "hostkey_count opts"] assms(1,2) by (simp add: hk_list_def)
  have "(if idx < 0 then length ns else nat idx) = length ns" using True by auto
  then show ?thesis using True c unfolding add_hostkey_step [OF assms] by (simp add: Let_def hk_list_def list_update_append)
next
  case False
  define i where "i = nat idx"
  have i: "i < length ns" "\<not> idx < 0" using False assms(4) by (auto simp: i_def)
  let ?g = "map Key ns @ [Garbage]"
  let ?m = "move_up_bytes i (length ns + 1 - i) ?g"
  have "i + (length ns + 1 - i) = length ?g" "2 \<le> length ns + 1 - i" "?g ! (length ?g - 1) = Garbage"
    using i by (simp_all add: nth_append)
  note ml = move_up_bytes_last [OF this]
  have "last (?m[i := Key n]) = ?m[i := Key n] ! (length ns)"
    using ml(2) by (metis last_conv_nth length_list_update length_append_singleton length_map diff_Suc_1 list.size(3) nat.distinct(1))
  also have "\<dots> = Garbage" using ml(1) i by simp
  finally show ?thesis using False i unfolding add_hostkey_step [OF assms] by (simp add: Let_def i_def)
qed

lemma slot_remove_split:
  "slot_remove (length xs) (xs @ k # zs) = (if length zs = 1 then xs @ [Garbage] else xs @ zs)"
proof -
  have f: "(xs @ k # zs)[length xs := Garbage] = xs @ Garbage # zs" by (simp add: list_update_append)
  consider "zs = []" | z where "zs = [z]" | "1 < length zs" by (cases zs rule: remdups_adj.cases) auto
  then show ?thesis by cases (simp_all add: slot_remove_def Let_def f)
qed

lemma remove_idx_step:
  assumes "hk_list opts (xs @ n # zs)"
  shows "remove_idx (length xs) opts =
    Some (opts\<lparr>hostkey_count := hostkey_count opts - 1,
      hostkeys := (if length zs = 1 then map Key xs @ [Garbage] else map Key (xs @ zs))\<rparr>)"
  using key_slots_hk [OF assms] slot_remove_split [of "map Key xs" "Key n" "map Key zs"]
  by (simp add: remove_idx_def nth_append)

lemma del_hostkey_exact:
  assumes "hk_list opts (xs @ n # zs)" and "distinct (xs @ n # zs)"
  shows "\<exists>opts'. nc_server_ssh_del_hostkey (Some n) (-1) opts = Some (0, opts') \<and>
    (if length zs = 1 then last (hostkeys opts') = Garbage else hk_list opts' (xs @ zs))"
proof -
  have "n \<notin> set xs" using assms(2) by simp
  then have f: "find_idx (\<lambda>k. k = n) (xs @ n # zs) = Some (length xs)" by (induction xs) auto
  have u: "unat (hostkey_count opts) = length xs + 1 + length zs" using assms(1) by (simp add: hk_list_def)
  then have "hostkey_count opts \<noteq> 0" by auto
  then have c: "unat (hostkey_count opts - 1) = length xs + length zs"
    using u unat_minus_one [of "hostkey_count opts"] by simp
  have k: "Option.bind (key_slots opts) (find_key n) = Some (Some (length xs))"
    using key_slots_hk [OF assms(1)] find_key_hk [of n "xs @ n # zs"] f by simp
  show ?thesis
    unfolding nc_server_ssh_del_hostkey_def option.case k remove_idx_step [OF assms(1)]
    using c by (simp add: hk_list_def)
qed

text \<open>C34: Host keys are edited correctly exactly at the end of the array: a key added at the end, or
  removed from any place but the last but one, gives the expected list, while an insertion anywhere before
  the end and the removal of the last key but one leave an invalid pointer in the last used slot.\<close>

theorem hostkey_edits_exact:
  assumes "hk_list opts (xs @ n # zs)" and "distinct (xs @ n # zs)" and "length (xs @ n # zs) < 255"
    and "m \<notin> set (xs @ n # zs)" and "0 \<le> idx" and "idx \<le> int (length (xs @ n # zs))"
  shows "\<exists>added deleted.
    nc_server_ssh_add_hostkey (Some m) idx True opts = Some (0, added) \<and>
    nc_server_ssh_del_hostkey (Some n) (-1) opts = Some (0, deleted) \<and>
    (if idx = int (length (xs @ n # zs)) then hk_list added (xs @ n # zs @ [m]) else last (hostkeys added) = Garbage) \<and>
    (if length zs = 1 then last (hostkeys deleted) = Garbage else hk_list deleted (xs @ zs))"
proof -
  obtain o1 where o1: "nc_server_ssh_add_hostkey (Some m) idx True opts = Some (0, o1)"
    "if idx < 0 \<or> idx = int (length (xs @ n # zs)) then hk_list o1 ((xs @ n # zs) @ [m]) else last (hostkeys o1) = Garbage"
    using add_hostkey_exact [OF assms(1,3,4,6)] by blast
  obtain o2 where o2: "nc_server_ssh_del_hostkey (Some n) (-1) opts = Some (0, o2)"
    "if length zs = 1 then last (hostkeys o2) = Garbage else hk_list o2 (xs @ zs)"
    using del_hostkey_exact [OF assms(1,2)] by blast
  show ?thesis
    by (rule exI [of _ o1], rule exI [of _ o2]) (use o1 o2 assms(5) in \<open>auto split: if_splits\<close>)
qed

theorem hostkey_edits_exact_witness:
  "\<exists>added deleted.
    nc_server_ssh_add_hostkey (Some ''x'') 0 True demo_ssh = Some (0, added) \<and> last (hostkeys added) = Garbage \<and>
    nc_server_ssh_del_hostkey (Some ''dsa'') (-1) demo_ssh = Some (0, deleted) \<and> last (hostkeys deleted) = Garbage"
  using hostkey_edits_exact [of demo_ssh "[''rsa'']" "''dsa''" "[''ec'']" "''x''" 0] demo_ssh_ok by auto

end
