(* ===== verification/NC_TlsOpts.thy ===== *)
theory NC_TlsOpts
  imports NC_SshAuth
begin

text \<open>
  The TLS options of endpoints (\<^verbatim>\<open>session_server_tls.c\<close>): the server certificate, the lists of trusted
  certificates, the paths of CA certificates and of revocation lists, and the list of cert-to-name (CTN)
  entries, which is kept sorted by identifier. The CTN list is shown to refine a finite map.
\<close>

section \<open>Access to the options\<close>

definition with_tls ::
  "string option \<Rightarrow> (nc_server_tls_opts \<Rightarrow> (int \<times> nc_server_tls_opts) option) \<Rightarrow> nc_server_opts \<Rightarrow> (int \<times> nc_server_opts) option"
where
  "with_tls name f S =
     (if name = None then Some (-1, S)
      else with_endpt name NC_TI_OPENSSL
        (\<lambda>x. case ep_opts x of
               Tls_opts o1 \<Rightarrow> map_option (\<lambda>(r, o2). (r, x\<lparr>ep_opts := Tls_opts o2\<rparr>)) (f o1)
             | _ \<Rightarrow> None) S)"

definition with_ch_tls ::
  "string option \<Rightarrow> string option \<Rightarrow> (nc_server_tls_opts \<Rightarrow> (int \<times> nc_server_tls_opts) option) \<Rightarrow> nc_server_opts \<Rightarrow>
   (int \<times> nc_server_opts) option"
where
  "with_ch_tls name ename f S =
     with_ch_endpt name ename NC_TI_OPENSSL
       (\<lambda>x. case ce_opts x of
              Tls_opts o1 \<Rightarrow> map_option (\<lambda>(r, o2). (r, x\<lparr>ce_opts := Tls_opts o2\<rparr>)) (f o1)
            | _ \<Rightarrow> None) S"

section \<open>Certificates and paths\<close>

definition nc_server_tls_set_server_cert :: "string option \<Rightarrow> nc_server_tls_opts \<Rightarrow> (int \<times> nc_server_tls_opts) option" where
  "nc_server_tls_set_server_cert name opts = Some (0, opts\<lparr>server_cert := name\<rparr>)"

definition tcl_slots :: "nc_server_tls_opts \<Rightarrow> slot list option" where
  "tcl_slots opts =
     (if length (trusted_cert_lists opts) < unat (trusted_cert_list_count opts) then None
      else Some (take (unat (trusted_cert_list_count opts)) (trusted_cert_lists opts)))"

text \<open>\<open>None\<close> when the 16-bit count wraps around, and after an earlier allocation failed.\<close>

definition nc_server_tls_add_trusted_cert_list ::
  "string option \<Rightarrow> bool \<Rightarrow> nc_server_tls_opts \<Rightarrow> (int \<times> nc_server_tls_opts) option"
where
  "nc_server_tls_add_trusted_cert_list name alloc opts =
     (case name of None \<Rightarrow> Some (-1, opts)
      | Some n \<Rightarrow>
          let cnt = trusted_cert_list_count opts + 1
          in if cnt = 0 then None
             else if \<not> alloc then Some (-1, opts\<lparr>trusted_cert_list_count := cnt, trusted_cert_lists := []\<rparr>)
             else map_option (\<lambda>ks. (0, opts\<lparr>trusted_cert_list_count := cnt, trusted_cert_lists := ks @ [Key n]\<rparr>)) (tcl_slots opts))"

definition nc_server_tls_del_trusted_cert_list :: "string option \<Rightarrow> nc_server_tls_opts \<Rightarrow> (int \<times> nc_server_tls_opts) option" where
  "nc_server_tls_del_trusted_cert_list name opts =
     (case tcl_slots opts of
        None \<Rightarrow> None
      | Some ks \<Rightarrow>
          (case name of
             None \<Rightarrow>
               if Garbage \<in> set ks then None
               else Some (0, opts\<lparr>trusted_cert_lists := [], trusted_cert_list_count := 0\<rparr>)
           | Some n \<Rightarrow>
               (case find_key n ks of
                  None \<Rightarrow> None
                | Some None \<Rightarrow> Some (-1, opts)
                | Some (Some i) \<Rightarrow>
                    Some (0, opts\<lparr>trusted_cert_list_count := trusted_cert_list_count opts - 1,
                                  trusted_cert_lists := slot_remove i ks\<rparr>))))"

definition nc_server_tls_set_trusted_ca_paths ::
  "string option \<Rightarrow> string option \<Rightarrow> nc_server_tls_opts \<Rightarrow> (int \<times> nc_server_tls_opts) option"
where
  "nc_server_tls_set_trusted_ca_paths file dir opts =
     (if file = None \<and> dir = None then Some (-1, opts)
      else
        let o1 = (if file = None then opts else opts\<lparr>trusted_ca_file := file\<rparr>)
        in Some (0, if dir = None then o1 else o1\<lparr>trusted_ca_dir := dir\<rparr>))"

text \<open>The flags are the outcomes of adding the lookup method and of loading the source, for the file and for
  the directory.\<close>

definition add_crl_source :: "crl_source \<Rightarrow> bool \<Rightarrow> nc_server_tls_opts \<Rightarrow> nc_server_tls_opts option" where
  "add_crl_source src ok opts =
     (if ok then Some (opts\<lparr>crl_store := map_option (\<lambda>xs. xs @ [src]) (crl_store opts)\<rparr>) else None)"

definition nc_server_tls_set_crl_paths ::
  "string option \<Rightarrow> string option \<Rightarrow> bool \<Rightarrow> bool \<Rightarrow> nc_server_tls_opts \<Rightarrow> (int \<times> nc_server_tls_opts) option"
where
  "nc_server_tls_set_crl_paths file dir file_ok dir_ok opts =
     (if file = None \<and> dir = None then Some (-1, opts)
      else
        let o1 = (if crl_store opts = None then opts\<lparr>crl_store := Some []\<rparr> else opts);
            r2 = (case file of None \<Rightarrow> Some o1 | Some f \<Rightarrow> add_crl_source (Crl_file f) file_ok o1)
        in case r2 of
             None \<Rightarrow> Some (-1, o1)
           | Some o2 \<Rightarrow>
               (case dir of
                  None \<Rightarrow> Some (0, o2)
                | Some d \<Rightarrow> (case add_crl_source (Crl_dir d) dir_ok o2 of None \<Rightarrow> Some (-1, o2) | Some o3 \<Rightarrow> Some (0, o3))))"

definition nc_server_tls_clear_crls :: "nc_server_tls_opts \<Rightarrow> (int \<times> nc_server_tls_opts) option" where
  "nc_server_tls_clear_crls opts = Some (0, opts\<lparr>crl_store := None\<rparr>)"

section \<open>Cert-to-name entries\<close>

definition new_ctn :: "u32 \<Rightarrow> nc_ctn" where
  "new_ctn i = \<lparr>ctn_id = i, fingerprint = None, map_type = NC_TLS_CTN_UNKNOWN, ctn_name = None\<rparr>"

text \<open>The arguments that are given replace the fields.\<close>

definition ctn_set :: "string option \<Rightarrow> nc_tls_ctn_maptype \<Rightarrow> string option \<Rightarrow> nc_ctn \<Rightarrow> nc_ctn" where
  "ctn_set fp mt nm c =
     (let c1 = (if fp = None then c else c\<lparr>fingerprint := fp\<rparr>);
          c2 = (if mt = NC_TLS_CTN_UNKNOWN then c1 else c1\<lparr>map_type := mt\<rparr>)
      in if nm = None then c2 else c2\<lparr>ctn_name := nm\<rparr>)"

text \<open>The loop that walks while the next entry is not beyond \<open>i\<close>: the index it stops at.\<close>

fun ctn_walk :: "u32 \<Rightarrow> nc_ctn list \<Rightarrow> nat" where
  "ctn_walk i (c # d # cs) = (if ctn_id d \<le> i then Suc (ctn_walk i (d # cs)) else 0)"
| "ctn_walk i cs = 0"

definition nc_server_tls_add_ctn ::
  "u32 \<Rightarrow> string option \<Rightarrow> nc_tls_ctn_maptype \<Rightarrow> string option \<Rightarrow> bool \<Rightarrow> nc_server_tls_opts \<Rightarrow> (int \<times> nc_server_tls_opts) option"
where
  "nc_server_tls_add_ctn i fp mt nm alloc opts =
     (let cs = ctn opts; new = ctn_set fp mt nm (new_ctn i); k = ctn_walk i cs
      in if cs \<noteq> [] \<and> \<not> i < ctn_id (hd cs) \<and> ctn_id (cs ! k) = i
         then Some (0, opts\<lparr>ctn := cs[k := ctn_set fp mt nm (cs ! k)]\<rparr>)
         else if \<not> alloc then Some (-1, opts)
         else if cs = [] then Some (0, opts\<lparr>ctn := [new]\<rparr>)
         else if i < ctn_id (hd cs) then Some (0, opts\<lparr>ctn := new # cs\<rparr>)
         else Some (0, opts\<lparr>ctn := take (k + 1) cs @ new # drop (k + 1) cs\<rparr>))"

text \<open>The conditions of a removal, from left to right; a missing fingerprint is not expected.\<close>

definition ctn_match :: "int \<Rightarrow> string option \<Rightarrow> nc_tls_ctn_maptype \<Rightarrow> string option \<Rightarrow> nc_ctn \<Rightarrow> bool option" where
  "ctn_match i fp mt nm c =
     and_then (Some (i < 0 \<or> uint (ctn_id c) = i))
       (and_then (str_crit fp (fingerprint c))
         (and_then (Some (mt = NC_TLS_CTN_UNKNOWN \<or> map_type c = mt))
           (Some (nm = None \<or> ctn_name c = nm))))"

fun ctn_del_loop :: "(nc_ctn \<Rightarrow> bool option) \<Rightarrow> int \<Rightarrow> nc_ctn list \<Rightarrow> (int \<times> nc_ctn list) option" where
  "ctn_del_loop test ret [] = Some (ret, [])"
| "ctn_del_loop test ret (c # cs) =
     (case test c of
        None \<Rightarrow> None
      | Some True \<Rightarrow> ctn_del_loop test 0 cs
      | Some False \<Rightarrow> map_option (\<lambda>(r, ds). (r, c # ds)) (ctn_del_loop test ret cs))"

definition nc_server_tls_del_ctn ::
  "int \<Rightarrow> string option \<Rightarrow> nc_tls_ctn_maptype \<Rightarrow> string option \<Rightarrow> nc_server_tls_opts \<Rightarrow> (int \<times> nc_server_tls_opts) option"
where
  "nc_server_tls_del_ctn i fp mt nm opts =
     (if i < 0 \<and> fp = None \<and> mt = NC_TLS_CTN_UNKNOWN \<and> nm = None
      then Some (if ctn opts = [] then -1 else 0, opts\<lparr>ctn := []\<rparr>)
      else map_option (\<lambda>(r, cs). (r, opts\<lparr>ctn := cs\<rparr>)) (ctn_del_loop (ctn_match i fp mt nm) (-1) (ctn opts)))"

text \<open>The parameters of a query are pointers: \<open>None\<close> is no pointer, and a pointer to a zero value asks for that
  field.\<close>

record ctn_query =
  cq_id :: "u32 option"
  cq_fingerprint :: "string option option"
  cq_map_type :: "nc_tls_ctn_maptype option"
  cq_name :: "string option option"

definition ctn_fits :: "ctn_query \<Rightarrow> nc_ctn \<Rightarrow> bool" where
  "ctn_fits q c \<longleftrightarrow>
     (case cq_id q of Some v \<Rightarrow> v = 0 \<or> v = ctn_id c | None \<Rightarrow> True) \<and>
     (case cq_fingerprint q of Some (Some f) \<Rightarrow> fingerprint c = Some f | _ \<Rightarrow> True) \<and>
     (case cq_map_type q of Some m \<Rightarrow> m = NC_TLS_CTN_UNKNOWN \<or> m = map_type c | None \<Rightarrow> True) \<and>
     (case cq_name q of Some (Some n) \<Rightarrow> ctn_name c = Some n | _ \<Rightarrow> True)"

definition ctn_answer :: "ctn_query \<Rightarrow> nc_ctn \<Rightarrow> ctn_query" where
  "ctn_answer q c =
     \<lparr>cq_id = (if cq_id q = Some 0 then Some (ctn_id c) else cq_id q),
      cq_fingerprint = (if cq_fingerprint q = Some None then Some (fingerprint c) else cq_fingerprint q),
      cq_map_type = (if cq_map_type q = Some NC_TLS_CTN_UNKNOWN then Some (map_type c) else cq_map_type q),
      cq_name = (if cq_name q = Some None then Some (ctn_name c) else cq_name q)\<rparr>"

definition nc_server_tls_get_ctn :: "ctn_query \<Rightarrow> nc_server_tls_opts \<Rightarrow> int \<times> ctn_query" where
  "nc_server_tls_get_ctn q opts = (case find (ctn_fits q) (ctn opts) of None \<Rightarrow> (-1, q) | Some c \<Rightarrow> (0, ctn_answer q c))"

definition nc_server_tls_clear_opts :: "nc_server_tls_opts \<Rightarrow> nc_server_tls_opts option" where
  "nc_server_tls_clear_opts opts =
     Option.bind (nc_server_tls_del_trusted_cert_list None (opts\<lparr>server_cert := None\<rparr>)) (\<lambda>(_, o1).
       Option.bind (nc_server_tls_clear_crls (o1\<lparr>trusted_ca_file := None, trusted_ca_dir := None\<rparr>)) (\<lambda>(_, o2).
         map_option snd (nc_server_tls_del_ctn (-1) None NC_TLS_CTN_UNKNOWN None o2)))"

section \<open>The operations on endpoints\<close>

definition nc_server_tls_endpt_set_server_cert ::
  "string option \<Rightarrow> string option \<Rightarrow> nc_server_opts \<Rightarrow> (int \<times> nc_server_opts) option"
where
  "nc_server_tls_endpt_set_server_cert en n S = with_tls en (nc_server_tls_set_server_cert n) S"

definition nc_server_tls_ch_client_endpt_set_server_cert ::
  "string option \<Rightarrow> string option \<Rightarrow> string option \<Rightarrow> nc_server_opts \<Rightarrow> (int \<times> nc_server_opts) option"
where
  "nc_server_tls_ch_client_endpt_set_server_cert cn en n S = with_ch_tls cn en (nc_server_tls_set_server_cert n) S"

definition nc_server_tls_endpt_add_trusted_cert_list ::
  "string option \<Rightarrow> string option \<Rightarrow> bool \<Rightarrow> nc_server_opts \<Rightarrow> (int \<times> nc_server_opts) option"
where
  "nc_server_tls_endpt_add_trusted_cert_list en n al S = with_tls en (nc_server_tls_add_trusted_cert_list n al) S"

definition nc_server_tls_ch_client_endpt_add_trusted_cert_list ::
  "string option \<Rightarrow> string option \<Rightarrow> string option \<Rightarrow> bool \<Rightarrow> nc_server_opts \<Rightarrow> (int \<times> nc_server_opts) option"
where
  "nc_server_tls_ch_client_endpt_add_trusted_cert_list cn en n al S = with_ch_tls cn en (nc_server_tls_add_trusted_cert_list n al) S"

definition nc_server_tls_endpt_del_trusted_cert_list ::
  "string option \<Rightarrow> string option \<Rightarrow> nc_server_opts \<Rightarrow> (int \<times> nc_server_opts) option"
where
  "nc_server_tls_endpt_del_trusted_cert_list en n S = with_tls en (nc_server_tls_del_trusted_cert_list n) S"

definition nc_server_tls_ch_client_endpt_del_trusted_cert_list ::
  "string option \<Rightarrow> string option \<Rightarrow> string option \<Rightarrow> nc_server_opts \<Rightarrow> (int \<times> nc_server_opts) option"
where
  "nc_server_tls_ch_client_endpt_del_trusted_cert_list cn en n S = with_ch_tls cn en (nc_server_tls_del_trusted_cert_list n) S"

definition nc_server_tls_endpt_set_trusted_ca_paths ::
  "string option \<Rightarrow> string option \<Rightarrow> string option \<Rightarrow> nc_server_opts \<Rightarrow> (int \<times> nc_server_opts) option"
where
  "nc_server_tls_endpt_set_trusted_ca_paths en f d S = with_tls en (nc_server_tls_set_trusted_ca_paths f d) S"

definition nc_server_tls_ch_client_endpt_set_trusted_ca_paths ::
  "string option \<Rightarrow> string option \<Rightarrow> string option \<Rightarrow> string option \<Rightarrow> nc_server_opts \<Rightarrow> (int \<times> nc_server_opts) option"
where
  "nc_server_tls_ch_client_endpt_set_trusted_ca_paths cn en f d S = with_ch_tls cn en (nc_server_tls_set_trusted_ca_paths f d) S"

definition nc_server_tls_endpt_set_crl_paths ::
  "string option \<Rightarrow> string option \<Rightarrow> string option \<Rightarrow> bool \<Rightarrow> bool \<Rightarrow> nc_server_opts \<Rightarrow> (int \<times> nc_server_opts) option"
where
  "nc_server_tls_endpt_set_crl_paths en f d fk dk S = with_tls en (nc_server_tls_set_crl_paths f d fk dk) S"

definition nc_server_tls_ch_client_set_crl_paths ::
  "string option \<Rightarrow> string option \<Rightarrow> string option \<Rightarrow> string option \<Rightarrow> bool \<Rightarrow> bool \<Rightarrow> nc_server_opts \<Rightarrow> (int \<times> nc_server_opts) option"
where
  "nc_server_tls_ch_client_set_crl_paths cn en f d fk dk S = with_ch_tls cn en (nc_server_tls_set_crl_paths f d fk dk) S"

definition nc_server_tls_endpt_clear_crls ::
  "string option \<Rightarrow> nc_server_opts \<Rightarrow> (int \<times> nc_server_opts) option"
where
  "nc_server_tls_endpt_clear_crls en S = with_tls en nc_server_tls_clear_crls S"

definition nc_server_tls_ch_client_endpt_clear_crls ::
  "string option \<Rightarrow> string option \<Rightarrow> nc_server_opts \<Rightarrow> (int \<times> nc_server_opts) option"
where
  "nc_server_tls_ch_client_endpt_clear_crls cn en S = with_ch_tls cn en nc_server_tls_clear_crls S"

definition nc_server_tls_endpt_add_ctn ::
  "string option \<Rightarrow> u32 \<Rightarrow> string option \<Rightarrow> nc_tls_ctn_maptype \<Rightarrow> string option \<Rightarrow> bool \<Rightarrow> nc_server_opts \<Rightarrow> (int \<times> nc_server_opts) option"
where
  "nc_server_tls_endpt_add_ctn en i fp mt nm al S = with_tls en (nc_server_tls_add_ctn i fp mt nm al) S"

definition nc_server_tls_ch_client_endpt_add_ctn ::
  "string option \<Rightarrow> string option \<Rightarrow> u32 \<Rightarrow> string option \<Rightarrow> nc_tls_ctn_maptype \<Rightarrow> string option \<Rightarrow> bool \<Rightarrow> nc_server_opts \<Rightarrow> (int \<times> nc_server_opts) option"
where
  "nc_server_tls_ch_client_endpt_add_ctn cn en i fp mt nm al S = with_ch_tls cn en (nc_server_tls_add_ctn i fp mt nm al) S"

definition nc_server_tls_endpt_del_ctn ::
  "string option \<Rightarrow> int \<Rightarrow> string option \<Rightarrow> nc_tls_ctn_maptype \<Rightarrow> string option \<Rightarrow> nc_server_opts \<Rightarrow> (int \<times> nc_server_opts) option"
where
  "nc_server_tls_endpt_del_ctn en i fp mt nm S = with_tls en (nc_server_tls_del_ctn i fp mt nm) S"

definition nc_server_tls_ch_client_endpt_del_ctn ::
  "string option \<Rightarrow> string option \<Rightarrow> int \<Rightarrow> string option \<Rightarrow> nc_tls_ctn_maptype \<Rightarrow> string option \<Rightarrow> nc_server_opts \<Rightarrow> (int \<times> nc_server_opts) option"
where
  "nc_server_tls_ch_client_endpt_del_ctn cn en i fp mt nm S = with_ch_tls cn en (nc_server_tls_del_ctn i fp mt nm) S"

text \<open>A query gives back the answer in its parameters.\<close>

definition nc_server_tls_endpt_get_ctn :: "string option \<Rightarrow> ctn_query \<Rightarrow> nc_server_opts \<Rightarrow> (int \<times> ctn_query \<times> nc_server_opts) option" where
  "nc_server_tls_endpt_get_ctn en q S =
     (if en = None then Some (-1, q, S)
      else case nc_server_endpt_lock_get en NC_TI_OPENSSL S of
             (None, S1) \<Rightarrow> Some (-1, q, S1)
           | (Some i, S1) \<Rightarrow>
               (case ep_opts (endpts S1 ! i) of
                  Tls_opts opts \<Rightarrow> (case nc_server_tls_get_ctn q opts of (r, a) \<Rightarrow> Some (r, a, S1\<lparr>endpt_lk := RW_free\<rparr>))
                | _ \<Rightarrow> None))"

definition nc_server_tls_ch_client_endpt_get_ctn ::
  "string option \<Rightarrow> string option \<Rightarrow> ctn_query \<Rightarrow> nc_server_opts \<Rightarrow> (int \<times> ctn_query \<times> nc_server_opts) option"
where
  "nc_server_tls_ch_client_endpt_get_ctn cn en q S =
     (case nc_server_ch_client_lock cn en NC_TI_OPENSSL S of
        (Some i, Some j, S1) \<Rightarrow>
          (case ce_opts (ch_endpts (ch_clients S1 ! i) ! j) of
             Tls_opts opts \<Rightarrow> (case nc_server_tls_get_ctn q opts of (r, a) \<Rightarrow> Some (r, a, nc_server_ch_client_unlock i S1))
           | _ \<Rightarrow> None)
      | (_, _, S1) \<Rightarrow> Some (-1, q, S1))"

section \<open>Callbacks\<close>

definition nc_server_tls_set_server_cert_clb :: "nat option \<Rightarrow> nat option \<Rightarrow> nat option \<Rightarrow> nc_server_opts \<Rightarrow> nc_server_opts" where
  "nc_server_tls_set_server_cert_clb f d fr S =
     (if f = None then S else S\<lparr>server_cert_clb := \<lparr>cb_fn = f, cb_data = d, cb_free = fr\<rparr>\<rparr>)"

definition nc_server_tls_set_server_cert_chain_clb :: "nat option \<Rightarrow> nat option \<Rightarrow> nat option \<Rightarrow> nc_server_opts \<Rightarrow> nc_server_opts" where
  "nc_server_tls_set_server_cert_chain_clb f d fr S =
     (if f = None then S else S\<lparr>server_cert_chain_clb := \<lparr>cb_fn = f, cb_data = d, cb_free = fr\<rparr>\<rparr>)"

definition nc_server_tls_set_trusted_cert_list_clb :: "nat option \<Rightarrow> nat option \<Rightarrow> nat option \<Rightarrow> nc_server_opts \<Rightarrow> nc_server_opts" where
  "nc_server_tls_set_trusted_cert_list_clb f d fr S =
     (if f = None then S else S\<lparr>trusted_cert_list_clb := \<lparr>cb_fn = f, cb_data = d, cb_free = fr\<rparr>\<rparr>)"

definition nc_server_tls_set_verify_clb :: "nat option \<Rightarrow> nc_server_opts \<Rightarrow> nc_server_opts" where
  "nc_server_tls_set_verify_clb f S = S\<lparr>user_verify_clb := f\<rparr>"

section \<open>The list of entries\<close>

text \<open>The reference for adding: a recursive insertion that keeps the order.\<close>

fun ctn_put :: "u32 \<Rightarrow> (nc_ctn \<Rightarrow> nc_ctn) \<Rightarrow> nc_ctn list \<Rightarrow> nc_ctn list" where
  "ctn_put i f [] = [f (new_ctn i)]"
| "ctn_put i f (c # cs) =
     (if i < ctn_id c then f (new_ctn i) # c # cs else if ctn_id c = i then f c # cs else c # ctn_put i f cs)"

text \<open>Invariant: identifiers ascend.\<close>

definition ctn_sorted :: "nc_ctn list \<Rightarrow> bool" where
  "ctn_sorted cs \<longleftrightarrow> sorted_wrt (<) (map ctn_id cs)"

text \<open>The entries as a map from identifiers.\<close>

definition ctn_map :: "nc_ctn list \<Rightarrow> u32 \<rightharpoonup> nc_ctn" where
  "ctn_map cs = map_of (map (\<lambda>c. (ctn_id c, c)) cs)"

lemma ctn_walk_bound: "cs \<noteq> [] \<Longrightarrow> ctn_walk i cs < length cs"
  by (induction i cs rule: ctn_walk.induct) auto

text \<open>The insertion of the code, for a list whose head is not beyond \<open>i\<close>.\<close>

lemma ctn_walk_put:
  assumes "cs \<noteq> []" and "ctn_id (hd cs) \<le> i" and "ctn_sorted cs"
  shows "ctn_put i f cs =
    (if ctn_id (cs ! ctn_walk i cs) = i then cs[ctn_walk i cs := f (cs ! ctn_walk i cs)]
     else take (ctn_walk i cs + 1) cs @ f (new_ctn i) # drop (ctn_walk i cs + 1) cs)"
  using assms
proof (induction i cs rule: ctn_walk.induct)
  case (1 i c d cs)
  show ?case
  proof (cases "ctn_id d \<le> i")
    case True
    have "ctn_id c < ctn_id d" using "1.prems"(3) by (simp add: ctn_sorted_def)
    then have "ctn_put i f (c # d # cs) = c # ctn_put i f (d # cs)" using True by auto
    moreover have "ctn_sorted (d # cs)" using "1.prems"(3) by (simp add: ctn_sorted_def)
    ultimately show ?thesis using "1.IH" [OF True] True by simp
  next
    case False
    then show ?thesis using "1.prems" by auto
  qed
qed auto

lemma add_ctn_put:
  assumes "ctn_sorted (ctn opts)"
  shows "nc_server_tls_add_ctn i fp mt nm True opts = Some (0, opts\<lparr>ctn := ctn_put i (ctn_set fp mt nm) (ctn opts)\<rparr>)"
proof (cases "ctn opts")
  case Nil
  then show ?thesis by (simp add: nc_server_tls_add_ctn_def)
next
  case (Cons c cs)
  show ?thesis
  proof (cases "i < ctn_id c")
    case True
    then show ?thesis by (simp add: nc_server_tls_add_ctn_def Cons)
  next
    case False
    have "ctn_put i (ctn_set fp mt nm) (ctn opts) =
      (if ctn_id (ctn opts ! ctn_walk i (ctn opts)) = i
       then (ctn opts)[ctn_walk i (ctn opts) := ctn_set fp mt nm (ctn opts ! ctn_walk i (ctn opts))]
       else take (ctn_walk i (ctn opts) + 1) (ctn opts) @ ctn_set fp mt nm (new_ctn i) # drop (ctn_walk i (ctn opts) + 1) (ctn opts))"
      by (rule ctn_walk_put) (use False Cons assms in auto)
    then show ?thesis using False Cons by (simp add: nc_server_tls_add_ctn_def Let_def)
  qed
qed

lemma ctn_set_id [simp]: "ctn_id (ctn_set fp mt nm c) = ctn_id c" "ctn_id (new_ctn i) = i"
  by (simp_all add: ctn_set_def new_ctn_def Let_def)

lemma ctn_put_props:
  assumes "ctn_sorted cs" and "\<And>c. ctn_id (f c) = ctn_id c"
  shows "ctn_sorted (ctn_put i f cs) \<and> ctn_id ` set (ctn_put i f cs) = insert i (ctn_id ` set cs) \<and>
    ctn_map (ctn_put i f cs) = (ctn_map cs)(i \<mapsto> f (case ctn_map cs i of None \<Rightarrow> new_ctn i | Some c \<Rightarrow> c))"
  using assms(1)
proof (induction cs)
  case Nil
  then show ?case using assms(2) by (simp add: ctn_sorted_def ctn_map_def)
next
  case (Cons c cs)
  have s: "ctn_sorted cs" and lt: "\<And>d. d \<in> set cs \<Longrightarrow> ctn_id c < ctn_id d" using Cons.prems by (auto simp: ctn_sorted_def)
  note IH = Cons.IH [OF s]
  consider "i < ctn_id c" | "ctn_id c = i" | "ctn_id c < i" by force
  then show ?case
  proof cases
    case 1
    have "ctn_map (c # cs) i = None" using 1 lt by (force simp: ctn_map_def map_of_eq_None_iff)
    then show ?thesis using 1 Cons.prems lt assms(2) by (force simp: ctn_sorted_def ctn_map_def)
  next
    case 2
    then show ?thesis using Cons.prems assms(2) by (auto simp: ctn_sorted_def ctn_map_def)
  next
    case 3
    have m: "ctn_map (c # ds) = (ctn_map ds)(ctn_id c \<mapsto> c)" for ds by (simp add: ctn_map_def)
    have "ctn_sorted (c # ctn_put i f cs)" using 3 IH lt by (fastforce simp: ctn_sorted_def)
    moreover have "ctn_map (c # ctn_put i f cs) = (ctn_map (c # cs))(i \<mapsto> f (case ctn_map (c # cs) i of None \<Rightarrow> new_ctn i | Some c \<Rightarrow> c))"
      using 3 IH by (auto simp: m fun_eq_iff)
    ultimately show ?thesis using 3 IH by auto
  qed
qed

text \<open>A removal keeps exactly the entries that do not match.\<close>

lemma ctn_del_loop_filter:
  assumes "\<forall>c \<in> set cs. test c \<noteq> None"
  shows "ctn_del_loop test ret cs =
    Some (if \<exists>c \<in> set cs. test c = Some True then 0 else ret, filter (\<lambda>c. test c = Some False) cs)"
  using assms
proof (induction cs arbitrary: ret)
  case (Cons c cs)
  then obtain b where b: "test c = Some b" by auto
  have t: "\<forall>c \<in> set cs. test c \<noteq> None" using Cons.prems by simp
  show ?case using Cons.IH [OF t] b by (cases b) auto
qed simp

lemma ctn_map_filter:
  "ctn_sorted cs \<Longrightarrow> ctn_map (filter (\<lambda>c. ctn_id c \<noteq> i) cs) = (ctn_map cs)(i := None)"
  by (induction cs) (auto simp: ctn_map_def ctn_sorted_def fun_eq_iff)

lemma ctn_sorted_filter: "ctn_sorted cs \<Longrightarrow> ctn_sorted (filter P cs)"
  by (induction cs) (auto simp: ctn_sorted_def)

lemma ctn_map_id: "ctn_map cs i = Some c \<Longrightarrow> ctn_id c = i \<and> c \<in> set cs"
  unfolding ctn_map_def by (drule map_of_SomeD) auto

text \<open>C20: The list of cert-to-name entries refines a finite map from identifiers: it stays sorted, adding
  an entry creates it or updates just the fields that are given, a failed allocation changes nothing, and
  removing by identifier removes that entry alone and reports whether there was one.\<close>

theorem ctn_refines_map:
  assumes "ctn_sorted (ctn opts)"
  shows "\<exists>added deleted.
    nc_server_tls_add_ctn i fp mt nm True opts = Some (0, added) \<and> ctn_sorted (ctn added) \<and>
    ctn_map (ctn added) =
      (ctn_map (ctn opts))(i \<mapsto> ctn_set fp mt nm (case ctn_map (ctn opts) i of None \<Rightarrow> new_ctn i | Some c \<Rightarrow> c)) \<and>
    nc_server_tls_del_ctn (uint i) None NC_TLS_CTN_UNKNOWN None opts =
      Some (if ctn_map (ctn opts) i = None then -1 else 0, deleted) \<and> ctn_sorted (ctn deleted) \<and>
    ctn_map (ctn deleted) = (ctn_map (ctn opts))(i := None)"
proof -
  let ?a = "opts\<lparr>ctn := ctn_put i (ctn_set fp mt nm) (ctn opts)\<rparr>"
  let ?d = "opts\<lparr>ctn := filter (\<lambda>c. ctn_id c \<noteq> i) (ctn opts)\<rparr>"
  have t: "ctn_match (uint i) None NC_TLS_CTN_UNKNOWN None = (\<lambda>c. Some (ctn_id c = i))"
    by (auto simp: fun_eq_iff ctn_match_def and_then_def str_crit_def word_uint_eq_iff split: bool.splits)
  have m: "(\<exists>c \<in> set (ctn opts). ctn_id c = i) \<longleftrightarrow> ctn_map (ctn opts) i \<noteq> None"
    unfolding ctn_map_def map_of_eq_None_iff by force
  have d: "nc_server_tls_del_ctn (uint i) None NC_TLS_CTN_UNKNOWN None opts = Some (if ctn_map (ctn opts) i = None then -1 else 0, ?d)"
    using m ctn_del_loop_filter [of "ctn opts" "\<lambda>c. Some (ctn_id c = i)" "-1"] by (simp add: nc_server_tls_del_ctn_def t)
  show ?thesis
    by (rule exI [of _ ?a], rule exI [of _ ?d])
       (use add_ctn_put [OF assms] d ctn_put_props [OF assms, of "ctn_set fp mt nm" i] ctn_map_filter [OF assms]
          ctn_sorted_filter [OF assms] in simp)
qed

definition demo_tls :: nc_server_tls_opts where
  "demo_tls = tls_defaults\<lparr>ctn := [\<lparr>ctn_id = 3, fingerprint = Some ''01:aa'', map_type = NC_TLS_CTN_SPECIFIED, ctn_name = Some ''bob''\<rparr>,
     \<lparr>ctn_id = 8, fingerprint = Some ''04:bb'', map_type = NC_TLS_CTN_COMMON_NAME, ctn_name = None\<rparr>]\<rparr>"

lemma demo_tls_sorted: "ctn_sorted (ctn demo_tls)"
  by (simp add: demo_tls_def ctn_sorted_def)

theorem ctn_refines_map_witness:
  "\<exists>added deleted.
    nc_server_tls_add_ctn 5 (Some ''02:cc'') NC_TLS_CTN_SAN_ANY None True demo_tls = Some (0, added) \<and> ctn_sorted (ctn added) \<and>
    nc_server_tls_del_ctn (uint (5 :: u32)) None NC_TLS_CTN_UNKNOWN None demo_tls =
      Some (if ctn_map (ctn demo_tls) 5 = None then -1 else 0, deleted) \<and> ctn_sorted (ctn deleted)"
  using ctn_refines_map [OF demo_tls_sorted, of 5 "Some ''02:cc''" NC_TLS_CTN_SAN_ANY None] by blast

text \<open>Removing the last but one of the lists of trusted certificates leaves a freed pointer behind.\<close>

lemma del_trusted_list_dangling:
  assumes "trusted_cert_lists opts = map Key (xs @ [n, m])" and "unat (trusted_cert_list_count opts) = length xs + 2" and "n \<notin> set xs"
  shows "\<exists>opts'. nc_server_tls_del_trusted_cert_list (Some n) opts = Some (0, opts') \<and> trusted_cert_lists opts' = map Key xs @ [Garbage]"
proof -
  have k: "tcl_slots opts = Some (map Key (xs @ [n, m]))" using assms by (simp add: tcl_slots_def)
  have f: "find_idx (\<lambda>k. k = n) (xs @ [n, m]) = Some (length xs)" using assms(3) by (induction xs) auto
  have "find_key n (map Key (xs @ [n, m])) = Some (Some (length xs))" using find_key_hk [of n "xs @ [n, m]"] f by simp
  moreover have "slot_remove (length xs) (map Key (xs @ [n, m])) = map Key xs @ [Garbage]"
    using slot_remove_split [of "map Key xs" "Key n" "[Key m]"] by simp
  ultimately show ?thesis by (simp only: nc_server_tls_del_trusted_cert_list_def k option.case) simp
qed

end
