(* ===== verification/NC_TlsAuth.thy ===== *)
theory NC_TlsAuth
  imports NC_TlsOpts
begin

text \<open>
  Accepting a TLS session (\<^verbatim>\<open>session_server_tls.c\<close>): the user a client certificate stands for (cert-to-name),
  the verification callback with its checks for revocation, the loading of the server certificate and of
  the trusted ones, and the acceptance loop. Certificates and revocation lists are records of what
  OpenSSL reports about them; the outcomes of its calls are arguments.
\<close>

section \<open>Certificates\<close>

datatype hash = MD5 | SHA1 | SHA224 | SHA256 | SHA384 | SHA512

datatype san = GEN_EMAIL string | GEN_DNS string | GEN_IPADD "u8 list" | Gen_other

record cert =
  subject :: string
  issuer :: string
  serial :: int
  pubkey :: "bool list option"
  sans :: "san list option"
  x509_digest :: "hash \<Rightarrow> u8 list option"

record crl =
  crl_signature_ok :: bool
  crl_has_next :: bool
  crl_expired :: bool
  crl_revoked :: "int list"

section \<open>Printing\<close>

definition hex_chr :: "nat \<Rightarrow> char" where
  "hex_chr d = (if d < 10 then char_of (48 + d) else char_of (87 + d))"

definition hex_byte :: "u8 \<Rightarrow> string" where
  "hex_byte b = [hex_chr (unat b div 16), hex_chr (unat b mod 16)]"

text \<open>Bytes in hexadecimal, separated by colons. An empty digest would make the loop run over.\<close>

fun hex_colon :: "u8 list \<Rightarrow> string" where
  "hex_colon [] = []"
| "hex_colon [b] = hex_byte b"
| "hex_colon (b # bs) = hex_byte b @ CHR '':'' # hex_colon bs"

definition digest_to_str :: "u8 list \<Rightarrow> string option" where
  "digest_to_str bs = (if bs = [] then None else Some (hex_colon bs))"

definition chr_lower :: "char \<Rightarrow> char" where
  "chr_lower c = (let n = (of_char c :: nat) in if 65 \<le> n \<and> n \<le> 90 then char_of (n + 32) else c)"

definition strcasecmp_eq :: "string \<Rightarrow> string \<Rightarrow> bool" where
  "strcasecmp_eq a b \<longleftrightarrow> map chr_lower a = map chr_lower b"

definition cert_pubkey_match :: "cert \<Rightarrow> cert \<Rightarrow> bool" where
  "cert_pubkey_match c1 c2 \<longleftrightarrow> pubkey c1 \<noteq> None \<and> pubkey c1 = pubkey c2"

section \<open>Cert-to-name\<close>

text \<open>\<^verbatim>\<open>strstr(subject, "CN=")\<close>: what follows the first occurrence.\<close>

fun after_cn :: "string \<Rightarrow> string option" where
  "after_cn [] = None"
| "after_cn (c # cs) = (if take 3 (c # cs) = ''CN='' then Some (drop 3 (c # cs)) else after_cn cs)"

definition ip_name :: "u8 list \<Rightarrow> string option" where
  "ip_name ip =
     (case ip of
        [a, b, c, d] \<Rightarrow> Some (dec_str (unat a) @ ''.'' @ dec_str (unat b) @ ''.'' @ dec_str (unat c) @ ''.'' @ dec_str (unat d))
      | _ \<Rightarrow> if length ip = 16 then Some (concat (map hex_byte ip)) else None)"

text \<open>The loop over the alternative names: the first one of the wanted kind.\<close>

fun san_scan :: "nc_tls_ctn_maptype \<Rightarrow> san list \<Rightarrow> string option" where
  "san_scan mt [] = None"
| "san_scan mt (GEN_EMAIL e # ns) =
     (if mt = NC_TLS_CTN_SAN_ANY \<or> mt = NC_TLS_CTN_SAN_RFC822_NAME then Some e else san_scan mt ns)"
| "san_scan mt (GEN_DNS d # ns) =
     (if mt = NC_TLS_CTN_SAN_ANY \<or> mt = NC_TLS_CTN_SAN_DNS_NAME then Some d else san_scan mt ns)"
| "san_scan mt (GEN_IPADD ip # ns) =
     (if mt = NC_TLS_CTN_SAN_ANY \<or> mt = NC_TLS_CTN_SAN_IP_ADDRESS
      then (case ip_name ip of Some s \<Rightarrow> Some s | None \<Rightarrow> san_scan mt ns) else san_scan mt ns)"
| "san_scan mt (Gen_other # ns) = san_scan mt ns"

text \<open>The user name, or \<open>None\<close> for the result 1.\<close>

definition nc_tls_ctn_get_username_from_cert :: "cert \<Rightarrow> nc_tls_ctn_maptype \<Rightarrow> string option" where
  "nc_tls_ctn_get_username_from_cert client_cert mt =
     (if mt = NC_TLS_CTN_COMMON_NAME
      then map_option (takeWhile (\<lambda>c. c \<noteq> CHR ''/'')) (after_cn (subject client_cert))
      else case sans client_cert of None \<Rightarrow> None | Some names \<Rightarrow> san_scan mt names)"

text \<open>The first two characters of a fingerprint name the algorithm.\<close>

definition fp_hash :: "string \<Rightarrow> hash option" where
  "fp_hash fp =
     (if take 2 fp = ''01'' then Some MD5 else if take 2 fp = ''02'' then Some SHA1
      else if take 2 fp = ''03'' then Some SHA224 else if take 2 fp = ''04'' then Some SHA256
      else if take 2 fp = ''05'' then Some SHA384 else if take 2 fp = ''06'' then Some SHA512 else None)"

definition ctn_valid :: "nc_ctn \<Rightarrow> bool" where
  "ctn_valid c \<longleftrightarrow> fingerprint c \<noteq> None \<and> map_type c \<noteq> NC_TLS_CTN_UNKNOWN \<and>
     \<not> (map_type c = NC_TLS_CTN_SPECIFIED \<and> ctn_name c = None)"

text \<open>The loop: 0 with the kind of the entry and its name, 1 for no match, -1 when a digest cannot be
  computed. A fingerprint that ends before its digest is read beyond its end (\<open>None\<close>).\<close>

fun ctn_scan :: "cert \<Rightarrow> nc_ctn list \<Rightarrow> (int \<times> nc_tls_ctn_maptype \<times> string option) option" where
  "ctn_scan crt [] = Some (1, NC_TLS_CTN_UNKNOWN, None)"
| "ctn_scan crt (c # cs) =
     (if \<not> ctn_valid c then ctn_scan crt cs
      else
        let fp = the (fingerprint c)
        in case fp_hash fp of
             None \<Rightarrow> ctn_scan crt cs
           | Some h \<Rightarrow>
               (case x509_digest crt h of
                  None \<Rightarrow> Some (-1, NC_TLS_CTN_UNKNOWN, None)
                | Some d \<Rightarrow>
                    (case digest_to_str d of
                       None \<Rightarrow> None
                     | Some s \<Rightarrow>
                         if length fp < 3 then None
                         else if strcasecmp_eq (drop 3 fp) s
                         then Some (0, map_type c, if map_type c = NC_TLS_CTN_SPECIFIED then ctn_name c else None)
                         else ctn_scan crt cs)))"

definition nc_tls_cert_to_name :: "bool \<Rightarrow> nc_ctn list \<Rightarrow> cert \<Rightarrow> (int \<times> nc_tls_ctn_maptype \<times> string option) option" where
  "nc_tls_cert_to_name alloc ctns crt =
     (if \<not> alloc \<or> ctns = [] then Some (-1, NC_TLS_CTN_UNKNOWN, None) else ctn_scan crt ctns)"

section \<open>The verification callback\<close>

text \<open>One call by OpenSSL: its own verdict, the depth and the current certificate, the certificate of the
  peer, the trusted certificates with the peer's subject, and the revocation lists found in the store for
  the subject and the issuer of the current certificate.\<close>

record verify_call =
  vc_preverify :: bool
  vc_depth :: nat
  vc_cert :: cert
  vc_peer :: cert
  vc_trusted :: "cert list option"
  vc_subject_crl :: "crl option"
  vc_issuer_crl :: "crl option"
  vc_alloc :: bool

record tls_sess =
  ts :: nc_session
  client_cert :: "cert option"

text \<open>The checks of the revocation lists: the list of the subject must be sound, and the issuer must not
  have revoked the certificate.\<close>

definition crl_check :: "nc_server_tls_opts \<Rightarrow> verify_call \<Rightarrow> bool" where
  "crl_check opts v =
     (if crl_store opts = None then True
      else (case vc_subject_crl v of None \<Rightarrow> True | Some l \<Rightarrow> crl_signature_ok l \<and> crl_has_next l \<and> \<not> crl_expired l) \<and>
           (case vc_issuer_crl v of None \<Rightarrow> True | Some l \<Rightarrow> \<not> list_ex (\<lambda>n. n = serial (vc_cert v)) (crl_revoked l)))"

text \<open>The user of a match: the name of the entry, or a field of the certificate of the peer.\<close>

definition ctn_username :: "cert \<Rightarrow> nc_tls_ctn_maptype \<Rightarrow> string option \<Rightarrow> string option" where
  "ctn_username peer mt nm = (if mt = NC_TLS_CTN_SPECIFIED then nm else nc_tls_ctn_get_username_from_cert peer mt)"

definition cert_to_user ::
  "(nat \<Rightarrow> nc_session \<Rightarrow> bool) \<Rightarrow> nc_server_opts \<Rightarrow> nc_server_tls_opts \<Rightarrow> verify_call \<Rightarrow> cert \<Rightarrow> tls_sess \<Rightarrow> (bool \<times> tls_sess) option"
where
  "cert_to_user vf S opts v peer st =
     (case nc_tls_cert_to_name (vc_alloc v) (ctn opts) (vc_cert v) of
        None \<Rightarrow> None
      | Some (r, mt, nm) \<Rightarrow>
          if r = -1 then Some (False, st)
          else if r = 1 then Some (0 < vc_depth v, st)
          else (case ctn_username peer mt nm of
                  None \<Rightarrow> Some (0 < vc_depth v, st)
                | Some u \<Rightarrow>
                    let st1 = st\<lparr>ts := (ts st)\<lparr>username := Some u\<rparr>\<rparr>
                    in case user_verify_clb S of
                         None \<Rightarrow> Some (True, st1)
                       | Some f \<Rightarrow> Some (vf f (ts st1), st1)))"

definition nc_tlsclb_verify ::
  "(nat \<Rightarrow> nc_session \<Rightarrow> bool) \<Rightarrow> nc_server_opts \<Rightarrow> nc_server_tls_opts \<Rightarrow> verify_call \<Rightarrow> tls_sess \<Rightarrow> (bool \<times> tls_sess) option"
where
  "nc_tlsclb_verify vf S opts v st0 =
     (let peer = (case client_cert st0 of None \<Rightarrow> vc_peer v | Some c \<Rightarrow> c);
          st = st0\<lparr>client_cert := Some peer\<rparr>
      in if \<not> vc_preverify v
         then Some (case vc_trusted v of None \<Rightarrow> False | Some cs \<Rightarrow> list_ex (cert_pubkey_match peer) cs, st)
         else if \<not> crl_check opts v then Some (False, st)
         else if username (ts st) \<noteq> None then Some (True, st)
         else cert_to_user vf S opts v peer st)"

text \<open>The calls of one handshake; OpenSSL gives up at the first refusal.\<close>

fun verify_run ::
  "(nat \<Rightarrow> nc_session \<Rightarrow> bool) \<Rightarrow> nc_server_opts \<Rightarrow> nc_server_tls_opts \<Rightarrow> tls_sess \<Rightarrow> verify_call list \<Rightarrow> (bool \<times> tls_sess) option"
where
  "verify_run vf S opts st [] = Some (True, st)"
| "verify_run vf S opts st (v # vs) =
     (case nc_tlsclb_verify vf S opts v st of
        None \<Rightarrow> None
      | Some (ok, st1) \<Rightarrow> if ok then verify_run vf S opts st1 vs else Some (False, st1))"

section \<open>Loading certificates\<close>

text \<open>What OpenSSL makes of texts, files and certificates, and what the callbacks of the application return
  (\<open>None\<close> for a failure).\<close>

record tls_lib =
  lib_parse_cert :: "string \<Rightarrow> cert option"
  lib_read_cert :: "string \<Rightarrow> cert option"
  lib_parse_key :: "string \<Rightarrow> nat option"
  lib_use_cert_file :: "string \<Rightarrow> bool"
  lib_use_cert :: "cert \<Rightarrow> bool"
  lib_use_key_file :: "string \<Rightarrow> bool"
  lib_use_key :: "nat \<Rightarrow> bool"
  lib_add_chain :: "cert \<Rightarrow> bool"
  lib_add_trusted :: "cert \<Rightarrow> bool"
  lib_load_file :: "string \<Rightarrow> bool"
  lib_add_dir :: "string \<Rightarrow> bool"
  server_cert_fn :: "nat \<Rightarrow> string \<Rightarrow> (string option \<times> string option \<times> string option \<times> string option \<times> nc_ssh_key_type) option"
  cert_chain_fn :: "nat \<Rightarrow> string \<Rightarrow> (string list \<times> string list) option"
  cert_list_fn :: "nat \<Rightarrow> string \<Rightarrow> (string list \<times> string list) option"

definition base64der_to_cert :: "tls_lib \<Rightarrow> string option \<Rightarrow> cert option" where
  "base64der_to_cert L d =
     (case d of None \<Rightarrow> None
      | Some t \<Rightarrow> lib_parse_cert L (''-----BEGIN CERTIFICATE-----'' @ [CHR 0x0A] @ t @ [CHR 0x0A] @ ''-----END CERTIFICATE-----''))"

text \<open>Without a name of the key type a null pointer is formatted (\<open>None\<close>).\<close>

definition base64der_to_privatekey :: "tls_lib \<Rightarrow> string option \<Rightarrow> string option \<Rightarrow> nat option option" where
  "base64der_to_privatekey L d key_str =
     (case d of None \<Rightarrow> Some None
      | Some t \<Rightarrow>
          map_option (\<lambda>k. lib_parse_key L (''-----BEGIN '' @ k @ '' PRIVATE KEY-----'' @ [CHR 0x0A] @ t @ [CHR 0x0A] @
                         ''-----END '' @ k @ '' PRIVATE KEY-----'')) key_str)"

definition tls_load_cert :: "tls_lib \<Rightarrow> string option \<Rightarrow> string option \<Rightarrow> cert option" where
  "tls_load_cert L pth d = (case pth of Some p \<Rightarrow> lib_read_cert L p | None \<Rightarrow> base64der_to_cert L d)"

fun load_chain :: "tls_lib \<Rightarrow> cert option list \<Rightarrow> cert list \<Rightarrow> int \<times> cert list" where
  "load_chain L [] acc = (0, acc)"
| "load_chain L (None # cs) acc = (-1, acc)"
| "load_chain L (Some c # cs) acc = (if lib_add_chain L c then load_chain L cs (acc @ [c]) else (-1, acc))"

text \<open>The result and the certificates of the chain.\<close>

definition nc_tls_ctx_set_server_cert_chain :: "tls_lib \<Rightarrow> nc_server_opts \<Rightarrow> string \<Rightarrow> int \<times> cert list" where
  "nc_tls_ctx_set_server_cert_chain L S name =
     (case cb_fn (server_cert_chain_clb S) of
        None \<Rightarrow> (0, [])
      | Some f \<Rightarrow>
          (case cert_chain_fn L f name of
             None \<Rightarrow> (-1, [])
           | Some (paths, datas) \<Rightarrow>
               load_chain L (map (\<lambda>p. tls_load_cert L (Some p) None) paths @ map (\<lambda>d. tls_load_cert L None (Some d)) datas) []))"

definition load_key :: "tls_lib \<Rightarrow> string option \<Rightarrow> string option \<Rightarrow> nc_ssh_key_type \<Rightarrow> bool option" where
  "load_key L key_path key_data ty =
     (case key_path of
        Some p \<Rightarrow> Some (lib_use_key_file L p)
      | None \<Rightarrow> map_option (\<lambda>k. case k of None \<Rightarrow> False | Some x \<Rightarrow> lib_use_key L x)
                 (base64der_to_privatekey L key_data (nc_keytype2str ty)))"

definition nc_tls_ctx_set_server_cert_key :: "tls_lib \<Rightarrow> nc_server_opts \<Rightarrow> string option \<Rightarrow> (int \<times> cert list) option" where
  "nc_tls_ctx_set_server_cert_key L S cert_name =
     (case (cert_name, cb_fn (server_cert_clb S)) of
        (Some n, Some f) \<Rightarrow>
          (case server_cert_fn L f n of
             None \<Rightarrow> Some (-1, [])
           | Some (cert_path, cert_data, key_path, key_data, ty) \<Rightarrow>
               if \<not> (case cert_path of
                       Some p \<Rightarrow> lib_use_cert_file L p
                     | None \<Rightarrow> (case base64der_to_cert L cert_data of None \<Rightarrow> False | Some c \<Rightarrow> lib_use_cert L c))
               then Some (-1, [])
               else (case load_key L key_path key_data ty of
                       None \<Rightarrow> None
                     | Some False \<Rightarrow> Some (-1, [])
                     | Some True \<Rightarrow> Some (nc_tls_ctx_set_server_cert_chain L S n)))
      | _ \<Rightarrow> Some (-1, []))"

text \<open>A certificate that cannot be loaded or added is left out.\<close>

definition tls_store_add_trusted_cert :: "tls_lib \<Rightarrow> cert option \<Rightarrow> cert list \<Rightarrow> cert list" where
  "tls_store_add_trusted_cert L c store = (case c of Some x \<Rightarrow> if lib_add_trusted L x then store @ [x] else store | None \<Rightarrow> store)"

fun trusted_lists_loop ::
  "tls_lib \<Rightarrow> (string \<Rightarrow> (string list \<times> string list) option) \<Rightarrow> slot list \<Rightarrow> cert list \<Rightarrow> (int \<times> cert list) option"
where
  "trusted_lists_loop L run [] store = Some (0, store)"
| "trusted_lists_loop L run (Garbage # ks) store = None"
| "trusted_lists_loop L run (Key k # ks) store =
     (case run k of
        None \<Rightarrow> Some (-1, store)
      | Some (paths, datas) \<Rightarrow>
          trusted_lists_loop L run ks
            (fold (tls_store_add_trusted_cert L)
               (map (\<lambda>p. tls_load_cert L (Some p) None) paths @ map (\<lambda>d. tls_load_cert L None (Some d)) datas) store))"

definition nc_tls_store_set_trusted_certs :: "tls_lib \<Rightarrow> nc_server_opts \<Rightarrow> nc_server_tls_opts \<Rightarrow> (int \<times> cert list) option" where
  "nc_tls_store_set_trusted_certs L S opts =
     (case cb_fn (trusted_cert_list_clb S) of
        None \<Rightarrow> Some (-1, [])
      | Some f \<Rightarrow> (case tcl_slots opts of None \<Rightarrow> None | Some ks \<Rightarrow> trusted_lists_loop L (cert_list_fn L f) ks []))"

section \<open>Accepting a session\<close>

text \<open>One call of \<^verbatim>\<open>SSL_accept\<close>: its result, whether it waits for data, the verification calls it made, and
  the time after it.\<close>

record tls_round =
  tr_ret :: int
  tr_want_read :: bool
  tr_calls :: "verify_call list"
  tr_now :: timespec

definition nc_server_tls_accept_check :: "int \<Rightarrow> int" where
  "nc_server_tls_accept_check r = r"

fun tls_accept_loop ::
  "(nat \<Rightarrow> nc_session \<Rightarrow> bool) \<Rightarrow> nc_server_opts \<Rightarrow> nc_server_tls_opts \<Rightarrow> timespec option \<Rightarrow> tls_sess \<Rightarrow> tls_round list \<Rightarrow>
   (int \<times> tls_sess) option"
where
  "tls_accept_loop vf S opts dl st [] = None"
| "tls_accept_loop vf S opts dl st (r # rs) =
     (case verify_run vf S opts st (tr_calls r) of
        None \<Rightarrow> None
      | Some (_, st1) \<Rightarrow>
          if tr_ret r = -1 \<and> tr_want_read r
          then (if (case dl of None \<Rightarrow> False | Some d \<Rightarrow> nc_difftimespec_mono_cur d (tr_now r) < 1) then Some (0, st1)
                else tls_accept_loop vf S opts dl st1 rs)
          else Some (if nc_server_tls_accept_check (tr_ret r) \<noteq> 1 then -1 else 1, st1))"

record tls_env =
  te_lib :: tls_lib
  te_ctx_new :: bool
  te_ssl_new :: bool
  te_verify_fn :: "nat \<Rightarrow> nc_session \<Rightarrow> bool"
  te_start :: timespec
  te_rounds :: "tls_round list"

text \<open>The boolean tells whether the socket was closed here.\<close>

definition nc_accept_tls_session ::
  "tls_env \<Rightarrow> nc_server_opts \<Rightarrow> nc_server_tls_opts \<Rightarrow> int \<Rightarrow> tls_sess \<Rightarrow> (int \<times> bool \<times> tls_sess) option"
where
  "nc_accept_tls_session A S opts timeout st =
     (if \<not> te_ctx_new A then Some (-1, True, st)
      else case nc_tls_ctx_set_server_cert_key (te_lib A) S (server_cert opts) of
             None \<Rightarrow> None
           | Some (r, _) \<Rightarrow>
               if r \<noteq> 0 then Some (-1, True, st)
               else (case nc_tls_store_set_trusted_certs (te_lib A) S opts of
                       None \<Rightarrow> None
                     | Some (r2, _) \<Rightarrow>
                         if r2 \<noteq> 0 then Some (-1, True, st)
                         else if \<not> (case trusted_ca_file opts of None \<Rightarrow> True | Some f \<Rightarrow> lib_load_file (te_lib A) f) \<or>
                                 \<not> (case trusted_ca_dir opts of None \<Rightarrow> True | Some d \<Rightarrow> lib_add_dir (te_lib A) d)
                         then Some (-1, True, st)
                         else
                           let st1 = st\<lparr>ts := (ts st)\<lparr>ti_type := NC_TI_OPENSSL\<rparr>\<rparr>
                           in if \<not> te_ssl_new A then Some (-1, True, st1)
                              else map_option (\<lambda>(x, st2). (x, False, st2))
                                     (tls_accept_loop (te_verify_fn A) S opts (accept_deadline (te_start A) timeout) st1 (te_rounds A))))"

section \<open>Who is accepted\<close>

text \<open>The specification: an entry whose fingerprint is the digest of the certificate, by the algorithm it
  names.\<close>

definition fp_matches :: "nc_ctn \<Rightarrow> cert \<Rightarrow> bool" where
  "fp_matches c crt \<longleftrightarrow>
     (\<exists>fp h d. fingerprint c = Some fp \<and> fp_hash fp = Some h \<and> x509_digest crt h = Some d \<and> strcasecmp_eq (drop 3 fp) (hex_colon d))"

definition justified :: "(nat \<Rightarrow> nc_session \<Rightarrow> bool) \<Rightarrow> nc_server_opts \<Rightarrow> nc_server_tls_opts \<Rightarrow> verify_call \<Rightarrow> cert \<Rightarrow> string \<Rightarrow> bool" where
  "justified vf S opts v peer u \<longleftrightarrow> vc_preverify v \<and>
     (\<exists>c \<in> set (ctn opts). ctn_valid c \<and> fp_matches c (vc_cert v) \<and> ctn_username peer (map_type c) (ctn_name c) = Some u) \<and>
     (\<forall>f. user_verify_clb S = Some f \<longrightarrow> (\<exists>s. username s = Some u \<and> vf f s))"

text \<open>What a call that does not refuse has checked.\<close>

definition call_ok :: "nc_server_tls_opts \<Rightarrow> cert \<Rightarrow> verify_call \<Rightarrow> bool" where
  "call_ok opts peer v \<longleftrightarrow>
     (if vc_preverify v then crl_check opts v else \<exists>cs. vc_trusted v = Some cs \<and> (\<exists>c \<in> set cs. cert_pubkey_match peer c))"

lemma ctn_scan_sound:
  assumes "ctn_scan crt cs = Some (0, mt, nm)"
  shows "\<exists>c \<in> set cs. ctn_valid c \<and> fp_matches c crt \<and> mt = map_type c \<and>
    nm = (if map_type c = NC_TLS_CTN_SPECIFIED then ctn_name c else None)"
  using assms
proof (induction cs)
  case (Cons c cs)
  show ?case
  proof (cases "ctn_scan crt cs = Some (0, mt, nm)")
    case True
    then show ?thesis using Cons.IH by auto
  next
    case False
    then have v: "ctn_valid c" using Cons.prems by (auto split: if_splits)
    then obtain fp where fp: "fingerprint c = Some fp" by (auto simp: ctn_valid_def)
    show ?thesis using Cons.prems False v fp
      by (auto simp: fp_matches_def digest_to_str_def Let_def split: option.splits if_splits)
  qed
qed simp

lemma ctn_scan_result: "ctn_scan crt cs = Some (r, mt, nm) \<Longrightarrow> r = 0 \<or> r = 1 \<or> r = -1"
  by (induction cs) (auto simp: Let_def split: if_splits option.splits)

lemma cert_to_user_sound:
  assumes "cert_to_user vf S opts v peer st = Some (True, st')" and "username (ts st) = None" and "vc_preverify v"
  shows "client_cert st' = client_cert st \<and>
    (username (ts st') = None \<and> 0 < vc_depth v \<or> (\<exists>u. username (ts st') = Some u \<and> justified vf S opts v peer u))"
proof -
  obtain r mt nm where n: "nc_tls_cert_to_name (vc_alloc v) (ctn opts) (vc_cert v) = Some (r, mt, nm)"
    using assms(1) by (cases "nc_tls_cert_to_name (vc_alloc v) (ctn opts) (vc_cert v)") (auto simp: cert_to_user_def)
  have r: "r = 0 \<or> r = 1 \<or> r = -1"
    using n ctn_scan_result [of "vc_cert v" "ctn opts" r mt nm] by (auto simp: nc_tls_cert_to_name_def split: if_splits)
  show ?thesis
  proof (cases "r = 0")
    case False
    then show ?thesis using assms n r by (auto simp: cert_to_user_def)
  next
    case True
    have sc: "ctn_scan (vc_cert v) (ctn opts) = Some (0, mt, nm)"
      using n True by (auto simp: nc_tls_cert_to_name_def split: if_splits)
    then obtain c where c: "c \<in> set (ctn opts)" "ctn_valid c" "fp_matches c (vc_cert v)" "mt = map_type c"
      "nm = (if map_type c = NC_TLS_CTN_SPECIFIED then ctn_name c else None)" using ctn_scan_sound by blast
    have cu: "ctn_username peer mt nm = ctn_username peer (map_type c) (ctn_name c)" using c(4,5) by (simp add: ctn_username_def)
    show ?thesis
    proof (cases "ctn_username peer mt nm")
      case None
      then show ?thesis using assms n True by (auto simp: cert_to_user_def)
    next
      case (Some u)
      have st': "st' = st\<lparr>ts := (ts st)\<lparr>username := Some u\<rparr>\<rparr>" and vf: "\<forall>f. user_verify_clb S = Some f \<longrightarrow> vf f (ts st')"
        using assms(1) n True Some by (auto simp: cert_to_user_def Let_def split: option.splits)
      have un: "username (ts st') = Some u" using st' by simp
      have "ctn_username peer (map_type c) (ctn_name c) = Some u" using cu Some by metis
      then have "justified vf S opts v peer u" unfolding justified_def using assms(3) c(1-3) un vf by blast
      then show ?thesis using un st' by simp
    qed
  qed
qed

definition peer_of :: "verify_call \<Rightarrow> tls_sess \<Rightarrow> cert" where
  "peer_of v st = (case client_cert st of None \<Rightarrow> vc_peer v | Some c \<Rightarrow> c)"

lemma peer_of_Some: "client_cert st = Some c \<Longrightarrow> peer_of v st = c"
  by (simp add: peer_of_def)

lemma verify_step:
  assumes "nc_tlsclb_verify vf S opts v st = Some (True, st')"
  shows "client_cert st' = Some (peer_of v st) \<and> call_ok opts (peer_of v st) v \<and>
    (username (ts st) \<noteq> None \<longrightarrow> username (ts st') = username (ts st)) \<and>
    (username (ts st) = None \<longrightarrow>
       username (ts st') = None \<and> (vc_preverify v \<longrightarrow> 0 < vc_depth v) \<or>
       (\<exists>u. username (ts st') = Some u \<and> justified vf S opts v (peer_of v st) u))"
proof (cases "vc_preverify v")
  case False
  then show ?thesis using assms
    by (auto simp: nc_tlsclb_verify_def Let_def call_ok_def list_ex_iff peer_of_def split: option.splits)
next
  case True
  have c: "crl_check opts v" using assms True by (auto simp: nc_tlsclb_verify_def Let_def split: if_splits)
  let ?st = "st\<lparr>client_cert := Some (peer_of v st)\<rparr>"
  show ?thesis
  proof (cases "username (ts st) = None")
    case False
    then show ?thesis using assms True c by (auto simp: nc_tlsclb_verify_def Let_def call_ok_def peer_of_def)
  next
    case un: True
    have "cert_to_user vf S opts v (peer_of v st) ?st = Some (True, st')"
      using assms True c un by (simp add: nc_tlsclb_verify_def Let_def peer_of_def)
    then show ?thesis using cert_to_user_sound [of vf S opts v "peer_of v st" ?st st'] un True c by (auto simp: call_ok_def)
  qed
qed

lemma verify_run_sound:
  assumes "verify_run vf S opts st vs = Some (True, st')" and "vs \<noteq> []"
  shows "client_cert st' = Some (peer_of (hd vs) st) \<and> (\<forall>v \<in> set vs. call_ok opts (peer_of (hd vs) st) v) \<and>
    (username (ts st) \<noteq> None \<longrightarrow> username (ts st') = username (ts st)) \<and>
    (username (ts st) = None \<longrightarrow>
       username (ts st') = None \<and> (vc_preverify (last vs) \<longrightarrow> 0 < vc_depth (last vs)) \<or>
       (\<exists>u. username (ts st') = Some u \<and> (\<exists>v \<in> set vs. justified vf S opts v (peer_of (hd vs) st) u)))"
  using assms
proof (induction vs arbitrary: st)
  case (Cons v vs)
  obtain st1 where v: "nc_tlsclb_verify vf S opts v st = Some (True, st1)" and r: "verify_run vf S opts st1 vs = Some (True, st')"
    using Cons.prems(1) by (auto split: option.splits if_splits)
  note k = verify_step [OF v]
  show ?case
  proof (cases "vs = []")
    case True
    have "st1 = st'" using r True by simp
    then show ?thesis using k unfolding True by simp
  next
    case False
    have p: "peer_of (hd vs) st1 = peer_of v st" using k by (simp add: peer_of_Some)
    have h: "hd (v # vs) = v" and l: "last (v # vs) = last vs" using False by simp_all
    note IH = Cons.IH [OF r False, unfolded p]
    show ?thesis unfolding h l using k IH by (cases "username (ts st1)") auto
  qed
qed simp

text \<open>The verification calls made until \<^verbatim>\<open>SSL_accept\<close> no longer waits.\<close>

fun accept_trace :: "tls_round list \<Rightarrow> verify_call list" where
  "accept_trace [] = []"
| "accept_trace (r # rs) = tr_calls r @ (if tr_ret r = -1 \<and> tr_want_read r then accept_trace rs else [])"

lemma verify_run_append:
  assumes "verify_run vf S opts st (a @ b) = Some (True, x)"
  shows "\<exists>y. verify_run vf S opts st a = Some (True, y) \<and> verify_run vf S opts y b = Some (True, x)"
  using assms by (induction a arbitrary: st) (auto split: option.splits if_splits)

lemma tls_loop_trace:
  assumes "tls_accept_loop vf S opts dl st rs = Some (1, st')" and "verify_run vf S opts st (accept_trace rs) = Some (True, x)"
  shows "x = st'"
  using assms
proof (induction rs arbitrary: st)
  case (Cons r rs)
  let ?more = "tr_ret r = -1 \<and> tr_want_read r"
  obtain y where y: "verify_run vf S opts st (tr_calls r) = Some (True, y)"
    and b: "verify_run vf S opts y (if ?more then accept_trace rs else []) = Some (True, x)"
    using verify_run_append [of vf S opts st "tr_calls r"] Cons.prems(2) by auto
  show ?case
  proof (cases ?more)
    case True
    then have "tls_accept_loop vf S opts dl y rs = Some (1, st')" using Cons.prems(1) y by (auto split: if_splits)
    then show ?thesis using Cons.IH b True by simp
  next
    case False
    then show ?thesis using Cons.prems(1) y b by (auto split: if_splits)
  qed
qed simp

text \<open>C6: A TLS session is accepted only for a user that a valid cert-to-name entry gives: an entry whose
  fingerprint is the digest of a certificate of the verified chain, and whose name or field of the peer's
  certificate is the user's name, with the consent of the verify callback when there is one. Every
  certificate OpenSSL verified passed the revocation checks, and a verdict of OpenSSL was overridden only
  for a peer whose public key is that of a trusted certificate. What is relied on is that \<^verbatim>\<open>SSL_accept\<close>
  succeeds only when no verification call refused and the last one was for the peer's own
  certificate.\<close>

theorem tls_accept_sound:
  assumes "nc_accept_tls_session A S opts timeout st = Some (1, closed, st')"
    and "username (ts st) = None" and "client_cert st = None"
    and "\<exists>x. verify_run (te_verify_fn A) S opts (st\<lparr>ts := (ts st)\<lparr>ti_type := NC_TI_OPENSSL\<rparr>\<rparr>) (accept_trace (te_rounds A)) = Some (True, x)"
    and "accept_trace (te_rounds A) \<noteq> []" and "vc_preverify (last (accept_trace (te_rounds A)))"
    and "vc_depth (last (accept_trace (te_rounds A))) = 0"
  shows "\<not> closed \<and> (\<exists>u peer. username (ts st') = Some u \<and> client_cert st' = Some peer \<and> peer = vc_peer (hd (accept_trace (te_rounds A))) \<and>
    (\<exists>v \<in> set (accept_trace (te_rounds A)). justified (te_verify_fn A) S opts v peer u) \<and>
    (\<forall>v \<in> set (accept_trace (te_rounds A)). call_ok opts peer v))"
proof -
  let ?st = "st\<lparr>ts := (ts st)\<lparr>ti_type := NC_TI_OPENSSL\<rparr>\<rparr>"
  obtain x where x: "verify_run (te_verify_fn A) S opts ?st (accept_trace (te_rounds A)) = Some (True, x)" using assms(4) by blast
  have l: "tls_accept_loop (te_verify_fn A) S opts (accept_deadline (te_start A) timeout) ?st (te_rounds A) = Some (1, st')"
    and nc: "\<not> closed"
    using assms(1) by (auto simp: nc_accept_tls_session_def Let_def split: if_splits option.splits)
  have "x = st'" by (rule tls_loop_trace [OF l x])
  moreover have "peer_of (hd (accept_trace (te_rounds A))) ?st = vc_peer (hd (accept_trace (te_rounds A)))"
    using assms(3) by (simp add: peer_of_def)
  ultimately show ?thesis using verify_run_sound [OF x assms(5)] assms(2,6,7) nc by auto
qed

definition demo_cert :: "u8 \<Rightarrow> string \<Rightarrow> cert" where
  "demo_cert b subj = \<lparr>subject = subj, issuer = ''/CN=ca'', serial = 7, pubkey = Some [True], sans = Some [GEN_DNS ''host''],
     x509_digest = (\<lambda>h. Some [b, 0x1F])\<rparr>"

definition demo_call :: "nat \<Rightarrow> cert \<Rightarrow> verify_call" where
  "demo_call d c = \<lparr>vc_preverify = True, vc_depth = d, vc_cert = c, vc_peer = demo_cert 2 ''/C=CZ/CN=bob/O=x'',
     vc_trusted = None, vc_subject_crl = None, vc_issuer_crl = None, vc_alloc = True\<rparr>"

definition demo_lib :: tls_lib where
  "demo_lib = \<lparr>lib_parse_cert = (\<lambda>_. None), lib_read_cert = (\<lambda>_. None), lib_parse_key = (\<lambda>_. None), lib_use_cert_file = (\<lambda>_. True),
     lib_use_cert = (\<lambda>_. True), lib_use_key_file = (\<lambda>_. True), lib_use_key = (\<lambda>_. True), lib_add_chain = (\<lambda>_. True),
     lib_add_trusted = (\<lambda>_. True), lib_load_file = (\<lambda>_. True), lib_add_dir = (\<lambda>_. True),
     server_cert_fn = (\<lambda>_ _. Some (Some ''/crt'', None, Some ''/key'', None, NC_SSH_KEY_RSA)),
     cert_chain_fn = (\<lambda>_ _. None), cert_list_fn = (\<lambda>_ _. Some ([], []))\<rparr>"

definition demo_tls_env :: tls_env where
  "demo_tls_env = \<lparr>te_lib = demo_lib, te_ctx_new = True, te_ssl_new = True, te_verify_fn = (\<lambda>_ _. True), te_start = Timespec 0 0,
     te_rounds = [\<lparr>tr_ret = -1, tr_want_read = True, tr_calls = [], tr_now = Timespec 0 1\<rparr>,
       \<lparr>tr_ret = 1, tr_want_read = False, tr_calls = [demo_call 1 (demo_cert 1 ''/CN=ca''), demo_call 0 (demo_cert 2 ''/C=CZ/CN=bob/O=x'')],
        tr_now = Timespec 0 2\<rparr>]\<rparr>"

definition demo_tls_server :: nc_server_opts where
  "demo_tls_server = no_opts\<lparr>server_cert_clb := \<lparr>cb_fn = Some 1, cb_data = None, cb_free = None\<rparr>,
     trusted_cert_list_clb := \<lparr>cb_fn = Some 2, cb_data = None, cb_free = None\<rparr>\<rparr>"

definition demo_tls_opts :: nc_server_tls_opts where
  "demo_tls_opts = tls_defaults\<lparr>server_cert := Some ''c'',
     ctn := [\<lparr>ctn_id = 1, fingerprint = Some ''04:02:1F'', map_type = NC_TLS_CTN_COMMON_NAME, ctn_name = None\<rparr>]\<rparr>"

definition demo_tls_sess :: tls_sess where
  "demo_tls_sess = \<lparr>ts = the (nc_new_session True True NC_SERVER False), client_cert = None\<rparr>"

definition demo_tls_run :: "(int \<times> bool \<times> tls_sess) option" where
  "demo_tls_run = nc_accept_tls_session demo_tls_env demo_tls_server demo_tls_opts (-1) demo_tls_sess"

lemma demo_tls_accepts:
  "map_option (\<lambda>(r, c, s). (r, c, username (ts s))) demo_tls_run = Some (1, False, Some ''bob'')"
  "map_option fst (verify_run (te_verify_fn demo_tls_env) demo_tls_server demo_tls_opts (demo_tls_sess\<lparr>ts := (ts demo_tls_sess)\<lparr>ti_type := NC_TI_OPENSSL\<rparr>\<rparr>)
     (accept_trace (te_rounds demo_tls_env))) = Some True"
  by code_simp+

theorem tls_accept_sound_witness:
  "\<exists>c s u. demo_tls_run = Some (1, c, s) \<and> username (ts s) = Some u \<and>
     (\<exists>v \<in> set (accept_trace (te_rounds demo_tls_env)).
        justified (te_verify_fn demo_tls_env) demo_tls_server demo_tls_opts v (demo_cert 2 ''/C=CZ/CN=bob/O=x'') u)"
proof -
  obtain c s where r: "demo_tls_run = Some (1, c, s)" using demo_tls_accepts(1) by auto
  have t: "accept_trace (te_rounds demo_tls_env) = [demo_call 1 (demo_cert 1 ''/CN=ca''), demo_call 0 (demo_cert 2 ''/C=CZ/CN=bob/O=x'')]"
    by (simp add: demo_tls_env_def)
  have n: "username (ts demo_tls_sess) = None" "client_cert demo_tls_sess = None"
    by (simp_all add: demo_tls_sess_def nc_new_session_def)
  have v: "\<exists>x. verify_run (te_verify_fn demo_tls_env) demo_tls_server demo_tls_opts (demo_tls_sess\<lparr>ts := (ts demo_tls_sess)\<lparr>ti_type := NC_TI_OPENSSL\<rparr>\<rparr>)
     (accept_trace (te_rounds demo_tls_env)) = Some (True, x)" using demo_tls_accepts(2) by auto
  show ?thesis
    using tls_accept_sound [OF r [unfolded demo_tls_run_def] n v] r unfolding t by (auto simp: demo_call_def)
qed

text \<open>The name is taken from the first \<^verbatim>\<open>CN=\<close> in the printed subject, wherever it stands.\<close>

lemma common_name_spoofed:
  "nc_tls_ctn_get_username_from_cert ((demo_cert 2 [])\<lparr>subject := ''/O=x CN=admin/CN=bob''\<rparr>) NC_TLS_CTN_COMMON_NAME = Some ''admin''"
  by code_simp

end
