(* ===== verification/Spec2Isabelle.thy ===== *)
theory Spec2Isabelle
  imports NC_Poll NC_TlsAuth
begin

text \<open>
  A model of libnetconf2 (C sources under src/src) and proofs about it.

  \<^bold>\<open>The program.\<close> The library implements the NETCONF protocol over SSH, TLS, UNIX sockets and file
  descriptors. A session (\<^verbatim>\<open>session.c\<close>, \<^verbatim>\<open>session_p.h\<close>) carries messages that \<^verbatim>\<open>io.c\<close> frames and
  sends or reads; a server polls its sessions with a pollsession and answers RPCs
  (\<^verbatim>\<open>session_server.c\<close>) with replies and errors built by \<^verbatim>\<open>messages_server.c\<close>.

  \<^bold>\<open>How code becomes definitions.\<close> A function of the library is a HOL function of the same name
  (a leading underscore becomes the suffix \<open>_int\<close>); the objects it changes are arguments and
  come back changed. Enumerations are datatypes, structures are records, integers that can
  wrap around are words of their width. What the code does not decide itself (results of the
  transport, of pthread calls, of the clock and of the allocator) is read from schedules, so a
  theorem for all schedules holds for every behaviour of the environment. The result \<open>None\<close>
  of a function of type \<open>option\<close> whose C counterpart returns a value means that the schedule
  ended before it returned (or that the C code has no defined behaviour there). libyang is a
  record of functions; what is assumed of it are named predicates (\<open>oq_laws\<close>, \<open>oq_alloc\<close>,
  \<open>small_print\<close>), satisfied by the concrete instances used in the witnesses.

  \<^bold>\<open>The theories.\<close>
    \<^item> \<open>NC_Prelude\<close>: enumerations of \<^verbatim>\<open>netconf.h\<close>, \<^verbatim>\<open>session.h\<close>, \<^verbatim>\<open>session_p.h\<close>, words, C string helpers.
    \<^item> \<open>NC_Time\<close>: deadlines (\<^verbatim>\<open>nc_gettimespec_*\<close>, \<^verbatim>\<open>nc_difftimespec_*\<close>); adding and measuring cancel.
    \<^item> \<open>NC_Session\<close>: the session record, getters and setters, the RPC, IO and message locks.
    \<^item> \<open>NC_Wire\<close>: the environment of the IO code (transport, clock, IO mutex, allocator).
    \<^item> \<open>NC_Read\<close>, \<open>NC_Scan\<close>, \<open>NC_ReadMsg\<close>: the reading half of \<^verbatim>\<open>io.c\<close>. \<open>NC_Read\<close> has the loop over
      the transport, \<open>NC_Scan\<close> the search for the end tag against a reference definition,
      \<open>NC_ReadMsg\<close> both framings, with the specification \<open>frame_dec\<close>, and waiting for a message.
    \<^item> \<open>NC_Write\<close>, \<open>NC_WriteMsg\<close>: the writing half of \<^verbatim>\<open>io.c\<close>: buffering, escaping, chunking; every
      kind of message; the round trip with the reader.
    \<^item> \<open>NC_PollQueue\<close>: the ticket lock of a pollsession, as ring buffer and as a step relation over
      any number of threads.
    \<^item> \<open>NC_PollSession\<close>: the table of sessions of a pollsession.
    \<^item> \<open>NC_ServerMessages\<close>: rpc-errors, replies, notifications (\<^verbatim>\<open>messages_server.c\<close>).
    \<^item> \<open>NC_Poll\<close>: \<^verbatim>\<open>nc_ps_poll\<close> and what it calls: receiving an RPC, the callback, the reply.

  \<^bold>\<open>What is shown.\<close> Messages: what is sent is what is received, reading never overruns a
  buffer (except for the chunk size that wraps around, proved as a defect), always releases
  the lock, and returns a message when there is one. Pollsessions: the ring is a list, mutual
  exclusion and progress of the lock, the table is a multiset. Polling: round-robin order, no
  lock or busy mark is left behind, RPCs are accepted exactly when well-formed. Errors: built
  as their tag prescribes, edited without side effects. Defects of the code are theorems too
  (their text blocks say what goes wrong).

  \<^bold>\<open>Bounds.\<close> Loops over the transport recurse on the schedule, so they need no fuel; liveness
  theorems say which schedules suffice. Sizes are bounded only where the code's \<^verbatim>\<open>int\<close> counters
  need it (\<open>< 2 ^ 31\<close>).

  \<^bold>\<open>Not modelled.\<close> The SSH and TLS handshakes and authentication (libssh and OpenSSL calls with
  little logic of their own), the client's schema retrieval, endpoints and Call Home of the
  server, client messages, logging.
\<close>

end
